theory Spec2Isabelle
  imports Complex_Main "HOL-Library.Word" "HOL-Library.Multiset" "HOL-Library.Sublist"
begin

unbundle bit_operations_syntax

section \<open>Status codes and failures\<close>

text \<open>
  The library reports errors as negative \<^verbatim>\<open>int\<close> codes (\<^verbatim>\<open>err.h\<close>). The model names
  them by a datatype. \<^verbatim>\<open>MSP_ERR_BAD_MUTATION\<close> and \<^verbatim>\<open>MSP_ERR_UNSUPPORTED_OPERATION\<close> are used by
  \<^verbatim>\<open>tree_sequence.c\<close>; their numeric values are not needed by any statement below.
\<close>

datatype msp_error =
    MSP_ERR_GENERIC
  | MSP_ERR_NO_MEMORY
  | MSP_ERR_IO
  | MSP_ERR_FILE_FORMAT
  | MSP_ERR_FILE_VERSION
  | MSP_ERR_BAD_MODE
  | MSP_ERR_BAD_PARAM_VALUE
  | MSP_ERR_OUT_OF_BOUNDS
  | MSP_ERR_NEWICK_OVERFLOW
  | MSP_ERR_UNSORTED_POP_MODELS
  | MSP_ERR_POPULATION_OVERFLOW
  | MSP_ERR_LINKS_OVERFLOW
  | MSP_ERR_HDF5
  | MSP_ERR_BAD_POP_MODEL
  | MSP_ERR_UNSUPPORTED_FILE_VERSION
  | MSP_ERR_BAD_ORDERING
  | MSP_ERR_BAD_MUTATION
  | MSP_ERR_UNSUPPORTED_OPERATION

text \<open>
  A call either returns an error code, or does not return normally at all: an
  \<^verbatim>\<open>assert\<close> that fails aborts the process, an array access outside the allocated
  block (or to a cell that was never written) has no defined behaviour in C, and a loop
  whose counter wraps around before it reaches its bound never ends. All are branches of
  the model. A block of memory is modelled by the list of the cells written so far.
\<close>

datatype failure =
    Error msp_error
  | Assertion_failed
  | Out_of_range
  | Loops_forever

type_synonym 'a result = "failure + 'a"

definition bind_r :: "'a result \<Rightarrow> ('a \<Rightarrow> 'b result) \<Rightarrow> 'b result" where
  "bind_r m f = (case m of Inl e \<Rightarrow> Inl e | Inr x \<Rightarrow> f x)"

lemma bind_r_cong [fundef_cong]:
  "m = m' \<Longrightarrow> (\<And>x. m' = Inr x \<Longrightarrow> f x = f' x) \<Longrightarrow> bind_r m f = bind_r m' f'"
  by (cases m') (simp_all add: bind_r_def)

definition rd :: "'a list \<Rightarrow> nat \<Rightarrow> 'a result" where
  "rd xs i = (if i < length xs then Inr (xs ! i) else Inl Out_of_range)"

definition wr :: "'a list \<Rightarrow> nat \<Rightarrow> 'a \<Rightarrow> 'a list result" where
  "wr xs i v = (if i < length xs then Inr (xs[i := v]) else Inl Out_of_range)"

fun fold_r :: "('a \<Rightarrow> 's \<Rightarrow> 's result) \<Rightarrow> 'a list \<Rightarrow> 's \<Rightarrow> 's result" where
  "fold_r f [] s = Inr s"
| "fold_r f (x # xs) s = bind_r (f x s) (fold_r f xs)"

fun map_r :: "('a \<Rightarrow> 'b result) \<Rightarrow> 'a list \<Rightarrow> 'b list result" where
  "map_r f [] = Inr []"
| "map_r f (x # xs) = bind_r (f x) (\<lambda>y. bind_r (map_r f xs) (\<lambda>ys. Inr (y # ys)))"

text \<open>
  \<^verbatim>\<open>qsort\<close> belongs to the C library. The standard fixes that the result holds the
  elements of the input in an order the comparison function agrees with, and leaves the
  order of elements that compare equal open; the model sorts by insertion. The comparison
  functions return an \<^verbatim>\<open>int\<close> as in C.
\<close>

fun qsort_insert :: "('a \<Rightarrow> 'a \<Rightarrow> int) \<Rightarrow> 'a \<Rightarrow> 'a list \<Rightarrow> 'a list" where
  "qsort_insert cmp x [] = [x]"
| "qsort_insert cmp x (y # ys) = (if cmp x y \<le> 0 then x # y # ys else y # qsort_insert cmp x ys)"

definition qsort :: "('a \<Rightarrow> 'a \<Rightarrow> int) \<Rightarrow> 'a list \<Rightarrow> 'a list" where
  "qsort cmp xs = foldr (qsort_insert cmp) xs []"

text \<open>What sorting needs of a comparison function: it is total and transitive.\<close>

definition cmp_total :: "('a \<Rightarrow> 'a \<Rightarrow> int) \<Rightarrow> bool" where
  "cmp_total cmp = ((\<forall>a b. cmp a b \<le> 0 \<or> cmp b a \<le> 0) \<and>
                    (\<forall>a b c. cmp a b \<le> 0 \<and> cmp b c \<le> 0 \<longrightarrow> cmp a c \<le> 0))"

section \<open>The archive library\<close>

text \<open>
  \<^verbatim>\<open>tree_sequence_load\<close> and \<^verbatim>\<open>tree_sequence_dump\<close> go through the HDF5 library, which is
  not part of the repository. The model keeps what the code asks of it: a file holds
  groups, datasets and attributes; each dataset or attribute has its dimensions (none for
  a scalar) and its elements, which are 32-bit integers, doubles or the characters of a
  string. An object path is absolute; \<^verbatim>\<open>trees\<close> names the group \<^verbatim>\<open>/trees\<close>. A call fails
  when the object it names is missing (or, for a creation, is there already or has no
  parent group), and a read fails when the elements are not of the class asked for.
  Storage errors are not modelled, and closing an object, a file or the library succeeds.
  Chunking, checksums and compression do not change what is read back.
\<close>

datatype h5_data = H5_uint32 "32 word list" | H5_double "real list" | H5_string string

record h5_object =
  h5_dims :: "nat list"
  h5_data :: h5_data

record h5_file =
  h5_groups :: "string list"
  h5_datasets :: "string \<Rightarrow> h5_object option"
  h5_attributes :: "string \<times> string \<Rightarrow> h5_object option"

definition h5_empty :: h5_file where
  "h5_empty = \<lparr>h5_groups = [], h5_datasets = (\<lambda>n. None), h5_attributes = (\<lambda>n. None)\<rparr>"

definition h5_abs :: "string \<Rightarrow> string" where
  "h5_abs name = (case name of [] \<Rightarrow> ''/'' | c # cs \<Rightarrow> if c = CHR ''/'' then name else CHR ''/'' # name)"

definition h5_parent :: "string \<Rightarrow> string" where
  "h5_parent name = rev (tl (dropWhile (\<lambda>c. c \<noteq> CHR ''/'') (rev name)))"

definition h5_has_object :: "h5_file \<Rightarrow> string \<Rightarrow> bool" where
  "h5_has_object f name = (name = ''/'' \<or> name = [] \<or> name \<in> set (h5_groups f))"

definition H5Lexists :: "h5_file \<Rightarrow> string \<Rightarrow> bool" where
  "H5Lexists f name = (h5_abs name \<in> set (h5_groups f) \<or> h5_datasets f (h5_abs name) \<noteq> None)"

definition H5Gcreate :: "h5_file \<Rightarrow> string \<Rightarrow> h5_file option" where
  "H5Gcreate f name =
     (if H5Lexists f name \<or> \<not> h5_has_object f (h5_parent (h5_abs name)) then None
      else Some (f\<lparr>h5_groups := h5_abs name # h5_groups f\<rparr>))"

definition H5Gopen :: "h5_file \<Rightarrow> string \<Rightarrow> string option" where
  "H5Gopen f name = (if h5_abs name \<in> set (h5_groups f) then Some (h5_abs name) else None)"

definition H5Dopen :: "h5_file \<Rightarrow> string \<Rightarrow> h5_object option" where
  "H5Dopen f name = h5_datasets f (h5_abs name)"

text \<open>\<^verbatim>\<open>H5Dcreate2\<close> followed by \<^verbatim>\<open>H5Dwrite\<close> of all elements.\<close>

definition H5Dcreate_write :: "h5_file \<Rightarrow> string \<Rightarrow> h5_object \<Rightarrow> h5_file option" where
  "H5Dcreate_write f name obj =
     (if H5Lexists f name \<or> \<not> h5_has_object f (h5_parent (h5_abs name)) then None
      else Some (f\<lparr>h5_datasets := (h5_datasets f)(h5_abs name \<mapsto> obj)\<rparr>))"

definition H5Aopen_by_name :: "h5_file \<Rightarrow> string \<Rightarrow> string \<Rightarrow> h5_object option" where
  "H5Aopen_by_name f obj_name attr_name = h5_attributes f (h5_abs obj_name, attr_name)"

text \<open>\<^verbatim>\<open>H5Acreate\<close> followed by \<^verbatim>\<open>H5Awrite\<close>, on the file itself or on an open group.\<close>

definition H5Acreate_write :: "h5_file \<Rightarrow> string \<Rightarrow> string \<Rightarrow> h5_object \<Rightarrow> h5_file option" where
  "H5Acreate_write f obj_name attr_name obj =
     (if \<not> h5_has_object f (h5_abs obj_name) \<or> h5_attributes f (h5_abs obj_name, attr_name) \<noteq> None
      then None
      else Some (f\<lparr>h5_attributes := (h5_attributes f)((h5_abs obj_name, attr_name) \<mapsto> obj)\<rparr>))"

text \<open>Reading all elements with memory type \<^verbatim>\<open>H5T_NATIVE_UINT32\<close> or \<^verbatim>\<open>H5T_NATIVE_DOUBLE\<close>.\<close>

definition h5_read_uint32 :: "h5_object \<Rightarrow> 32 word list option" where
  "h5_read_uint32 obj = (case h5_data obj of H5_uint32 xs \<Rightarrow> Some xs | _ \<Rightarrow> None)"

definition h5_read_double :: "h5_object \<Rightarrow> real list option" where
  "h5_read_double obj = (case h5_data obj of H5_double xs \<Rightarrow> Some xs | _ \<Rightarrow> None)"

section \<open>The surroundings of the process\<close>

text \<open>
  \<^verbatim>\<open>fread\<close> into a \<^verbatim>\<open>uint32_t\<close> or \<^verbatim>\<open>uint64_t\<close> array stores the file's bytes as they are,
  so the value of each element depends on the byte order of the machine.
\<close>

datatype endian = Little | Big

text \<open>
  What the process gets from its surroundings: the byte order, whether a \<^verbatim>\<open>malloc\<close> of a
  given size succeeds, the files that can be opened for reading (flat files by their
  bytes, archives by their objects) and the names that can be opened for writing.
  \<^verbatim>\<open>size_t\<close> and \<^verbatim>\<open>long\<close> have 64 bits. The two constants of the archive format version
  are defined in \<^verbatim>\<open>msprime.h\<close>, which is not among the sources; they are fields here.
\<close>

record platform =
  byte_order :: endian
  malloc_ok :: "nat \<Rightarrow> bool"
  files :: "string \<Rightarrow> 8 word list option"
  writable :: "string \<Rightarrow> bool"
  h5_files :: "string \<Rightarrow> h5_file option"
  MSP_FILE_FORMAT_VERSION_MAJOR :: "32 word"
  MSP_FILE_FORMAT_VERSION_MINOR :: "32 word"

section \<open>Haplotype generator (\<^verbatim>\<open>hapgen.c\<close>)\<close>

text \<open>
  The fields of \<^verbatim>\<open>hapgen_t\<close> that \<^verbatim>\<open>hapgen_set_bit\<close> and \<^verbatim>\<open>hapgen_get_haplotype\<close> use.
  \<^verbatim>\<open>haplotype_matrix\<close> is the block of \<^verbatim>\<open>uint64_t\<close> words, \<^verbatim>\<open>haplotype\<close> the \<^verbatim>\<open>char\<close> buffer
  the result string is written to.
\<close>

record hapgen =
  hg_sample_size :: "32 word"
  hg_num_mutations :: nat
  hg_words_per_row :: nat
  haplotype_matrix :: "64 word list"
  haplotype :: "char list"

definition HG_WORD_SIZE :: nat where
  "HG_WORD_SIZE = 64"

definition hapgen_set_bit :: "hapgen \<Rightarrow> nat \<Rightarrow> nat \<Rightarrow> hapgen result" where
  "hapgen_set_bit self row column =
     (let word = column div HG_WORD_SIZE;
          bit = column mod HG_WORD_SIZE
      in if \<not> word < hg_words_per_row self then Inl Assertion_failed
         else bind_r (rd (haplotype_matrix self) (row * hg_words_per_row self + word)) (\<lambda>w.
              bind_r (wr (haplotype_matrix self) (row * hg_words_per_row self + word)
                        (w OR push_bit bit 1)) (\<lambda>m.
              Inr (self\<lparr>haplotype_matrix := m\<rparr>))))"

text \<open>
  The storage \<^verbatim>\<open>hapgen_alloc\<close> sets up: \<^verbatim>\<open>words_per_row\<close> is
  \<^verbatim>\<open>num_mutations / 64 + 1\<close>, the matrix has \<^verbatim>\<open>words_per_row * sample_size\<close> words and
  the string buffer \<^verbatim>\<open>words_per_row * 64 + 1\<close> characters. \<^verbatim>\<open>hapgen_set_bit\<close> keeps
  all three.
\<close>

definition hapgen_sized :: "hapgen \<Rightarrow> bool" where
  "hapgen_sized self =
     (hg_words_per_row self = hg_num_mutations self div HG_WORD_SIZE + 1 \<and>
      length (haplotype_matrix self) = hg_words_per_row self * unat (hg_sample_size self) \<and>
      length (haplotype self) = hg_words_per_row self * HG_WORD_SIZE + 1)"

text \<open>The inner loop of \<^verbatim>\<open>hapgen_get_haplotype\<close>: the 64 characters of one word.\<close>

definition haplotype_char :: "64 word \<Rightarrow> nat \<Rightarrow> char" where
  "haplotype_char word k = (if drop_bit k word AND 1 \<noteq> 0 then CHR ''1'' else CHR ''0'')"

definition write_word :: "64 word \<Rightarrow> char list \<times> nat \<Rightarrow> (char list \<times> nat) result" where
  "write_word word =
     fold_r (\<lambda>k (buf, l). bind_r (wr buf l (haplotype_char word k)) (\<lambda>buf'. Inr (buf', l + 1)))
       [0..<HG_WORD_SIZE]"

definition hapgen_get_haplotype :: "hapgen \<Rightarrow> 32 word \<Rightarrow> (hapgen \<times> string) result" where
  "hapgen_get_haplotype self sample_id =
     (if sample_id < 1 \<or> sample_id > hg_sample_size self then Inl (Error MSP_ERR_OUT_OF_BOUNDS)
      else
        bind_r (fold_r (\<lambda>j (buf, l).
                  bind_r (rd (haplotype_matrix self)
                            (unat (sample_id - 1) * hg_words_per_row self + j)) (\<lambda>word.
                  write_word word (buf, l)))
                [0..<hg_words_per_row self] (haplotype self, 0)) (\<lambda>(buf, l).
        bind_r (wr buf (hg_num_mutations self) (CHR 0x00)) (\<lambda>buf'.
        Inr (self\<lparr>haplotype := buf'\<rparr>, takeWhile (\<lambda>c. c \<noteq> CHR 0x00) buf'))))"

text \<open>
  Bit \<open>(row, column)\<close> of the matrix, addressed as \<^verbatim>\<open>hapgen_set_bit\<close> addresses it:
  word \<^verbatim>\<open>column / 64\<close> of the row, bit \<^verbatim>\<open>column % 64\<close> of that word.
\<close>

definition hapgen_bit :: "hapgen \<Rightarrow> nat \<Rightarrow> nat \<Rightarrow> bool" where
  "hapgen_bit self row column =
     (haplotype_matrix self ! (row * hg_words_per_row self + column div HG_WORD_SIZE)
        AND push_bit (column mod HG_WORD_SIZE) 1 \<noteq> 0)"

section \<open>Legacy tree file (\<^verbatim>\<open>tree_file.c\<close>)\<close>

text \<open>
  The C library's streams on a regular file, as far as \<^verbatim>\<open>tree_file_read_info\<close> and the
  open functions use them: a stream is the file's bytes and a position. \<^verbatim>\<open>fread\<close> of one
  item of \<open>sz\<close> bytes returns the item if \<open>sz\<close> is positive and that many bytes are
  left, and nothing otherwise (the position then stands at the end of the file).
  \<^verbatim>\<open>fseek\<close> to a negative offset fails. Device errors are not modelled.
\<close>

record stream =
  bytes :: "8 word list"
  pos :: nat

definition fread :: "nat \<Rightarrow> stream \<Rightarrow> 8 word list option \<times> stream" where
  "fread sz f =
     (if 0 < sz \<and> pos f + sz \<le> length (bytes f)
      then (Some (take sz (drop (pos f) (bytes f))), f\<lparr>pos := pos f + sz\<rparr>)
      else (None, f\<lparr>pos := max (pos f) (length (bytes f))\<rparr>))"

definition ftell :: "stream \<Rightarrow> nat" where
  "ftell f = pos f"

definition fseek_end :: "stream \<Rightarrow> stream" where
  "fseek_end f = f\<lparr>pos := length (bytes f)\<rparr>"

definition fseek_set :: "stream \<Rightarrow> int \<Rightarrow> stream option" where
  "fseek_set f offset = (if offset < 0 then None else Some (f\<lparr>pos := nat offset\<rparr>))"

definition uint_of_bytes :: "endian \<Rightarrow> 8 word list \<Rightarrow> 'a::len word" where
  "uint_of_bytes e bs = (case e of Little \<Rightarrow> word_rcat (rev bs) | Big \<Rightarrow> word_rcat bs)"

definition MSP_TREE_FILE_MAGIC :: "32 word" where
  "MSP_TREE_FILE_MAGIC = 0xa52cd4a4"

definition MSP_TREE_FILE_VERSION :: "32 word" where
  "MSP_TREE_FILE_VERSION = 1"

definition MSP_TREE_FILE_HEADER_SIZE :: nat where
  "MSP_TREE_FILE_HEADER_SIZE = 28"

text \<open>
  \<^verbatim>\<open>tree_file_t\<close>. \<^verbatim>\<open>filename\<close>, \<^verbatim>\<open>metadata\<close> and \<^verbatim>\<open>file\<close> are pointers: \<open>None\<close> is
  \<^verbatim>\<open>NULL\<close>. \<^verbatim>\<open>metadata\<close> holds the bytes before the terminating NUL the code appends, and is
  \<open>Some []\<close> for the block \<^verbatim>\<open>malloc\<close> has returned and nothing has been read into.
\<close>

record tree_file =
  tf_filename :: "string option"
  tf_mode :: char
  tf_file :: "stream option"
  tf_sample_size :: "32 word"
  tf_num_loci :: "32 word"
  tf_flags :: "32 word"
  tf_metadata_offset :: "64 word"
  tf_coalescence_record_offset :: nat
  tf_metadata :: "8 word list option"

text \<open>The state after \<^verbatim>\<open>memset(self, 0, sizeof(tree_file_t))\<close>.\<close>

definition tree_file_zero :: tree_file where
  "tree_file_zero =
     \<lparr>tf_filename = None, tf_mode = CHR 0x00, tf_file = None, tf_sample_size = 0,
      tf_num_loci = 0, tf_flags = 0, tf_metadata_offset = 0,
      tf_coalescence_record_offset = 0, tf_metadata = None\<rparr>"

text \<open>
  \<^verbatim>\<open>tree_file_read_info\<close>, called with \<^verbatim>\<open>self->file\<close> open on \<open>f\<close>. The result is the
  status (\<open>None\<close> for 0) and the updated structure. The three open functions are
  called by \<^verbatim>\<open>tree_file_open\<close> only, with \<^verbatim>\<open>self->filename\<close> a copy of its argument
  \<open>filename\<close>.
\<close>

definition tree_file_read_info :: "platform \<Rightarrow> stream \<Rightarrow> tree_file \<Rightarrow> msp_error option \<times> tree_file" where
  "tree_file_read_info p f self =
     (case fread 20 f of
        (None, f1) \<Rightarrow> (Some MSP_ERR_IO, self\<lparr>tf_file := Some f1\<rparr>)
      | (Some b32, f1) \<Rightarrow>
     (case fread 8 f1 of
        (None, f2) \<Rightarrow> (Some MSP_ERR_IO, self\<lparr>tf_file := Some f2\<rparr>)
      | (Some b64, f2) \<Rightarrow>
       let h32 = (\<lambda>i. uint_of_bytes (byte_order p) (take 4 (drop (4 * i) b32)) :: 32 word);
           h64 = (uint_of_bytes (byte_order p) b64 :: 64 word);
           self = self\<lparr>tf_file := Some f2\<rparr>
       in if h32 0 \<noteq> MSP_TREE_FILE_MAGIC then (Some MSP_ERR_FILE_FORMAT, self)
          else if h32 1 \<noteq> MSP_TREE_FILE_VERSION then (Some MSP_ERR_FILE_VERSION, self)
          else
            let self = self\<lparr>tf_sample_size := h32 2, tf_num_loci := h32 3, tf_flags := h32 4,
                             tf_metadata_offset := h64,
                             tf_coalescence_record_offset := ftell f2\<rparr>;
                f3 = fseek_end f2;
                self = self\<lparr>tf_file := Some f3\<rparr>;
                metadata_size = (word_of_nat (ftell f3) - tf_metadata_offset self :: 64 word)
            in if \<not> malloc_ok p (unat (metadata_size + 1)) then (Some MSP_ERR_NO_MEMORY, self)
               else
                 let self = self\<lparr>tf_metadata := Some []\<rparr> in
                 (case fseek_set f3 (sint (tf_metadata_offset self)) of
                    None \<Rightarrow> (Some MSP_ERR_IO, self)
                  | Some f4 \<Rightarrow>
                 (case fread (unat metadata_size) f4 of
                    (None, f5) \<Rightarrow> (Some MSP_ERR_IO, self\<lparr>tf_file := Some f5\<rparr>)
                  | (Some md, f5) \<Rightarrow>
                      (None, self\<lparr>tf_file := Some f5, tf_metadata := Some md\<rparr>)))))"

definition tree_file_open_read_mode :: "platform \<Rightarrow> string \<Rightarrow> tree_file \<Rightarrow> msp_error option \<times> tree_file" where
  "tree_file_open_read_mode p filename self =
     (case files p filename of
        None \<Rightarrow> (Some MSP_ERR_IO, self)
      | Some bs \<Rightarrow>
          (case tree_file_read_info p \<lparr>bytes = bs, pos = 0\<rparr> self of
             (Some e, self') \<Rightarrow> (Some e, self')
           | (None, self') \<Rightarrow>
               (case tf_file self' of
                  None \<Rightarrow> (Some MSP_ERR_IO, self')
                | Some f \<Rightarrow>
               (case fseek_set f (int (tf_coalescence_record_offset self')) of
                  None \<Rightarrow> (Some MSP_ERR_IO, self')
                | Some f' \<Rightarrow> (None, self'\<lparr>tf_file := Some f'\<rparr>)))))"

definition tree_file_open_write_mode :: "platform \<Rightarrow> string \<Rightarrow> tree_file \<Rightarrow> msp_error option \<times> tree_file" where
  "tree_file_open_write_mode p filename self =
     (if \<not> writable p filename then (Some MSP_ERR_IO, self)
      else
        let self = self\<lparr>tf_file := Some \<lparr>bytes = [], pos = 0\<rparr>\<rparr>
        in if \<not> malloc_ok p MSP_TREE_FILE_HEADER_SIZE then (Some MSP_ERR_NO_MEMORY, self)
           else (None, self\<lparr>tf_file := Some \<lparr>bytes = replicate MSP_TREE_FILE_HEADER_SIZE 0,
                                               pos = MSP_TREE_FILE_HEADER_SIZE\<rparr>\<rparr>))"

definition tree_file_open_update_mode :: "platform \<Rightarrow> string \<Rightarrow> tree_file \<Rightarrow> msp_error option \<times> tree_file" where
  "tree_file_open_update_mode p filename self =
     (case files p filename of
        None \<Rightarrow> (Some MSP_ERR_IO, self)
      | Some bs \<Rightarrow> tree_file_read_info p \<lparr>bytes = bs, pos = 0\<rparr> self)"

definition tree_file_open :: "platform \<Rightarrow> string \<Rightarrow> char \<Rightarrow> msp_error option \<times> tree_file" where
  "tree_file_open p filename mode =
     (let self = tree_file_zero
      in if \<not> malloc_ok p (1 + length filename) then (Some MSP_ERR_GENERIC, self)
         else
           let self = self\<lparr>tf_filename := Some filename, tf_mode := mode\<rparr>
           in if mode = CHR ''r'' then tree_file_open_read_mode p filename self
              else if mode = CHR ''w'' then tree_file_open_write_mode p filename self
              else if mode = CHR ''u'' then tree_file_open_update_mode p filename self
              else (Some MSP_ERR_BAD_MODE, self))"

text \<open>The header fields as the bytes of a file give them.\<close>

definition header_u32 :: "endian \<Rightarrow> 8 word list \<Rightarrow> nat \<Rightarrow> 32 word" where
  "header_u32 e bs i = uint_of_bytes e (take 4 (drop (4 * i) bs))"

definition header_u64 :: "endian \<Rightarrow> 8 word list \<Rightarrow> 64 word" where
  "header_u64 e bs = uint_of_bytes e (take 8 (drop 20 bs))"

section \<open>Tree sequence (\<^verbatim>\<open>tree_sequence.c\<close>)\<close>

text \<open>
  A \<^verbatim>\<open>double\<close> is modelled by a real number. The code compares, negates and copies the
  times and positions of a tree sequence and does no other arithmetic on them; on
  finite doubles these operations are exact. NaN is outside the model.
\<close>

record coalescence_record =
  cr_left :: "32 word"
  cr_right :: "32 word"
  cr_node :: "32 word"
  cr_children :: "32 word \<times> 32 word"
  cr_time :: real

record mutation =
  mut_position :: real
  mut_node :: "32 word"

record index_sort =
  is_value :: "32 word"
  is_index :: "32 word"
  is_time :: real

definition cmp_mutation :: "mutation \<Rightarrow> mutation \<Rightarrow> int" where
  "cmp_mutation ia ib =
     of_bool (mut_position ia > mut_position ib) - of_bool (mut_position ia < mut_position ib)"

definition cmp_index_sort :: "index_sort \<Rightarrow> index_sort \<Rightarrow> int" where
  "cmp_index_sort ca cb =
     (let ret = of_bool (is_value ca > is_value cb) - of_bool (is_value ca < is_value cb)
      in if ret = 0 then of_bool (is_time ca > is_time cb) - of_bool (is_time ca < is_time cb)
         else ret)"

text \<open>
  \<^verbatim>\<open>tree_sequence_t\<close>. The columns of \<^verbatim>\<open>trees\<close> and \<^verbatim>\<open>mutations\<close> are blocks; \<^verbatim>\<open>children\<close>
  holds the two children of record \<open>j\<close> at \<open>2 * j\<close> and \<open>2 * j + 1\<close>. The four strings
  are pointers, \<open>None\<close> for \<^verbatim>\<open>NULL\<close>.
\<close>

record tree_sequence =
  sample_size :: "32 word"
  num_loci :: "32 word"
  num_nodes :: "32 word"
  num_records :: nat
  num_mutations :: nat
  trees_left :: "32 word list"
  trees_right :: "32 word list"
  trees_node :: "32 word list"
  trees_children :: "32 word list"
  trees_time :: "real list"
  trees_insertion_order :: "32 word list"
  trees_removal_order :: "32 word list"
  trees_parameters :: "string option"
  trees_environment :: "string option"
  mutations_node :: "32 word list"
  mutations_position :: "real list"
  mutations_parameters :: "string option"
  mutations_environment :: "string option"

text \<open>The state after \<^verbatim>\<open>memset(self, 0, sizeof(tree_sequence_t))\<close>.\<close>

definition tree_sequence_zero :: tree_sequence where
  "tree_sequence_zero =
     \<lparr>sample_size = 0, num_loci = 0, num_nodes = 0, num_records = 0, num_mutations = 0,
      trees_left = [], trees_right = [], trees_node = [], trees_children = [],
      trees_time = [], trees_insertion_order = [], trees_removal_order = [],
      trees_parameters = None, trees_environment = None,
      mutations_node = [], mutations_position = [],
      mutations_parameters = None, mutations_environment = None\<rparr>"

text \<open>
  \<^verbatim>\<open>tree_sequence_alloc\<close> allocates the seven columns of \<^verbatim>\<open>trees\<close> (four bytes a cell,
  eight for \<^verbatim>\<open>time\<close>, two cells a record for \<^verbatim>\<open>children\<close>) and, if there are mutations,
  the two columns of \<^verbatim>\<open>mutations\<close>. The new blocks have no cell written.
\<close>

definition tree_sequence_alloc :: "platform \<Rightarrow> tree_sequence \<Rightarrow> tree_sequence result" where
  "tree_sequence_alloc p self =
     (let n = num_records self;
          self = self\<lparr>trees_left := [], trees_right := [], trees_children := [], trees_node := [],
                        trees_time := [], trees_insertion_order := [], trees_removal_order := []\<rparr>
      in if \<not> (malloc_ok p (n * 4) \<and> malloc_ok p (2 * n * 4) \<and> malloc_ok p (n * 8))
         then Inl (Error MSP_ERR_NO_MEMORY)
         else if num_mutations self > 0 then
           let self = self\<lparr>mutations_node := [], mutations_position := []\<rparr>
           in if \<not> (malloc_ok p (num_mutations self * 4) \<and> malloc_ok p (num_mutations self * 8))
              then Inl (Error MSP_ERR_NO_MEMORY)
              else Inr self
         else Inr self)"

text \<open>
  \<^verbatim>\<open>tree_sequence_make_indexes\<close>. The loop counter \<open>j\<close> is a \<^verbatim>\<open>uint32_t\<close> compared with
  the \<^verbatim>\<open>size_t\<close> \<^verbatim>\<open>num_records\<close>. The last statement reads \<^verbatim>\<open>node[num_records - 1]\<close>, which
  is outside the block when there is no record.
\<close>

definition tree_sequence_make_indexes :: "platform \<Rightarrow> tree_sequence \<Rightarrow> tree_sequence result" where
  "tree_sequence_make_indexes p self =
     (if \<not> malloc_ok p (num_records self * 16) then Inl (Error MSP_ERR_NO_MEMORY)
      else if 2 ^ 32 \<le> num_records self then Inl Loops_forever
      else
        bind_r (map_r (\<lambda>j. bind_r (rd (trees_left self) j) (\<lambda>v.
                            bind_r (rd (trees_time self) j) (\<lambda>t.
                            Inr \<lparr>is_value = v, is_index = word_of_nat j, is_time = t\<rparr>)))
                  [0..<num_records self]) (\<lambda>sort_buff.
        let insertion_order = map is_index (qsort cmp_index_sort sort_buff) in
        bind_r (map_r (\<lambda>j. bind_r (rd (trees_right self) j) (\<lambda>v.
                            bind_r (rd (trees_time self) j) (\<lambda>t.
                            Inr \<lparr>is_value = v, is_index = word_of_nat j, is_time = - t\<rparr>)))
                  [0..<num_records self]) (\<lambda>sort_buff.
        let removal_order = map is_index (qsort cmp_index_sort sort_buff) in
        bind_r (if num_records self = 0 then Inl Out_of_range
                else rd (trees_node self) (num_records self - 1)) (\<lambda>n.
        Inr (self\<lparr>trees_insertion_order := insertion_order,
                     trees_removal_order := removal_order,
                     num_nodes := n\<rparr>)))))"

text \<open>
  The simulator \<^verbatim>\<open>msp_t\<close> is not among the sources. \<^verbatim>\<open>tree_sequence_create\<close> reads its
  sample size and number of loci, asks it for the number of coalescence records and for
  the records, and prints its parameters as JSON (\<^verbatim>\<open>encode_simulation_parameters\<close>, whose
  \<^verbatim>\<open>snprintf\<close> formatting is not modelled: the text is a field here).
\<close>

record msp =
  msp_sample_size :: "32 word"
  msp_num_loci :: "32 word"
  msp_num_coalescence_records :: nat
  msp_coalescence_records :: "coalescence_record list result"
  msp_parameters :: "string result"

definition tree_sequence_create :: "platform \<Rightarrow> string result \<Rightarrow> msp \<Rightarrow> tree_sequence result" where
  "tree_sequence_create p encode_environment sim =
     (let self = tree_sequence_zero\<lparr>num_records := msp_num_coalescence_records sim\<rparr>
      in if \<not> num_records self > 0 then Inl Assertion_failed
         else
           let self = self\<lparr>sample_size := msp_sample_size sim, num_loci := msp_num_loci sim,
                            num_mutations := 0\<rparr>
           in bind_r (tree_sequence_alloc p self) (\<lambda>self.
              if \<not> malloc_ok p (num_records self * 32) then Inr self
              else
              bind_r (msp_coalescence_records sim) (\<lambda>records.
              bind_r (map_r (rd records) [0..<num_records self]) (\<lambda>rs.
              let self = self\<lparr>trees_left := map cr_left rs,
                               trees_right := map cr_right rs,
                               trees_node := map cr_node rs,
                               trees_children := concat (map (\<lambda>r. [fst (cr_children r), snd (cr_children r)]) rs),
                               trees_time := map cr_time rs\<rparr>
              in bind_r (tree_sequence_make_indexes p self) (\<lambda>self.
                 bind_r encode_environment (\<lambda>env.
                 let self = self\<lparr>trees_environment := Some env\<rparr>
                 in bind_r (msp_parameters sim) (\<lambda>params.
                    Inr (self\<lparr>trees_parameters := Some params\<rparr>))))))))"

text \<open>
  \<^verbatim>\<open>tree_sequence_set_mutations\<close>. The argument is the array \<^verbatim>\<open>mutations\<close> with its
  length \<^verbatim>\<open>num_mutations\<close>. The code sorts an array of pointers to the elements; the
  model sorts the elements. The result is the status (\<open>None\<close> for 0) and the tree
  sequence as the call leaves it.
\<close>

definition mutation_bad :: "tree_sequence \<Rightarrow> mutation \<Rightarrow> bool" where
  "mutation_bad self m =
     (mut_position m < 0
      \<or> mut_position m > real (unat (num_loci self))
      \<or> mut_node m = 0
      \<or> mut_node m > num_nodes self)"

definition tree_sequence_set_mutations ::
  "platform \<Rightarrow> tree_sequence \<Rightarrow> mutation list \<Rightarrow> msp_error option \<times> tree_sequence" where
  "tree_sequence_set_mutations p self mutations =
     (let n = length mutations;
          self = self\<lparr>num_mutations := 0, mutations_position := [], mutations_node := [],
                        mutations_parameters := None, mutations_environment := None\<rparr>
      in if n > 0 then
           if \<not> (malloc_ok p (n * 8) \<and> malloc_ok p (n * 4) \<and> malloc_ok p (n * 8))
           then (Some MSP_ERR_NO_MEMORY, self)
           else if list_ex (mutation_bad self) mutations then (Some MSP_ERR_BAD_MUTATION, self)
           else
             let mutation_ptrs = qsort cmp_mutation mutations
             in (None, self\<lparr>num_mutations := n,
                               mutations_node := map mut_node mutation_ptrs,
                               mutations_position := map mut_position mutation_ptrs\<rparr>)
         else (None, self))"

section \<open>Loading and dumping a tree sequence\<close>

text \<open>
  A caller that tests \<^verbatim>\<open>status < 0\<close> and leaves with its own \<^verbatim>\<open>ret\<close> replaces every error
  code of the callee by that value.
\<close>

definition with_error :: "msp_error \<Rightarrow> 'a result \<Rightarrow> 'a result" where
  "with_error e r = (case r of Inl (Error _) \<Rightarrow> Inl (Error e) | _ \<Rightarrow> r)"

text \<open>One turn of the loop of \<^verbatim>\<open>tree_sequence_read_hdf5_metadata\<close>.\<close>

definition read_metadata_field :: "h5_file \<Rightarrow> string \<Rightarrow> string \<Rightarrow> nat \<Rightarrow> 32 word list result" where
  "read_metadata_field file pfx name sz =
     (case H5Aopen_by_name file pfx name of
        None \<Rightarrow> Inl (Error MSP_ERR_HDF5)
      | Some attr \<Rightarrow>
          let rank = length (h5_dims attr)
          in if sz = 0 \<and> rank \<noteq> 0 then Inl (Error MSP_ERR_FILE_FORMAT)
             else if sz \<noteq> 0 \<and> rank \<noteq> 1 then Inl (Error MSP_ERR_FILE_FORMAT)
             else if sz \<noteq> 0 \<and> hd (h5_dims attr) \<noteq> sz then Inl (Error MSP_ERR_FILE_FORMAT)
             else (case h5_read_uint32 attr of
                     None \<Rightarrow> Inl (Error MSP_ERR_HDF5)
                   | Some xs \<Rightarrow> Inr xs))"

definition tree_sequence_read_hdf5_metadata ::
  "platform \<Rightarrow> tree_sequence \<Rightarrow> h5_file \<Rightarrow> tree_sequence result" where
  "tree_sequence_read_hdf5_metadata p self file =
     bind_r (read_metadata_field file ''/'' ''format_version'' 2) (\<lambda>version.
     bind_r (read_metadata_field file ''/'' ''sample_size'' 0) (\<lambda>s.
     bind_r (rd s 0) (\<lambda>sample_size'.
     bind_r (read_metadata_field file ''/'' ''num_loci'' 0) (\<lambda>l.
     bind_r (rd l 0) (\<lambda>num_loci'.
     bind_r (rd version 0) (\<lambda>major.
     if major \<noteq> MSP_FILE_FORMAT_VERSION_MAJOR p then Inl (Error MSP_ERR_UNSUPPORTED_FILE_VERSION)
     else Inr (self\<lparr>sample_size := sample_size', num_loci := num_loci'\<rparr>)))))))"

definition check_dimension :: "h5_file \<Rightarrow> string \<Rightarrow> nat \<Rightarrow> nat \<Rightarrow> unit result" where
  "check_dimension file name dimensions sz =
     (case H5Dopen file name of
        None \<Rightarrow> Inl (Error MSP_ERR_HDF5)
      | Some d \<Rightarrow>
          if length (h5_dims d) \<noteq> dimensions then Inl (Error MSP_ERR_FILE_FORMAT)
          else if hd (h5_dims d) \<noteq> sz then Inl (Error MSP_ERR_FILE_FORMAT)
          else Inr ())"

definition tree_sequence_check_hdf5_dimensions :: "tree_sequence \<Rightarrow> h5_file \<Rightarrow> unit result" where
  "tree_sequence_check_hdf5_dimensions self file =
     fold_r (\<lambda>(name, dimensions, sz, required) u.
               if required then check_dimension file name dimensions sz else Inr ())
       [(''/trees/left'', 1, num_records self, True),
        (''/trees/right'', 1, num_records self, True),
        (''/trees/node'', 1, num_records self, True),
        (''/trees/children'', 2, num_records self, True),
        (''/trees/time'', 1, num_records self, True),
        (''/mutations/node'', 1, num_mutations self, num_mutations self > 0),
        (''/mutations/position'', 1, num_mutations self, num_mutations self > 0)] ()"

definition read_dimension :: "h5_file \<Rightarrow> string \<Rightarrow> nat result" where
  "read_dimension file name =
     (case H5Dopen file name of
        None \<Rightarrow> Inl (Error MSP_ERR_HDF5)
      | Some d \<Rightarrow>
          if length (h5_dims d) \<noteq> 1 then Inl (Error MSP_ERR_FILE_FORMAT)
          else Inr (hd (h5_dims d)))"

definition tree_sequence_read_hdf5_dimensions :: "tree_sequence \<Rightarrow> h5_file \<Rightarrow> tree_sequence result" where
  "tree_sequence_read_hdf5_dimensions self file =
     (let exists = H5Lexists file ''/mutations'';
          self = self\<lparr>num_mutations := 0\<rparr>
      in bind_r (read_dimension file ''/trees/left'') (\<lambda>n.
         let self = self\<lparr>num_records := n\<rparr>
         in bind_r (if exists
                    then bind_r (read_dimension file ''/mutations/node'') (\<lambda>m.
                           Inr (self\<lparr>num_mutations := m\<rparr>))
                    else Inr self) (\<lambda>self.
            bind_r (tree_sequence_check_hdf5_dimensions self file) (\<lambda>u. Inr self))))"

text \<open>
  \<^verbatim>\<open>H5Dread\<close> stores every element of the dataset, whatever the size of the block it is
  given.
\<close>

definition read_uint32_field :: "h5_file \<Rightarrow> string \<Rightarrow> nat \<Rightarrow> 32 word list result" where
  "read_uint32_field file name cells =
     (case H5Dopen file name of
        None \<Rightarrow> Inl (Error MSP_ERR_HDF5)
      | Some d \<Rightarrow>
          (case h5_read_uint32 d of
             None \<Rightarrow> Inl (Error MSP_ERR_HDF5)
           | Some xs \<Rightarrow> if length xs > cells then Inl Out_of_range else Inr xs))"

definition read_double_field :: "h5_file \<Rightarrow> string \<Rightarrow> nat \<Rightarrow> real list result" where
  "read_double_field file name cells =
     (case H5Dopen file name of
        None \<Rightarrow> Inl (Error MSP_ERR_HDF5)
      | Some d \<Rightarrow>
          (case h5_read_double d of
             None \<Rightarrow> Inl (Error MSP_ERR_HDF5)
           | Some xs \<Rightarrow> if length xs > cells then Inl Out_of_range else Inr xs))"

definition tree_sequence_read_hdf5_data :: "tree_sequence \<Rightarrow> h5_file \<Rightarrow> tree_sequence result" where
  "tree_sequence_read_hdf5_data self file =
     bind_r (read_uint32_field file ''/trees/left'' (num_records self)) (\<lambda>left.
     bind_r (read_uint32_field file ''/trees/right'' (num_records self)) (\<lambda>right.
     bind_r (read_uint32_field file ''/trees/node'' (num_records self)) (\<lambda>node.
     bind_r (read_uint32_field file ''/trees/children'' (2 * num_records self)) (\<lambda>children.
     bind_r (read_double_field file ''/trees/time'' (num_records self)) (\<lambda>time.
     let self = self\<lparr>trees_left := left, trees_right := right, trees_node := node,
                      trees_children := children, trees_time := time\<rparr>
     in if num_mutations self = 0 then Inr self
        else
          bind_r (read_uint32_field file ''/mutations/node'' (num_mutations self)) (\<lambda>mnode.
          bind_r (read_double_field file ''/mutations/position'' (num_mutations self)) (\<lambda>mposition.
          Inr (self\<lparr>mutations_node := mnode, mutations_position := mposition\<rparr>))))))))"

definition read_string_attribute :: "platform \<Rightarrow> h5_file \<Rightarrow> string \<Rightarrow> string \<Rightarrow> string result" where
  "read_string_attribute p file pfx name =
     (case H5Aopen_by_name file pfx name of
        None \<Rightarrow> Inl (Error MSP_ERR_HDF5)
      | Some attr \<Rightarrow>
          (case h5_data attr of
             H5_string str \<Rightarrow>
               if \<not> malloc_ok p (length str + 1) then Inl (Error MSP_ERR_NO_MEMORY) else Inr str
           | _ \<Rightarrow> Inl (Error MSP_ERR_FILE_FORMAT)))"

definition tree_sequence_read_hdf5_provenance ::
  "platform \<Rightarrow> tree_sequence \<Rightarrow> h5_file \<Rightarrow> tree_sequence result" where
  "tree_sequence_read_hdf5_provenance p self file =
     bind_r (read_string_attribute p file ''trees'' ''environment'') (\<lambda>e.
     bind_r (read_string_attribute p file ''trees'' ''parameters'') (\<lambda>q.
     let self = self\<lparr>trees_environment := Some e, trees_parameters := Some q\<rparr>
     in if num_mutations self > 0 then
          bind_r (read_string_attribute p file ''mutations'' ''environment'') (\<lambda>e'.
          bind_r (read_string_attribute p file ''mutations'' ''parameters'') (\<lambda>q'.
          Inr (self\<lparr>mutations_environment := Some e', mutations_parameters := Some q'\<rparr>)))
        else Inr self))"

text \<open>
  \<^verbatim>\<open>tree_sequence_load\<close>. The results of \<^verbatim>\<open>tree_sequence_read_hdf5_metadata\<close> and of
  \<^verbatim>\<open>tree_sequence_read_hdf5_provenance\<close> are taken into \<^verbatim>\<open>status\<close>, not \<^verbatim>\<open>ret\<close>. The flag
  \<^verbatim>\<open>MSP_SKIP_H5CLOSE\<close> only decides whether the library is closed.
\<close>

definition tree_sequence_load :: "platform \<Rightarrow> string \<Rightarrow> 32 word \<Rightarrow> tree_sequence result" where
  "tree_sequence_load p filename flags =
     (let self = tree_sequence_zero
      in case h5_files p filename of
           None \<Rightarrow> Inl (Error MSP_ERR_HDF5)
         | Some file \<Rightarrow>
             bind_r (with_error MSP_ERR_GENERIC (tree_sequence_read_hdf5_metadata p self file)) (\<lambda>self.
             bind_r (tree_sequence_read_hdf5_dimensions self file) (\<lambda>self.
             bind_r (tree_sequence_alloc p self) (\<lambda>self.
             bind_r (tree_sequence_read_hdf5_data self file) (\<lambda>self.
             bind_r (with_error MSP_ERR_HDF5 (tree_sequence_read_hdf5_provenance p self file)) (\<lambda>self.
             tree_sequence_make_indexes p self))))))"

text \<open>The cells of a column that a write of \<open>n\<close> elements reads.\<close>

definition cells :: "nat \<Rightarrow> 'a list \<Rightarrow> 'a list result" where
  "cells n col = (if length col < n then Inl Out_of_range else Inr (take n col))"

definition write_dataset :: "h5_file \<Rightarrow> string \<Rightarrow> h5_object \<Rightarrow> h5_file result" where
  "write_dataset file name obj =
     (case H5Dcreate_write file name obj of
        None \<Rightarrow> Inl (Error MSP_ERR_GENERIC)
      | Some file' \<Rightarrow> Inr file')"

definition create_group :: "h5_file \<Rightarrow> string \<Rightarrow> h5_file result" where
  "create_group file name =
     (case H5Gcreate file name of
        None \<Rightarrow> Inl (Error MSP_ERR_GENERIC)
      | Some file' \<Rightarrow> Inr file')"

definition tree_sequence_write_hdf5_data :: "tree_sequence \<Rightarrow> h5_file \<Rightarrow> 32 word \<Rightarrow> h5_file result" where
  "tree_sequence_write_hdf5_data self file flags =
     (let n = num_records self; m = num_mutations self
      in bind_r (create_group file ''/trees'') (\<lambda>file.
         bind_r (if m = 0 then Inr file else create_group file ''/mutations'') (\<lambda>file.
         bind_r (if n > 0 then bind_r (cells n (trees_left self)) (\<lambda>xs.
                   write_dataset file ''/trees/left'' \<lparr>h5_dims = [n], h5_data = H5_uint32 xs\<rparr>)
                 else Inr file) (\<lambda>file.
         bind_r (if n > 0 then bind_r (cells n (trees_right self)) (\<lambda>xs.
                   write_dataset file ''/trees/right'' \<lparr>h5_dims = [n], h5_data = H5_uint32 xs\<rparr>)
                 else Inr file) (\<lambda>file.
         bind_r (if n > 0 then bind_r (cells n (trees_node self)) (\<lambda>xs.
                   write_dataset file ''/trees/node'' \<lparr>h5_dims = [n], h5_data = H5_uint32 xs\<rparr>)
                 else Inr file) (\<lambda>file.
         bind_r (if n > 0 then bind_r (cells (2 * n) (trees_children self)) (\<lambda>xs.
                   write_dataset file ''/trees/children'' \<lparr>h5_dims = [n, 2], h5_data = H5_uint32 xs\<rparr>)
                 else Inr file) (\<lambda>file.
         bind_r (if n > 0 then bind_r (cells n (trees_time self)) (\<lambda>xs.
                   write_dataset file ''/trees/time'' \<lparr>h5_dims = [n], h5_data = H5_double xs\<rparr>)
                 else Inr file) (\<lambda>file.
         bind_r (if m > 0 then bind_r (cells m (mutations_node self)) (\<lambda>xs.
                   write_dataset file ''/mutations/node'' \<lparr>h5_dims = [m], h5_data = H5_uint32 xs\<rparr>)
                 else Inr file) (\<lambda>file.
         (if m > 0 then bind_r (cells m (mutations_position self)) (\<lambda>xs.
                   write_dataset file ''/mutations/position'' \<lparr>h5_dims = [m], h5_data = H5_double xs\<rparr>)
          else Inr file))))))))))"

text \<open>
  One turn of the loop of \<^verbatim>\<open>tree_sequence_write_hdf5_provenance\<close>: the value must not be
  \<^verbatim>\<open>NULL\<close>, the group must open, and \<^verbatim>\<open>H5Tset_size\<close> refuses a string type of size 0.
\<close>

definition write_string_attribute :: "h5_file \<Rightarrow> string \<Rightarrow> string \<Rightarrow> string option \<Rightarrow> h5_file result" where
  "write_string_attribute file grp name val =
     (case val of
        None \<Rightarrow> Inl Assertion_failed
      | Some str \<Rightarrow>
          (case H5Gopen file grp of
             None \<Rightarrow> Inl (Error MSP_ERR_GENERIC)
           | Some g \<Rightarrow>
               if length str = 0 then Inl (Error MSP_ERR_GENERIC)
               else (case H5Acreate_write file g name \<lparr>h5_dims = [], h5_data = H5_string str\<rparr> of
                       None \<Rightarrow> Inl (Error MSP_ERR_GENERIC)
                     | Some file' \<Rightarrow> Inr file')))"

definition tree_sequence_write_hdf5_provenance :: "tree_sequence \<Rightarrow> h5_file \<Rightarrow> h5_file result" where
  "tree_sequence_write_hdf5_provenance self file =
     bind_r (write_string_attribute file ''trees'' ''environment'' (trees_environment self)) (\<lambda>file.
     bind_r (write_string_attribute file ''trees'' ''parameters'' (trees_parameters self)) (\<lambda>file.
     if num_mutations self > 0 then
       bind_r (write_string_attribute file ''mutations'' ''environment'' (mutations_environment self)) (\<lambda>file.
       write_string_attribute file ''mutations'' ''parameters'' (mutations_parameters self))
     else Inr file))"

definition write_metadata_field :: "h5_file \<Rightarrow> string \<Rightarrow> h5_object \<Rightarrow> h5_file result" where
  "write_metadata_field file name obj =
     (case H5Acreate_write file ''/'' name obj of
        None \<Rightarrow> Inl (Error MSP_ERR_GENERIC)
      | Some file' \<Rightarrow> Inr file')"

definition tree_sequence_write_hdf5_metadata :: "platform \<Rightarrow> tree_sequence \<Rightarrow> h5_file \<Rightarrow> h5_file result" where
  "tree_sequence_write_hdf5_metadata p self file =
     bind_r (write_metadata_field file ''format_version''
               \<lparr>h5_dims = [2], h5_data = H5_uint32 [MSP_FILE_FORMAT_VERSION_MAJOR p,
                                                     MSP_FILE_FORMAT_VERSION_MINOR p]\<rparr>) (\<lambda>file.
     bind_r (write_metadata_field file ''sample_size''
               \<lparr>h5_dims = [], h5_data = H5_uint32 [sample_size self]\<rparr>) (\<lambda>file.
     write_metadata_field file ''num_loci''
               \<lparr>h5_dims = [], h5_data = H5_uint32 [num_loci self]\<rparr>))"

text \<open>
  \<^verbatim>\<open>tree_sequence_dump\<close>. \<^verbatim>\<open>H5Fcreate\<close> truncates the file; the result is the archive the
  file holds when the call returns 0.
\<close>

definition tree_sequence_dump :: "platform \<Rightarrow> tree_sequence \<Rightarrow> string \<Rightarrow> 32 word \<Rightarrow> h5_file result" where
  "tree_sequence_dump p self filename flags =
     (if \<not> writable p filename then Inl (Error MSP_ERR_HDF5)
      else
        bind_r (with_error MSP_ERR_HDF5 (tree_sequence_write_hdf5_metadata p self h5_empty)) (\<lambda>file.
        bind_r (with_error MSP_ERR_HDF5 (tree_sequence_write_hdf5_data self file flags)) (\<lambda>file.
        with_error MSP_ERR_HDF5 (tree_sequence_write_hdf5_provenance self file))))"

text \<open>The cell \<open>j\<close> of the sort buffer, for the columns \<open>vals\<close> and \<open>tms\<close>.\<close>

definition sort_entry :: "32 word list \<Rightarrow> real list \<Rightarrow> nat \<Rightarrow> index_sort" where
  "sort_entry vals tms j = \<lparr>is_value = vals ! j, is_index = word_of_nat j, is_time = tms ! j\<rparr>"

text \<open>
  What the two index columns of a tree sequence are to be: each lists the record indices
  \<open>0, \<dots>, num_records - 1\<close> once; \<^verbatim>\<open>insertion_order\<close> ascends in \<open>left\<close> and, among equal
  \<open>left\<close>, in \<open>time\<close>; \<^verbatim>\<open>removal_order\<close> ascends in \<open>right\<close> and, among equal \<open>right\<close>,
  descends in \<open>time\<close>.
\<close>

definition indexes_sorted :: "tree_sequence \<Rightarrow> bool" where
  "indexes_sorted ts =
     (mset (map unat (trees_insertion_order ts)) = mset [0..<num_records ts] \<and>
      sorted_wrt (\<lambda>a b. trees_left ts ! a < trees_left ts ! b \<or>
                   (trees_left ts ! a = trees_left ts ! b \<and> trees_time ts ! a \<le> trees_time ts ! b))
        (map unat (trees_insertion_order ts)) \<and>
      mset (map unat (trees_removal_order ts)) = mset [0..<num_records ts] \<and>
      sorted_wrt (\<lambda>a b. trees_right ts ! a < trees_right ts ! b \<or>
                   (trees_right ts ! a = trees_right ts ! b \<and> trees_time ts ! b \<le> trees_time ts ! a))
        (map unat (trees_removal_order ts)))"

text \<open>
  The archive \<^verbatim>\<open>tree_sequence_dump\<close> writes for a tree sequence with at least one record,
  in closed form.
\<close>

definition string_object :: "string \<Rightarrow> h5_object" where
  "string_object s = \<lparr>h5_dims = [], h5_data = H5_string s\<rparr>"

definition archive_of :: "platform \<Rightarrow> tree_sequence \<Rightarrow> h5_file" where
  "archive_of p ts =
     (let n = num_records ts; m = num_mutations ts in
      \<lparr>h5_groups = (if m = 0 then [''/trees''] else [''/mutations'', ''/trees'']),
       h5_datasets = (\<lambda>name.
          if name = ''/trees/left'' then Some \<lparr>h5_dims = [n], h5_data = H5_uint32 (take n (trees_left ts))\<rparr>
          else if name = ''/trees/right'' then Some \<lparr>h5_dims = [n], h5_data = H5_uint32 (take n (trees_right ts))\<rparr>
          else if name = ''/trees/node'' then Some \<lparr>h5_dims = [n], h5_data = H5_uint32 (take n (trees_node ts))\<rparr>
          else if name = ''/trees/children'' then Some \<lparr>h5_dims = [n, 2], h5_data = H5_uint32 (take (2 * n) (trees_children ts))\<rparr>
          else if name = ''/trees/time'' then Some \<lparr>h5_dims = [n], h5_data = H5_double (take n (trees_time ts))\<rparr>
          else if m > 0 \<and> name = ''/mutations/node'' then Some \<lparr>h5_dims = [m], h5_data = H5_uint32 (take m (mutations_node ts))\<rparr>
          else if m > 0 \<and> name = ''/mutations/position'' then Some \<lparr>h5_dims = [m], h5_data = H5_double (take m (mutations_position ts))\<rparr>
          else None),
       h5_attributes = (\<lambda>key.
          if key = (''/'', ''format_version'') then Some \<lparr>h5_dims = [2], h5_data = H5_uint32 [MSP_FILE_FORMAT_VERSION_MAJOR p, MSP_FILE_FORMAT_VERSION_MINOR p]\<rparr>
          else if key = (''/'', ''sample_size'') then Some \<lparr>h5_dims = [], h5_data = H5_uint32 [sample_size ts]\<rparr>
          else if key = (''/'', ''num_loci'') then Some \<lparr>h5_dims = [], h5_data = H5_uint32 [num_loci ts]\<rparr>
          else if key = (''/trees'', ''environment'') then map_option string_object (trees_environment ts)
          else if key = (''/trees'', ''parameters'') then map_option string_object (trees_parameters ts)
          else if m > 0 \<and> key = (''/mutations'', ''environment'') then map_option string_object (mutations_environment ts)
          else if m > 0 \<and> key = (''/mutations'', ''parameters'') then map_option string_object (mutations_parameters ts)
          else None)\<rparr>)"

text \<open>
  What \<^verbatim>\<open>tree_sequence_create\<close> and \<^verbatim>\<open>tree_sequence_load\<close> establish and
  \<^verbatim>\<open>tree_sequence_set_mutations\<close> keeps: there is a record, no column has more cells than
  its block, the two index columns and \<^verbatim>\<open>num_nodes\<close> are what \<^verbatim>\<open>tree_sequence_make_indexes\<close>
  computes from the record columns, and a tree sequence without mutations has no
  mutation metadata.
\<close>

definition tree_sequence_built :: "tree_sequence \<Rightarrow> bool" where
  "tree_sequence_built ts =
     (0 < num_records ts \<and>
      length (trees_left ts) \<le> num_records ts \<and>
      length (trees_right ts) \<le> num_records ts \<and>
      length (trees_node ts) \<le> num_records ts \<and>
      length (trees_children ts) \<le> 2 * num_records ts \<and>
      length (trees_time ts) \<le> num_records ts \<and>
      length (mutations_node ts) \<le> num_mutations ts \<and>
      length (mutations_position ts) \<le> num_mutations ts \<and>
      trees_insertion_order ts =
        map is_index (qsort cmp_index_sort
          (map (sort_entry (trees_left ts) (trees_time ts)) [0..<num_records ts])) \<and>
      trees_removal_order ts =
        map is_index (qsort cmp_index_sort
          (map (sort_entry (trees_right ts) (map uminus (trees_time ts))) [0..<num_records ts])) \<and>
      num_nodes ts = trees_node ts ! (num_records ts - 1) \<and>
      (num_mutations ts = 0 \<longrightarrow>
         mutations_environment ts = None \<and> mutations_parameters ts = None))"

section \<open>Sparse tree (\<^verbatim>\<open>tree_sequence.c\<close>)\<close>

text \<open>
  \<^verbatim>\<open>sparse_tree_t\<close>: the current marginal tree as arrays indexed by node, with 0 for
  "no node". \<^verbatim>\<open>children\<close> holds the two children of node \<open>u\<close> at \<open>2 * u\<close> and
  \<open>2 * u + 1\<close>. The field \<open>st_count_leaves\<close> is the test \<^verbatim>\<open>flags & MSP_COUNT_LEAVES\<close>. The two
  stacks are scratch blocks of \<open>sample_size + 1\<close> cells; a function that uses one is
  modelled with the list of the cells it has pushed.
\<close>

record sparse_tree =
  st_sample_size :: "32 word"
  st_num_nodes :: "32 word"
  st_count_leaves :: bool
  st_root :: "32 word"
  st_left :: "32 word"
  st_right :: "32 word"
  st_parent :: "32 word list"
  st_children :: "32 word list"
  st_time :: "real list"
  st_num_leaves :: "32 word list"
  st_num_tracked_leaves :: "32 word list"
  st_max_mutations :: nat
  st_mutations :: "mutation list"

text \<open>
  The two \<^verbatim>\<open>while (j != 0)\<close> loops of \<^verbatim>\<open>sparse_tree_get_mrca\<close>; \<open>s\<close> holds the cells
  \<open>s[0], \<dots>, s[l - 1]\<close> pushed so far. The assertion bounds the number of turns.
\<close>

function mrca_ascend :: "sparse_tree \<Rightarrow> 32 word \<Rightarrow> 32 word list \<Rightarrow> 32 word list result" where
  "mrca_ascend self j s =
     (if j = 0 then Inr s
      else if \<not> int (length s) < sint (st_sample_size self) then Inl Assertion_failed
      else bind_r (rd (st_parent self) (unat j)) (\<lambda>j'. mrca_ascend self j' (s @ [j])))"
  by pat_completeness auto
termination
  by (relation "measure (\<lambda>(self, j, s). nat (sint (st_sample_size self)) - length s)") auto

text \<open>
  The \<^verbatim>\<open>do \<dots> while\<close> loop: \<open>w\<close> is read at \<open>l1\<close>, both indices step down, and the
  loop goes on while neither index is negative and the two cells agree.
\<close>

function mrca_descend :: "32 word list \<Rightarrow> 32 word list \<Rightarrow> nat \<Rightarrow> nat \<Rightarrow> 32 word result" where
  "mrca_descend s1 s2 l1 l2 =
     bind_r (rd s1 l1) (\<lambda>w.
       if 1 \<le> l1 \<and> 1 \<le> l2 then
         bind_r (rd s1 (l1 - 1)) (\<lambda>a.
         bind_r (rd s2 (l2 - 1)) (\<lambda>b.
           if a = b then mrca_descend s1 s2 (l1 - 1) (l2 - 1) else Inr w))
       else Inr w)"
  by pat_completeness auto
termination
  by (relation "measure (\<lambda>(s1, s2, l1, l2). l1)") auto

definition sparse_tree_get_mrca :: "sparse_tree \<Rightarrow> 32 word \<Rightarrow> 32 word \<Rightarrow> 32 word result" where
  "sparse_tree_get_mrca self u v =
     (if u = 0 \<or> v = 0 \<or> u > st_num_nodes self \<or> v > st_num_nodes self
      then Inl (Error MSP_ERR_BAD_PARAM_VALUE)
      else
        bind_r (mrca_ascend self u []) (\<lambda>s1.
        bind_r (mrca_ascend self v []) (\<lambda>s2.
        mrca_descend (s1 @ [0]) (s2 @ [0]) (length s1) (length s2))))"

text \<open>
  Following parent links: \<open>path_up parent u p\<close> says that \<open>p\<close> lists \<open>u\<close>, its parent, the
  parent of that, and so on up to a node whose parent is 0. The nodes of \<open>p\<close> are the
  ancestors of \<open>u\<close> (with \<open>u\<close> itself), the last one is the root of its tree, and a
  node is the deeper the longer its path is.
\<close>

inductive path_up :: "32 word list \<Rightarrow> 32 word \<Rightarrow> 32 word list \<Rightarrow> bool" for parent where
  top: "path_up parent 0 []"
| step: "j \<noteq> 0 \<Longrightarrow> unat j < length parent \<Longrightarrow> path_up parent (parent ! unat j) p
         \<Longrightarrow> path_up parent j (j # p)"

code_pred path_up .


section \<open>Tree diff iterator (\<^verbatim>\<open>tree_sequence.c\<close>)\<close>

text \<open>
  \<^verbatim>\<open>node_record_t\<close> without its \<^verbatim>\<open>next\<close> pointer: the two chains \<^verbatim>\<open>nodes_out\<close> and
  \<^verbatim>\<open>nodes_in\<close> that \<^verbatim>\<open>tree_diff_iterator_next\<close> links through that pointer are modelled by
  lists, in the order of the chain.
\<close>

record node_record =
  nr_time :: real
  nr_node :: "32 word"
  nr_children :: "32 word \<times> 32 word"

text \<open>
  \<^verbatim>\<open>tree_diff_iterator_t\<close>. The two indices only count up from 0 and are compared with
  \<^verbatim>\<open>num_records\<close> or used as array indices, so they are natural numbers here. The block
  \<^verbatim>\<open>node_records\<close> of \<open>2 * sample_size\<close> cells is filled anew by each call; the model keeps
  the number of cells used, which the assertions of the source bound.
\<close>

record tree_diff_iterator =
  di_sample_size :: "32 word"
  di_num_nodes :: "32 word"
  di_num_records :: nat
  di_tree_sequence :: tree_sequence
  di_insertion_index :: nat
  di_removal_index :: nat
  di_tree_left :: "32 word"

text \<open>The size of a \<^verbatim>\<open>node_record_t\<close> (a double, three \<^verbatim>\<open>uint32_t\<close> and a pointer).\<close>

definition sizeof_node_record_t :: nat where
  "sizeof_node_record_t = 32"

definition tree_diff_iterator_alloc :: "platform \<Rightarrow> tree_sequence \<Rightarrow> tree_diff_iterator result" where
  "tree_diff_iterator_alloc p tree_sequence =
     (let self = \<lparr>di_sample_size = sample_size tree_sequence,
                  di_num_nodes = num_nodes tree_sequence,
                  di_num_records = num_records tree_sequence,
                  di_tree_sequence = tree_sequence,
                  di_insertion_index = 0, di_removal_index = 0, di_tree_left = 0\<rparr>
      in if \<not> malloc_ok p (unat (2 * di_sample_size self) * sizeof_node_record_t)
         then Inl (Error MSP_ERR_NO_MEMORY)
         else Inr self)"

text \<open>The cell \<open>w\<close> that both loops fill from record \<open>k\<close>.\<close>

definition fill_node_record :: "tree_sequence \<Rightarrow> 32 word \<Rightarrow> node_record result" where
  "fill_node_record s k =
     bind_r (rd (trees_time s) (unat k)) (\<lambda>t.
     bind_r (rd (trees_node s) (unat k)) (\<lambda>n.
     bind_r (rd (trees_children s) (unat (2 * k))) (\<lambda>c0.
     bind_r (rd (trees_children s) (unat (2 * k + 1))) (\<lambda>c1.
     Inr \<lparr>nr_time = t, nr_node = n, nr_children = (c0, c1)\<rparr>))))"

text \<open>
  The loop that removes the stale records. \<open>next_node_record\<close> counts the cells of
  \<^verbatim>\<open>node_records\<close> in use and \<open>out\<close> is the chain from \<^verbatim>\<open>out_head\<close> to \<^verbatim>\<open>out_tail\<close>.
\<close>

function diff_remove ::
  "tree_diff_iterator \<Rightarrow> nat \<Rightarrow> node_record list
     \<Rightarrow> (tree_diff_iterator \<times> nat \<times> node_record list) result"
where
  "diff_remove self next_node_record out =
     bind_r (rd (trees_removal_order (di_tree_sequence self)) (di_removal_index self)) (\<lambda>k.
     bind_r (rd (trees_right (di_tree_sequence self)) (unat k)) (\<lambda>r.
       if r = di_tree_left self then
         if \<not> next_node_record < unat (2 * di_sample_size self) then Inl Assertion_failed
         else
           bind_r (fill_node_record (di_tree_sequence self) k) (\<lambda>w.
             diff_remove (self\<lparr>di_removal_index := di_removal_index self + 1\<rparr>)
               (next_node_record + 1) (out @ [w]))
       else Inr (self, next_node_record, out)))"
  by pat_completeness auto
termination
  by (relation "measure (\<lambda>(self, n, out). unat (2 * di_sample_size self) - n)") auto

text \<open>The loop that inserts the new records; \<open>inl\<close> is the chain from \<^verbatim>\<open>in_head\<close>.\<close>

function diff_insert ::
  "tree_diff_iterator \<Rightarrow> nat \<Rightarrow> node_record list
     \<Rightarrow> (tree_diff_iterator \<times> nat \<times> node_record list) result"
where
  "diff_insert self next_node_record inl =
     (if di_insertion_index self < di_num_records self then
        bind_r (rd (trees_insertion_order (di_tree_sequence self)) (di_insertion_index self)) (\<lambda>k.
        bind_r (rd (trees_left (di_tree_sequence self)) (unat k)) (\<lambda>l.
          if l = di_tree_left self then
            if \<not> next_node_record < unat (2 * di_sample_size self) then Inl Assertion_failed
            else
              bind_r (fill_node_record (di_tree_sequence self) k) (\<lambda>w.
                diff_insert (self\<lparr>di_insertion_index := di_insertion_index self + 1\<rparr>)
                  (next_node_record + 1) (inl @ [w]))
          else Inr (self, next_node_record, inl)))
      else Inr (self, next_node_record, inl))"
  by pat_completeness auto
termination
  by (relation "measure (\<lambda>(self, n, inl). unat (2 * di_sample_size self) - n)") auto

text \<open>
  \<^verbatim>\<open>tree_diff_iterator_next\<close> returns \<open>((ret, length, nodes_out, nodes_in), self)\<close>.
\<close>

definition tree_diff_iterator_next ::
  "tree_diff_iterator
     \<Rightarrow> ((int \<times> 32 word \<times> node_record list \<times> node_record list) \<times> tree_diff_iterator) result"
where
  "tree_diff_iterator_next self =
     (let last_left = di_tree_left self; s = di_tree_sequence self in
      if di_insertion_index self < di_num_records self then
        bind_r (diff_remove self 0 []) (\<lambda>(self, next_node_record, out).
        bind_r (diff_insert self next_node_record []) (\<lambda>(self, next_node_record, inl).
        bind_r (rd (trees_removal_order s) (di_removal_index self)) (\<lambda>k.
        bind_r (rd (trees_right s) (unat k)) (\<lambda>r.
          let self = self\<lparr>di_tree_left := r\<rparr>
          in Inr ((1, di_tree_left self - last_left, out, inl), self)))))
      else Inr ((0, di_tree_left self - last_left, [], []), self))"

text \<open>The iterator after \<open>n\<close> calls of \<^verbatim>\<open>tree_diff_iterator_next\<close>.\<close>

fun tree_diff_iterator_calls :: "tree_diff_iterator \<Rightarrow> nat \<Rightarrow> tree_diff_iterator result" where
  "tree_diff_iterator_calls self 0 = Inr self"
| "tree_diff_iterator_calls self (Suc n) =
     bind_r (tree_diff_iterator_calls self n) (\<lambda>self. map_sum id snd (tree_diff_iterator_next self))"

text \<open>
  Record \<open>k\<close> as a \<^verbatim>\<open>node_record_t\<close>, and the records a tree sequence must hold for the
  iterator to yield its trees: full columns, fewer than \<open>2\<^sup>3\<^sup>1\<close> records, sorted index
  columns, every record with \<open>left < right\<close>, every \<open>left\<close> either 0 or the \<open>right\<close> of some
  record, and at no coordinate more records ending and starting than the block
  \<^verbatim>\<open>node_records\<close> has cells.
\<close>

definition node_record_at :: "tree_sequence \<Rightarrow> 32 word \<Rightarrow> node_record" where
  "node_record_at s k =
     \<lparr>nr_time = trees_time s ! unat k, nr_node = trees_node s ! unat k,
      nr_children = (trees_children s ! (2 * unat k), trees_children s ! (2 * unat k + 1))\<rparr>"

definition records_contiguous :: "tree_sequence \<Rightarrow> bool" where
  "records_contiguous ts =
     (num_records ts < 2 ^ 31 \<and>
      length (trees_left ts) = num_records ts \<and>
      length (trees_right ts) = num_records ts \<and>
      length (trees_node ts) = num_records ts \<and>
      length (trees_time ts) = num_records ts \<and>
      length (trees_children ts) = 2 * num_records ts \<and>
      indexes_sorted ts \<and>
      (\<forall>(l, r) \<in> set (zip (trees_left ts) (trees_right ts)). l < r) \<and>
      (\<forall>l \<in> set (trees_left ts). l = 0 \<or> l \<in> set (trees_right ts)) \<and>
      (\<forall>x \<in> set (0 # trees_right ts).
         length (filter (\<lambda>r. r = x) (trees_right ts)) + length (filter (\<lambda>l. l = x) (trees_left ts))
           \<le> unat (2 * sample_size ts)))"

text \<open>
  The same without the bound on the records that end or start at one coordinate, which
  only the block \<^verbatim>\<open>node_records\<close> needs.
\<close>

definition records_aligned :: "tree_sequence \<Rightarrow> bool" where
  "records_aligned ts =
     (num_records ts < 2 ^ 31 \<and>
      length (trees_left ts) = num_records ts \<and>
      length (trees_right ts) = num_records ts \<and>
      length (trees_node ts) = num_records ts \<and>
      length (trees_time ts) = num_records ts \<and>
      length (trees_children ts) = 2 * num_records ts \<and>
      indexes_sorted ts \<and>
      (\<forall>(l, r) \<in> set (zip (trees_left ts) (trees_right ts)). l < r) \<and>
      (\<forall>l \<in> set (trees_left ts). l = 0 \<or> l \<in> set (trees_right ts)))"

text \<open>
  The states of an iterator over \<open>ts\<close> between two calls: the records before
  \<^verbatim>\<open>removal_index\<close> in \<^verbatim>\<open>removal_order\<close> end, and those before \<^verbatim>\<open>insertion_index\<close> in
  \<^verbatim>\<open>insertion_order\<close> start, to the left of \<^verbatim>\<open>tree_left\<close>, and no other record does.
\<close>

definition diff_state :: "tree_sequence \<Rightarrow> tree_diff_iterator \<Rightarrow> bool" where
  "diff_state ts self =
     (di_tree_sequence self = ts \<and> di_num_records self = num_records ts \<and>
      di_sample_size self = sample_size ts \<and>
      di_insertion_index self \<le> num_records ts \<and> di_removal_index self \<le> num_records ts \<and>
      (di_tree_left self = 0 \<or> di_tree_left self \<in> set (trees_right ts)) \<and>
      (\<forall>j<di_removal_index self.
         trees_right ts ! unat (trees_removal_order ts ! j) < di_tree_left self) \<and>
      (\<forall>j. di_removal_index self \<le> j \<and> j < num_records ts \<longrightarrow>
         di_tree_left self \<le> trees_right ts ! unat (trees_removal_order ts ! j)) \<and>
      (\<forall>j<di_insertion_index self.
         trees_left ts ! unat (trees_insertion_order ts ! j) < di_tree_left self) \<and>
      (\<forall>j. di_insertion_index self \<le> j \<and> j < num_records ts \<longrightarrow>
         di_tree_left self \<le> trees_left ts ! unat (trees_insertion_order ts ! j)))"

section \<open>Sparse tree iterator (\<^verbatim>\<open>tree_sequence.c\<close>)\<close>

text \<open>
  The five arrays of a sparse tree are written cell by cell, so each is a list of as many
  cells as its block has. What a block holds when \<^verbatim>\<open>malloc\<close> returns it is not fixed by the
  program: it is a parameter of \<^verbatim>\<open>sparse_tree_alloc\<close>, one function from cell number to
  content for each block.
\<close>

record fresh_memory =
  fresh_parent :: "nat \<Rightarrow> 32 word"
  fresh_time :: "nat \<Rightarrow> real"
  fresh_children :: "nat \<Rightarrow> 32 word"
  fresh_num_leaves :: "nat \<Rightarrow> 32 word"
  fresh_num_tracked_leaves :: "nat \<Rightarrow> 32 word"

text \<open>The size of a \<^verbatim>\<open>mutation_t\<close> (a double and a \<^verbatim>\<open>uint32_t\<close>).\<close>

definition sizeof_mutation_t :: nat where
  "sizeof_mutation_t = 16"

text \<open>
  \<^verbatim>\<open>sparse_tree_alloc\<close>, with \<open>ssize\<close> for \<^verbatim>\<open>sample_size\<close>, \<open>nnodes\<close> for \<^verbatim>\<open>num_nodes\<close> and
  \<open>count_leaves\<close> for the test \<^verbatim>\<open>flags & MSP_COUNT_LEAVES\<close>. The sizes
  \<^verbatim>\<open>num_nodes + 1\<close>, \<^verbatim>\<open>2 * (num_nodes + 1)\<close> and \<^verbatim>\<open>sample_size + 1\<close> are computed in
  \<^verbatim>\<open>uint32_t\<close>. The loop over the samples writes \<^verbatim>\<open>num_leaves[j]\<close> for \<open>j\<close> from 1 to
  \<^verbatim>\<open>sample_size\<close>, outside the block as soon as \<open>j\<close> exceeds \<^verbatim>\<open>num_nodes\<close>.
\<close>

definition sparse_tree_alloc ::
  "platform \<Rightarrow> fresh_memory \<Rightarrow> 32 word \<Rightarrow> 32 word \<Rightarrow> nat \<Rightarrow> 32 word list \<Rightarrow> bool
     \<Rightarrow> sparse_tree result"
where
  "sparse_tree_alloc p fresh ssize nnodes max_mutations tracked_leaves count_leaves =
     (if nnodes = 0 \<or> ssize = 0 then Inl (Error MSP_ERR_BAD_PARAM_VALUE)
      else
        let N = unat (nnodes + 1) in
        if \<not> (malloc_ok p (N * 4) \<and> malloc_ok p (N * 8) \<and>
                malloc_ok p (unat (2 * (nnodes + 1)) * 4))
        then Inl (Error MSP_ERR_NO_MEMORY)
        else if \<not> malloc_ok p (unat (ssize + 1) * 4) then Inl (Error MSP_ERR_NO_MEMORY)
        else if \<not> malloc_ok p (max_mutations * sizeof_mutation_t) then Inl (Error MSP_ERR_NO_MEMORY)
        else
          let self = \<lparr>st_sample_size = ssize, st_num_nodes = nnodes,
                       st_count_leaves = count_leaves, st_root = 0, st_left = 0, st_right = 0,
                       st_parent = map (fresh_parent fresh) [0..<N],
                       st_children = map (fresh_children fresh) [0..<unat (2 * (nnodes + 1))],
                       st_time = map (fresh_time fresh) [0..<N],
                       st_num_leaves = [], st_num_tracked_leaves = [],
                       st_max_mutations = max_mutations, st_mutations = []\<rparr>
          in if count_leaves then
               if \<not> malloc_ok p (N * 4) then Inl (Error MSP_ERR_NO_MEMORY)
               else
                 bind_r (wr (map (fresh_num_leaves fresh) [0..<N]) 0 0) (\<lambda>nl.
                 bind_r (wr (map (fresh_num_tracked_leaves fresh) [0..<N]) 0 0) (\<lambda>ntl.
                 bind_r (fold_r (\<lambda>j (nl, ntl).
                           bind_r (wr nl j 1) (\<lambda>nl.
                           bind_r (wr ntl j 0) (\<lambda>ntl. Inr (nl, ntl))))
                         [1..<unat ssize + 1] (nl, ntl)) (\<lambda>(nl, ntl).
                 bind_r (fold_r (\<lambda>u ntl.
                           if u = 0 \<or> u > ssize then Inl (Error MSP_ERR_BAD_PARAM_VALUE)
                           else wr ntl (unat u) 1)
                         tracked_leaves ntl) (\<lambda>ntl.
                 Inr (self\<lparr>st_num_leaves := nl, st_num_tracked_leaves := ntl\<rparr>)))))
             else Inr self)"

text \<open>
  \<^verbatim>\<open>sparse_tree_clear\<close>. \<open>N\<close> is \<^verbatim>\<open>num_nodes + 1\<close> computed in \<^verbatim>\<open>uint32_t\<close>; the sizes of the
  \<^verbatim>\<open>memset\<close> calls are computed in \<^verbatim>\<open>size_t\<close>, where \<open>N - n - 1\<close> wraps around when
  \<open>N < n + 1\<close>. A \<^verbatim>\<open>memset\<close> over more cells than the block has is outside the block.
\<close>

definition sparse_tree_clear :: "sparse_tree \<Rightarrow> sparse_tree result" where
  "sparse_tree_clear self =
     (let N = unat (st_num_nodes self + 1); n = unat (st_sample_size self) in
      if length (st_parent self) < N \<or> length (st_time self) < N \<or>
         length (st_children self) < 2 * N
      then Inl Out_of_range
      else
        let self = self\<lparr>st_left := 0, st_right := 0, st_root := 0,
                         st_parent := replicate N 0 @ drop N (st_parent self),
                         st_time := replicate N 0 @ drop N (st_time self),
                         st_children := replicate (2 * N) 0 @ drop (2 * N) (st_children self)\<rparr>
        in if st_count_leaves self then
             if N < n + 1 \<or> length (st_num_leaves self) < N \<or>
                length (st_num_tracked_leaves self) < N
             then Inl Out_of_range
             else Inr (self\<lparr>st_num_leaves :=
                               take (n + 1) (st_num_leaves self) @ replicate (N - n - 1) 0 @
                               drop N (st_num_leaves self),
                             st_num_tracked_leaves :=
                               take (n + 1) (st_num_tracked_leaves self) @ replicate (N - n - 1) 0 @
                               drop N (st_num_tracked_leaves self)\<rparr>)
           else Inr self)"

text \<open>
  \<^verbatim>\<open>sparse_tree_get_num_leaves_by_traversal\<close>. The stack is \<^verbatim>\<open>stack1\<close>, a block of
  \<^verbatim>\<open>sample_size + 1\<close> cells; the model lists the cells \<open>stack[stack_top], \<dots>, stack[0]\<close>, the
  top first. The loop ends when the stack is empty, and on some arrays it never does: the
  result is \<open>None\<close> then.
\<close>

partial_function (option) traversal_loop ::
  "sparse_tree \<Rightarrow> 32 word list \<Rightarrow> 32 word \<Rightarrow> 32 word result option"
where
  "traversal_loop self stack cnt =
     (case stack of
        [] \<Rightarrow> Some (Inr cnt)
      | v # rest \<Rightarrow>
          if 1 \<le> v \<and> v \<le> st_sample_size self then traversal_loop self rest (cnt + 1)
          else if \<not> unat (2 * v) < length (st_children self) then Some (Inl Out_of_range)
          else if st_children self ! unat (2 * v) \<noteq> 0 then
            if \<not> unat (2 * v + 1) < length (st_children self) \<or>
               \<not> length rest + 2 \<le> unat (st_sample_size self + 1)
            then Some (Inl Out_of_range)
            else traversal_loop self
                   (st_children self ! unat (2 * v + 1) # st_children self ! unat (2 * v) # rest)
                   cnt
          else traversal_loop self rest cnt)"

declare traversal_loop.simps [code]

definition sparse_tree_get_num_leaves_by_traversal ::
  "sparse_tree \<Rightarrow> 32 word \<Rightarrow> 32 word result option"
where
  "sparse_tree_get_num_leaves_by_traversal self u =
     (if \<not> 1 \<le> unat (st_sample_size self + 1) then Some (Inl Out_of_range)
      else traversal_loop self [u] 0)"

text \<open>
  \<^verbatim>\<open>sparse_tree_iterator_t\<close>. The iterator points to the tree it moves; the model keeps the
  tree in the iterator, and the caller reads it there after each call.
\<close>

record sparse_tree_iterator =
  it_sample_size :: "32 word"
  it_num_nodes :: "32 word"
  it_num_records :: nat
  it_tree_sequence :: tree_sequence
  it_tree :: sparse_tree
  it_insertion_index :: nat
  it_removal_index :: nat
  it_mutation_index :: nat

definition sparse_tree_iterator_alloc ::
  "tree_sequence \<Rightarrow> sparse_tree \<Rightarrow> sparse_tree_iterator result"
where
  "sparse_tree_iterator_alloc tree_sequence tree =
     (if num_nodes tree_sequence \<noteq> st_num_nodes tree \<or>
         sample_size tree_sequence \<noteq> st_sample_size tree \<or>
         num_mutations tree_sequence \<noteq> st_max_mutations tree
      then Inl (Error MSP_ERR_BAD_PARAM_VALUE)
      else
        bind_r (sparse_tree_clear (tree\<lparr>st_sample_size := sample_size tree_sequence\<rparr>)) (\<lambda>tree.
        Inr \<lparr>it_sample_size = sample_size tree_sequence,
             it_num_nodes = num_nodes tree_sequence,
             it_num_records = num_records tree_sequence,
             it_tree_sequence = tree_sequence, it_tree = tree,
             it_insertion_index = 0, it_removal_index = 0, it_mutation_index = 0\<rparr>))"

text \<open>
  The two loops that carry a change of leaf counts from \<open>v\<close> up the parent links. They do
  not change \<^verbatim>\<open>parent\<close>, so the nodes they visit are fixed by \<open>v\<close>; if the loop has not come
  to 0 after as many turns as \<^verbatim>\<open>parent\<close> has cells, a node has come twice and the loop never
  ends. \<open>turns\<close> counts the turns made.
\<close>

function propagate_loss ::
  "sparse_tree \<Rightarrow> 32 word \<Rightarrow> 32 word \<Rightarrow> 32 word \<Rightarrow> nat \<Rightarrow> sparse_tree result"
where
  "propagate_loss t all_leaves_diff tracked_leaves_diff v turns =
     (if v = 0 then Inr t
      else if \<not> turns < length (st_parent t) then Inl Loops_forever
      else
        bind_r (rd (st_num_leaves t) (unat v)) (\<lambda>a.
        bind_r (wr (st_num_leaves t) (unat v) (a - all_leaves_diff)) (\<lambda>nl.
        bind_r (rd (st_num_tracked_leaves t) (unat v)) (\<lambda>b.
        bind_r (wr (st_num_tracked_leaves t) (unat v) (b - tracked_leaves_diff)) (\<lambda>ntl.
        bind_r (rd (st_parent t) (unat v)) (\<lambda>v'.
        propagate_loss (t\<lparr>st_num_leaves := nl, st_num_tracked_leaves := ntl\<rparr>)
          all_leaves_diff tracked_leaves_diff v' (turns + 1)))))))"
  by pat_completeness auto
termination
  by (relation "measure (\<lambda>(t, d, e, v, turns). length (st_parent t) - turns)") auto

function propagate_gain ::
  "sparse_tree \<Rightarrow> 32 word \<Rightarrow> 32 word \<Rightarrow> 32 word \<Rightarrow> nat \<Rightarrow> sparse_tree result"
where
  "propagate_gain t all_leaves_diff tracked_leaves_diff v turns =
     (if v = 0 then Inr t
      else if \<not> turns < length (st_parent t) then Inl Loops_forever
      else
        bind_r (rd (st_num_leaves t) (unat v)) (\<lambda>a.
        bind_r (wr (st_num_leaves t) (unat v) (a + all_leaves_diff)) (\<lambda>nl.
        bind_r (rd (st_num_tracked_leaves t) (unat v)) (\<lambda>b.
        bind_r (wr (st_num_tracked_leaves t) (unat v) (b + tracked_leaves_diff)) (\<lambda>ntl.
        bind_r (rd (st_parent t) (unat v)) (\<lambda>v'.
        propagate_gain (t\<lparr>st_num_leaves := nl, st_num_tracked_leaves := ntl\<rparr>)
          all_leaves_diff tracked_leaves_diff v' (turns + 1)))))))"
  by pat_completeness auto
termination
  by (relation "measure (\<lambda>(t, d, e, v, turns). length (st_parent t) - turns)") auto

text \<open>
  The body of the loop that removes the stale records, for record \<open>k\<close>: the node \<open>u\<close> of
  the record loses its two children \<open>c[0]\<close> and \<open>c[1]\<close>.
\<close>

definition remove_record :: "tree_sequence \<Rightarrow> 32 word \<Rightarrow> sparse_tree \<Rightarrow> sparse_tree result" where
  "remove_record s k t =
     bind_r (rd (trees_node s) (unat k)) (\<lambda>u.
     bind_r (rd (trees_children s) (unat (2 * k))) (\<lambda>c0.
     bind_r (rd (trees_children s) (unat (2 * k + 1))) (\<lambda>c1.
     bind_r (wr (st_parent t) (unat c0) 0) (\<lambda>parent.
     bind_r (wr (st_children t) (unat (2 * u)) 0) (\<lambda>children.
     bind_r (wr parent (unat c1) 0) (\<lambda>parent.
     bind_r (wr children (unat (2 * u + 1)) 0) (\<lambda>children.
     bind_r (wr (st_time t) (unat u) 0) (\<lambda>tm.
     let t = t\<lparr>st_parent := parent, st_children := children, st_time := tm,
                st_root := (if u = st_root t then max c0 c1 else st_root t)\<rparr>
     in if st_count_leaves t then
          bind_r (rd (st_num_leaves t) (unat u)) (\<lambda>all_leaves_diff.
          bind_r (rd (st_num_tracked_leaves t) (unat u)) (\<lambda>tracked_leaves_diff.
          propagate_loss t all_leaves_diff tracked_leaves_diff u 0))
        else Inr t))))))))"

text \<open>The body of the loop that inserts the new records, for record \<open>k\<close>.\<close>

definition insert_record :: "tree_sequence \<Rightarrow> 32 word \<Rightarrow> sparse_tree \<Rightarrow> sparse_tree result" where
  "insert_record s k t =
     bind_r (rd (trees_node s) (unat k)) (\<lambda>u.
     bind_r (rd (trees_children s) (unat (2 * k))) (\<lambda>c0.
     bind_r (rd (trees_children s) (unat (2 * k + 1))) (\<lambda>c1.
     bind_r (wr (st_parent t) (unat c0) u) (\<lambda>parent.
     bind_r (wr (st_children t) (unat (2 * u)) c0) (\<lambda>children.
     bind_r (wr parent (unat c1) u) (\<lambda>parent.
     bind_r (wr children (unat (2 * u + 1)) c1) (\<lambda>children.
     bind_r (rd (trees_time s) (unat k)) (\<lambda>tk.
     bind_r (wr (st_time t) (unat u) tk) (\<lambda>tm.
     let t = t\<lparr>st_parent := parent, st_children := children, st_time := tm,
                st_root := (if u > st_root t then u else st_root t)\<rparr>
     in if st_count_leaves t then
          bind_r (rd (st_num_leaves t) (unat c0)) (\<lambda>a0.
          bind_r (rd (st_num_leaves t) (unat c1)) (\<lambda>a1.
          bind_r (rd (st_num_tracked_leaves t) (unat c0)) (\<lambda>b0.
          bind_r (rd (st_num_tracked_leaves t) (unat c1)) (\<lambda>b1.
          propagate_gain t (a0 + a1) (b0 + b1) u 0))))
        else Inr t)))))))))"

function remove_loop :: "sparse_tree_iterator \<Rightarrow> sparse_tree_iterator result" where
  "remove_loop self =
     bind_r (rd (trees_removal_order (it_tree_sequence self)) (it_removal_index self)) (\<lambda>k.
     bind_r (rd (trees_right (it_tree_sequence self)) (unat k)) (\<lambda>r.
       if r = st_right (it_tree self) then
         bind_r (remove_record (it_tree_sequence self) k (it_tree self)) (\<lambda>t.
         remove_loop (self\<lparr>it_tree := t, it_removal_index := it_removal_index self + 1\<rparr>))
       else Inr self))"
  by pat_completeness auto
termination
  by (relation "measure (\<lambda>self. length (trees_removal_order (it_tree_sequence self))
                                  - it_removal_index self)")
     (auto simp: rd_def split: if_splits)

function insert_loop :: "sparse_tree_iterator \<Rightarrow> sparse_tree_iterator result" where
  "insert_loop self =
     (if it_insertion_index self < it_num_records self then
        bind_r (rd (trees_insertion_order (it_tree_sequence self)) (it_insertion_index self)) (\<lambda>k.
        bind_r (rd (trees_left (it_tree_sequence self)) (unat k)) (\<lambda>l.
          if l = st_left (it_tree self) then
            bind_r (insert_record (it_tree_sequence self) k (it_tree self)) (\<lambda>t.
            insert_loop (self\<lparr>it_tree := t, it_insertion_index := it_insertion_index self + 1\<rparr>))
          else Inr self))
      else Inr self)"
  by pat_completeness auto
termination
  by (relation "measure (\<lambda>self. it_num_records self - it_insertion_index self)") auto

text \<open>
  The loop that walks from \<^verbatim>\<open>root\<close> up the parent links, with the turns counted as in the
  loops above.
\<close>

function find_root :: "sparse_tree \<Rightarrow> nat \<Rightarrow> sparse_tree result" where
  "find_root t turns =
     bind_r (rd (st_parent t) (unat (st_root t))) (\<lambda>v.
       if v = 0 then Inr t
       else if \<not> turns < length (st_parent t) then Inl Loops_forever
       else find_root (t\<lparr>st_root := v\<rparr>) (turns + 1))"
  by pat_completeness auto
termination
  by (relation "measure (\<lambda>(t, turns). length (st_parent t) - turns)") auto

text \<open>
  The loop that copies the mutations of the new tree; \<^verbatim>\<open>num_mutations\<close> of the tree is the
  length of \<open>st_mutations\<close>.
\<close>

function copy_mutations :: "sparse_tree_iterator \<Rightarrow> sparse_tree_iterator result" where
  "copy_mutations self =
     (if it_mutation_index self < num_mutations (it_tree_sequence self) then
        bind_r (rd (mutations_position (it_tree_sequence self)) (it_mutation_index self)) (\<lambda>x.
          if x < real (unat (st_right (it_tree self))) then
            if \<not> length (st_mutations (it_tree self)) < st_max_mutations (it_tree self)
            then Inl Assertion_failed
            else
              bind_r (rd (mutations_node (it_tree_sequence self)) (it_mutation_index self)) (\<lambda>nd.
              copy_mutations
                (self\<lparr>it_tree := (it_tree self)\<lparr>st_mutations :=
                                    st_mutations (it_tree self) @ [\<lparr>mut_position = x, mut_node = nd\<rparr>]\<rparr>,
                       it_mutation_index := it_mutation_index self + 1\<rparr>))
          else Inr self)
      else Inr self)"
  by pat_completeness auto
termination
  by (relation "measure (\<lambda>self. num_mutations (it_tree_sequence self) - it_mutation_index self)")
     auto

text \<open>\<^verbatim>\<open>sparse_tree_iterator_next\<close> returns \<open>(ret, self)\<close>.\<close>

definition sparse_tree_iterator_next ::
  "sparse_tree_iterator \<Rightarrow> (int \<times> sparse_tree_iterator) result"
where
  "sparse_tree_iterator_next self =
     (if it_insertion_index self < it_num_records self then
        bind_r (remove_loop self) (\<lambda>self.
        bind_r (rd (trees_removal_order (it_tree_sequence self)) (it_removal_index self)) (\<lambda>k.
        bind_r (rd (trees_right (it_tree_sequence self)) (unat k)) (\<lambda>r.
        let self = self\<lparr>it_tree := (it_tree self)\<lparr>st_left := st_right (it_tree self),
                                                  st_right := r\<rparr>\<rparr>
        in bind_r (insert_loop self) (\<lambda>self.
           bind_r (find_root (it_tree self) 0) (\<lambda>t.
           bind_r (copy_mutations (self\<lparr>it_tree := t\<lparr>st_mutations := []\<rparr>\<rparr>)) (\<lambda>self.
           Inr (1, self)))))))
      else Inr (0, self))"

text \<open>The iterator after \<open>m\<close> calls of \<^verbatim>\<open>sparse_tree_iterator_next\<close>.\<close>

fun sparse_tree_iterator_calls :: "sparse_tree_iterator \<Rightarrow> nat \<Rightarrow> sparse_tree_iterator result" where
  "sparse_tree_iterator_calls self 0 = Inr self"
| "sparse_tree_iterator_calls self (Suc m) =
     bind_r (sparse_tree_iterator_calls self m) (\<lambda>self. map_sum id snd (sparse_tree_iterator_next self))"

text \<open>
  The parent of node \<open>v\<close> in the array \<^verbatim>\<open>parent\<close> and its child number \<open>j\<close> in the array
  \<^verbatim>\<open>children\<close>, and the nodes on the way from \<open>u\<close> up the parent links (\<open>u\<close> itself included).
\<close>

definition par_of :: "32 word list \<Rightarrow> 32 word \<Rightarrow> 32 word" where
  "par_of pa v = pa ! unat v"

definition child_of :: "32 word list \<Rightarrow> 32 word \<Rightarrow> nat \<Rightarrow> 32 word" where
  "child_of ch v j = ch ! (2 * unat v + j)"

inductive_set anc :: "32 word list \<Rightarrow> 32 word \<Rightarrow> 32 word set" for pa :: "32 word list" and u :: "32 word" where
  self: "u \<in> anc pa u"
| up: "x \<in> anc pa u \<Longrightarrow> par_of pa x \<noteq> 0 \<Longrightarrow> par_of pa x \<in> anc pa u"

text \<open>
  The weight of the leaves below node \<open>v\<close>, for the array \<^verbatim>\<open>children\<close> and the sample size
  \<open>n\<close>: the leaves are the nodes from 1 to \<open>n\<close>, leaf \<open>l\<close> weighs \<open>w l\<close>, and the nodes below
  \<open>v\<close> are its children (which have smaller numbers) and the nodes below them. With weight
  1 for each leaf this is the number of leaves below \<open>v\<close>, in \<^verbatim>\<open>uint32_t\<close> as the counts of
  the program; with weight 1 for the tracked leaves and 0 for the others it is the number
  of tracked leaves below \<open>v\<close>.
\<close>

function subtree_weight :: "32 word list \<Rightarrow> 32 word \<Rightarrow> (32 word \<Rightarrow> 32 word) \<Rightarrow> 32 word \<Rightarrow> 32 word" where
  "subtree_weight ch n w v =
     (if 1 \<le> v \<and> v \<le> n then w v
      else if child_of ch v 0 \<noteq> 0 \<and> child_of ch v 0 < v \<and> child_of ch v 1 < v
      then subtree_weight ch n w (child_of ch v 0) + subtree_weight ch n w (child_of ch v 1)
      else 0)"
  by pat_completeness auto
termination
  by (relation "measure (\<lambda>(ch, n, w, v). unat v)") (auto simp: word_less_nat_alt)

text \<open>
  The arrays of a sparse tree that counts leaves have \<^verbatim>\<open>num_nodes + 1\<close> cells (twice as
  many for \<^verbatim>\<open>children\<close>), and the index arithmetic of the program does not wrap around.
\<close>

definition tree_shape :: "sparse_tree \<Rightarrow> bool" where
  "tree_shape t =
     (unat (st_num_nodes t) + 1 < 2 ^ 31 \<and>
      st_sample_size t \<le> st_num_nodes t \<and>
      st_count_leaves t \<and>
      st_root t \<le> st_num_nodes t \<and>
      length (st_parent t) = unat (st_num_nodes t) + 1 \<and>
      length (st_children t) = 2 * (unat (st_num_nodes t) + 1) \<and>
      length (st_time t) = unat (st_num_nodes t) + 1 \<and>
      length (st_num_leaves t) = unat (st_num_nodes t) + 1 \<and>
      length (st_num_tracked_leaves t) = unat (st_num_nodes t) + 1)"

text \<open>
  The arrays \<^verbatim>\<open>parent\<close> and \<^verbatim>\<open>children\<close> describe a forest over the nodes up to \<open>N\<close> with the
  leaves up to \<open>n\<close>: a node with a child has two, different and of smaller number, whose
  parent it is; the parent of a node has it as a child; the leaves and node 0 have no
  children, and node 0 has no parent.
\<close>

definition forest :: "32 word \<Rightarrow> 32 word \<Rightarrow> 32 word list \<Rightarrow> 32 word list \<Rightarrow> bool" where
  "forest N n pa ch =
     (par_of pa 0 = 0 \<and>
      (\<forall>v j. v \<le> N \<and> j < 2 \<and> child_of ch v j \<noteq> 0 \<longrightarrow>
         child_of ch v j < v \<and> par_of pa (child_of ch v j) = v) \<and>
      (\<forall>v. v \<le> N \<longrightarrow> (child_of ch v 0 = 0) = (child_of ch v 1 = 0)) \<and>
      (\<forall>v. v \<le> N \<and> child_of ch v 0 \<noteq> 0 \<longrightarrow> child_of ch v 0 \<noteq> child_of ch v 1) \<and>
      (\<forall>c. c \<le> N \<and> par_of pa c \<noteq> 0 \<longrightarrow>
         par_of pa c \<le> N \<and>
         (child_of ch (par_of pa c) 0 = c \<or> child_of ch (par_of pa c) 1 = c)) \<and>
      (\<forall>v. v \<le> n \<longrightarrow> child_of ch v 0 = 0))"

text \<open>
  A sparse tree whose counts are right: its arrays describe a forest, and for each node
  the two counts are the weights of the leaves below it, each leaf weighing what the array
  holds for it.
\<close>

definition tree_ok :: "sparse_tree \<Rightarrow> bool" where
  "tree_ok t =
     (tree_shape t \<and>
      forest (st_num_nodes t) (st_sample_size t) (st_parent t) (st_children t) \<and>
      (\<forall>v. v \<le> st_num_nodes t \<longrightarrow>
         st_num_leaves t ! unat v
           = subtree_weight (st_children t) (st_sample_size t) (\<lambda>l. st_num_leaves t ! unat l) v \<and>
         st_num_tracked_leaves t ! unat v
           = subtree_weight (st_children t) (st_sample_size t)
               (\<lambda>l. st_num_tracked_leaves t ! unat l) v))"

text \<open>Record \<open>j\<close> of a tree sequence: its node, its two children and its interval.\<close>

definition rec_node :: "tree_sequence \<Rightarrow> nat \<Rightarrow> 32 word" where
  "rec_node s j = trees_node s ! j"

definition rec_child :: "tree_sequence \<Rightarrow> nat \<Rightarrow> nat \<Rightarrow> 32 word" where
  "rec_child s j i = trees_children s ! (2 * j + i)"

definition rec_left :: "tree_sequence \<Rightarrow> nat \<Rightarrow> 32 word" where
  "rec_left s j = trees_left s ! j"

definition rec_right :: "tree_sequence \<Rightarrow> nat \<Rightarrow> 32 word" where
  "rec_right s j = trees_right s ! j"

text \<open>
  A record is well formed for a tree over the nodes up to \<open>N\<close> with the leaves up to \<open>n\<close>:
  its node is not a leaf, and its two children are different nodes of smaller number.
\<close>

definition record_ok :: "tree_sequence \<Rightarrow> nat \<Rightarrow> bool" where
  "record_ok s j =
     (sample_size s < rec_node s j \<and> rec_node s j \<le> num_nodes s \<and>
      rec_child s j 0 \<noteq> 0 \<and> rec_child s j 1 \<noteq> 0 \<and>
      rec_child s j 0 < rec_node s j \<and> rec_child s j 1 < rec_node s j \<and>
      rec_child s j 0 \<noteq> rec_child s j 1)"

text \<open>Two records that can be in one tree: they have different nodes and no child in common.\<close>

definition compatible :: "tree_sequence \<Rightarrow> nat \<Rightarrow> nat \<Rightarrow> bool" where
  "compatible s j j' =
     (rec_node s j \<noteq> rec_node s j' \<and>
      rec_child s j 0 \<noteq> rec_child s j' 0 \<and> rec_child s j 0 \<noteq> rec_child s j' 1 \<and>
      rec_child s j 1 \<noteq> rec_child s j' 0 \<and> rec_child s j 1 \<noteq> rec_child s j' 1)"

text \<open>
  The records a tree sequence must hold for the sparse tree iterator to yield binary trees:
  the records are aligned as above and well formed, two records whose intervals overlap are
  compatible, wherever a record is in force there is a record in force for each of its
  children that is not a leaf, and the mutation columns are full.
\<close>

definition records_form_trees :: "tree_sequence \<Rightarrow> bool" where
  "records_form_trees s =
     (records_aligned s \<and>
      unat (num_nodes s) + 1 < 2 ^ 31 \<and>
      sample_size s \<le> num_nodes s \<and>
      length (mutations_position s) = num_mutations s \<and>
      length (mutations_node s) = num_mutations s \<and>
      (\<forall>j \<in> set [0..<num_records s]. record_ok s j) \<and>
      (\<forall>j \<in> set [0..<num_records s]. \<forall>j' \<in> set [0..<num_records s].
         j \<noteq> j' \<and> rec_left s j < rec_right s j' \<and> rec_left s j' < rec_right s j
           \<longrightarrow> compatible s j j') \<and>
      (\<forall>j \<in> set [0..<num_records s]. \<forall>i \<in> set [0..<2]. \<forall>x.
         sample_size s < rec_child s j i \<and> rec_left s j \<le> x \<and> x < rec_right s j
           \<longrightarrow> (\<exists>j' \<in> set [0..<num_records s].
                  rec_node s j' = rec_child s j i \<and> rec_left s j' \<le> x \<and> x < rec_right s j')))"

text \<open>
  The records \<open>S\<close> are the ones in the tree: the node of each has the children of the
  record, and a node with children is the node of one of them.
\<close>

definition in_tree :: "tree_sequence \<Rightarrow> nat set \<Rightarrow> sparse_tree \<Rightarrow> bool" where
  "in_tree s S t =
     (tree_ok t \<and> st_num_nodes t = num_nodes s \<and> st_sample_size t = sample_size s \<and>
      (\<forall>j\<in>S. j < num_records s \<and>
         child_of (st_children t) (rec_node s j) 0 = rec_child s j 0 \<and>
         child_of (st_children t) (rec_node s j) 1 = rec_child s j 1) \<and>
      (\<forall>v. v \<le> num_nodes s \<and> child_of (st_children t) v 0 \<noteq> 0 \<longrightarrow>
         (\<exists>j\<in>S. rec_node s j = v)))"

text \<open>
  What inserting and removing records leaves as it is: the sizes, the interval, the
  mutations, and the counts of the leaves.
\<close>

definition kept :: "sparse_tree \<Rightarrow> sparse_tree \<Rightarrow> bool" where
  "kept t t' =
     (st_left t' = st_left t \<and> st_right t' = st_right t \<and>
      st_max_mutations t' = st_max_mutations t \<and> st_mutations t' = st_mutations t \<and>
      (\<forall>l. l \<le> st_sample_size t \<longrightarrow>
         st_num_leaves t' ! unat l = st_num_leaves t ! unat l \<and>
         st_num_tracked_leaves t' ! unat l = st_num_tracked_leaves t ! unat l))"

text \<open>The tree diff iterator that stands where a sparse tree iterator stands.\<close>

definition diff_view :: "sparse_tree_iterator \<Rightarrow> tree_diff_iterator" where
  "diff_view self =
     \<lparr>di_sample_size = it_sample_size self, di_num_nodes = it_num_nodes self,
      di_num_records = it_num_records self, di_tree_sequence = it_tree_sequence self,
      di_insertion_index = it_insertion_index self, di_removal_index = it_removal_index self,
      di_tree_left = st_right (it_tree self)\<rparr>"

text \<open>A tree in which each child is a leaf or has children itself.\<close>

definition complete :: "sparse_tree \<Rightarrow> bool" where
  "complete t =
     (\<forall>v j. v \<le> st_num_nodes t \<and> j < 2 \<and> st_sample_size t < child_of (st_children t) v j
        \<longrightarrow> child_of (st_children t) (child_of (st_children t) v j) 0 \<noteq> 0)"

text \<open>
  The states of a sparse tree iterator over \<open>s\<close> between two calls: it stands where a tree
  diff iterator would, and its tree is complete and holds the records inserted and not yet
  removed, with the right counts.
\<close>

definition iter_ok :: "tree_sequence \<Rightarrow> sparse_tree_iterator \<Rightarrow> bool" where
  "iter_ok s self =
     (it_tree_sequence self = s \<and> it_num_records self = num_records s \<and>
      it_sample_size self = sample_size s \<and>
      diff_state s (diff_view self) \<and>
      in_tree s (unat ` set (take (it_insertion_index self) (trees_insertion_order s))
                 - unat ` set (take (it_removal_index self) (trees_removal_order s)))
        (it_tree self) \<and>
      st_max_mutations (it_tree self) = num_mutations s \<and>
      complete (it_tree self))"
section \<open>A small tree sequence\<close>

text \<open>
  Three samples over ten loci, four records in time order. On \<open>[0, 5)\<close> node 4 joins
  1 and 2 and node 6 joins 3 and 4; on \<open>[5, 10)\<close> node 5 joins 2 and 3 and node 6 joins
  1 and 5.
\<close>

definition example_platform :: platform where
  "example_platform =
     \<lparr>byte_order = Little, malloc_ok = (\<lambda>n. True), files = (\<lambda>n. None), writable = (\<lambda>n. True),
       h5_files = (\<lambda>n. None), MSP_FILE_FORMAT_VERSION_MAJOR = 1, MSP_FILE_FORMAT_VERSION_MINOR = 0\<rparr>"

text \<open>
  The same machine, except that the one allocation of 128 bytes fails: for the example,
  the buffer \<^verbatim>\<open>records\<close> of four records of 32 bytes in \<^verbatim>\<open>tree_sequence_create\<close>.
\<close>

definition scarce_platform :: platform where
  "scarce_platform = example_platform\<lparr>malloc_ok := (\<lambda>n. n \<noteq> 128)\<rparr>"

definition example_records :: "coalescence_record list" where
  "example_records =
     [\<lparr>cr_left = 0, cr_right = 5, cr_node = 4, cr_children = (1, 2), cr_time = 1\<rparr>,
      \<lparr>cr_left = 5, cr_right = 10, cr_node = 5, cr_children = (2, 3), cr_time = 2\<rparr>,
      \<lparr>cr_left = 0, cr_right = 5, cr_node = 6, cr_children = (3, 4), cr_time = 3\<rparr>,
      \<lparr>cr_left = 5, cr_right = 10, cr_node = 6, cr_children = (1, 5), cr_time = 3\<rparr>]"

definition example_msp :: msp where
  "example_msp =
     \<lparr>msp_sample_size = 3, msp_num_loci = 10, msp_num_coalescence_records = 4,
      msp_coalescence_records = Inr example_records, msp_parameters = Inr ''{}''\<rparr>"

definition example_ts :: tree_sequence where
  "example_ts =
     \<lparr>sample_size = 3, num_loci = 10, num_nodes = 6, num_records = 4, num_mutations = 0,
      trees_left = [0, 5, 0, 5], trees_right = [5, 10, 5, 10], trees_node = [4, 5, 6, 6],
      trees_children = [1, 2, 2, 3, 3, 4, 1, 5],
      trees_time = [1, 2, 3, 3],
      trees_insertion_order = [0, 2, 1, 3], trees_removal_order = [2, 0, 3, 1],
      trees_parameters = Some ''{}'', trees_environment = Some ''{}'',
      mutations_node = [], mutations_position = [],
      mutations_parameters = None, mutations_environment = None\<rparr>"

text \<open>The archive a library of format version \<open>(major, 0)\<close> writes for the example.\<close>

definition example_archive :: "32 word \<Rightarrow> h5_file" where
  "example_archive major =
     \<lparr>h5_groups = [''/trees''],
      h5_datasets =
        (\<lambda>n. None)
          (''/trees/left'' \<mapsto> \<lparr>h5_dims = [4], h5_data = H5_uint32 [0, 5, 0, 5]\<rparr>,
           ''/trees/right'' \<mapsto> \<lparr>h5_dims = [4], h5_data = H5_uint32 [5, 10, 5, 10]\<rparr>,
           ''/trees/node'' \<mapsto> \<lparr>h5_dims = [4], h5_data = H5_uint32 [4, 5, 6, 6]\<rparr>,
           ''/trees/children'' \<mapsto> \<lparr>h5_dims = [4, 2], h5_data = H5_uint32 [1, 2, 2, 3, 3, 4, 1, 5]\<rparr>,
           ''/trees/time'' \<mapsto> \<lparr>h5_dims = [4], h5_data = H5_double [1, 2, 3, 3]\<rparr>),
      h5_attributes =
        (\<lambda>n. None)
          ((''/'', ''format_version'') \<mapsto> \<lparr>h5_dims = [2], h5_data = H5_uint32 [major, 0]\<rparr>,
           (''/'', ''sample_size'') \<mapsto> \<lparr>h5_dims = [], h5_data = H5_uint32 [3]\<rparr>,
           (''/'', ''num_loci'') \<mapsto> \<lparr>h5_dims = [], h5_data = H5_uint32 [10]\<rparr>,
           (''/trees'', ''environment'') \<mapsto> \<lparr>h5_dims = [], h5_data = H5_string ''{}''\<rparr>,
           (''/trees'', ''parameters'') \<mapsto> \<lparr>h5_dims = [], h5_data = H5_string ''{}''\<rparr>)\<rparr>"


text \<open>The marginal tree of the example on \<open>[0, 5)\<close>, with the leaf counts of its nodes.\<close>

definition example_tree :: sparse_tree where
  "example_tree =
     \<lparr>st_sample_size = 3, st_num_nodes = 6, st_count_leaves = True,
      st_root = 6, st_left = 0, st_right = 5,
      st_parent = [0, 4, 4, 6, 6, 0, 0],
      st_children = [0, 0, 0, 0, 0, 0, 0, 0, 1, 2, 0, 0, 3, 4],
      st_time = [0, 0, 0, 0, 1, 0, 3],
      st_num_leaves = [0, 1, 1, 1, 2, 0, 3],
      st_num_tracked_leaves = [0, 0, 0, 0, 0, 0, 0],
      st_max_mutations = 0, st_mutations = []\<rparr>"

text \<open>The iterator \<^verbatim>\<open>tree_diff_iterator_alloc\<close> makes for the example.\<close>

definition example_iterator :: tree_diff_iterator where
  "example_iterator =
     \<lparr>di_sample_size = 3, di_num_nodes = 6, di_num_records = 4, di_tree_sequence = example_ts,
      di_insertion_index = 0, di_removal_index = 0, di_tree_left = 0\<rparr>"

text \<open>
  Three records of which the second starts at 3, where no record ends, and the tree
  sequence \<^verbatim>\<open>tree_sequence_create\<close> makes of them.
\<close>

definition overlap_msp :: msp where
  "overlap_msp =
     \<lparr>msp_sample_size = 3, msp_num_loci = 8, msp_num_coalescence_records = 3,
      msp_coalescence_records = Inr
        [\<lparr>cr_left = 0, cr_right = 5, cr_node = 4, cr_children = (1, 2), cr_time = 1\<rparr>,
         \<lparr>cr_left = 3, cr_right = 8, cr_node = 5, cr_children = (3, 4), cr_time = 2\<rparr>,
         \<lparr>cr_left = 5, cr_right = 8, cr_node = 6, cr_children = (2, 3), cr_time = 3\<rparr>],
      msp_parameters = Inr ''{}''\<rparr>"

definition overlap_ts :: tree_sequence where
  "overlap_ts =
     \<lparr>sample_size = 3, num_loci = 8, num_nodes = 6, num_records = 3, num_mutations = 0,
      trees_left = [0, 3, 5], trees_right = [5, 8, 8], trees_node = [4, 5, 6],
      trees_children = [1, 2, 3, 4, 2, 3],
      trees_time = [1, 2, 3],
      trees_insertion_order = [0, 1, 2], trees_removal_order = [0, 2, 1],
      trees_parameters = Some ''{}'', trees_environment = Some ''{}'',
      mutations_node = [], mutations_position = [],
      mutations_parameters = None, mutations_environment = None\<rparr>"

definition overlap_iterator :: tree_diff_iterator where
  "overlap_iterator =
     \<lparr>di_sample_size = 3, di_num_nodes = 6, di_num_records = 3, di_tree_sequence = overlap_ts,
      di_insertion_index = 0, di_removal_index = 0, di_tree_left = 0\<rparr>"
section \<open>Proofs\<close>

subsection \<open>The result monad\<close>

lemma bind_r_Inr [simp]: "bind_r (Inr x) f = f x"
  by (simp add: bind_r_def)

lemma bind_r_Inl [simp]: "bind_r (Inl e) f = Inl e"
  by (simp add: bind_r_def)

subsection \<open>Sorting\<close>

lemma mset_qsort_insert [simp]: "mset (qsort_insert cmp x ys) = add_mset x (mset ys)"
  by (induction ys) simp_all

lemma mset_qsort [simp]: "mset (qsort cmp xs) = mset xs"
  by (induction xs) (simp_all add: qsort_def)

lemma set_qsort_insert [simp]: "set (qsort_insert cmp x ys) = insert x (set ys)"
  by (induction ys) auto

lemma set_qsort [simp]: "set (qsort cmp xs) = set xs"
  by (metis mset_qsort set_mset_mset)

lemma length_qsort [simp]: "length (qsort cmp xs) = length xs"
  by (metis mset_qsort size_mset)

lemma sorted_qsort_insert:
  assumes "cmp_total cmp" "sorted_wrt (\<lambda>a b. cmp a b \<le> 0) ys"
  shows "sorted_wrt (\<lambda>a b. cmp a b \<le> 0) (qsort_insert cmp x ys)"
  using assms(2)
proof (induction ys)
  case Nil
  then show ?case by simp
next
  case (Cons y ys)
  have tot: "\<And>a b. cmp a b \<le> 0 \<or> cmp b a \<le> 0"
    and tr: "\<And>a b c. cmp a b \<le> 0 \<Longrightarrow> cmp b c \<le> 0 \<Longrightarrow> cmp a c \<le> 0"
    using assms(1) unfolding cmp_total_def by blast+
  show ?case
  proof (cases "cmp x y \<le> 0")
    case True
    then show ?thesis using Cons.prems tr by auto
  next
    case False
    then have yx: "cmp y x \<le> 0" using tot by blast
    have "\<forall>z \<in> set (qsort_insert cmp x ys). cmp y z \<le> 0"
    proof
      fix z assume "z \<in> set (qsort_insert cmp x ys)"
      then have "z = x \<or> z \<in> set ys" by simp
      then show "cmp y z \<le> 0" using yx Cons.prems by auto
    qed
    then show ?thesis using False Cons by simp
  qed
qed

lemma sorted_qsort:
  "cmp_total cmp \<Longrightarrow> sorted_wrt (\<lambda>a b. cmp a b \<le> 0) (qsort cmp xs)"
  by (induction xs) (simp_all add: qsort_def sorted_qsort_insert)

lemma cmp_mutation_le: "(cmp_mutation a b \<le> 0) = (mut_position a \<le> mut_position b)"
  by (auto simp: cmp_mutation_def)

lemma cmp_mutation_total: "cmp_total cmp_mutation"
  unfolding cmp_total_def cmp_mutation_le by auto

lemma cmp_index_sort_le:
  "(cmp_index_sort a b \<le> 0) =
   (is_value a < is_value b \<or> (is_value a = is_value b \<and> is_time a \<le> is_time b))"
  by (auto simp: cmp_index_sort_def Let_def)

lemma cmp_index_sort_total: "cmp_total cmp_index_sort"
  unfolding cmp_total_def cmp_index_sort_le by auto

subsection \<open>Haplotype strings\<close>

lemma fold_write:
  "l + length ks \<le> length buf \<Longrightarrow>
   fold_r (\<lambda>k (buf, l). bind_r (wr buf l (f k)) (\<lambda>buf'. Inr (buf', l + 1))) ks (buf, l)
   = Inr (take l buf @ map f ks @ drop (l + length ks) buf, l + length ks)"
proof (induction ks arbitrary: buf l)
  case Nil
  then show ?case by simp
next
  case (Cons k ks)
  have l: "l < length buf" using Cons.prems by simp
  have *: "Suc l + length ks \<le> length (buf[l := f k])" using Cons.prems by simp
  have "take (Suc l) (buf[l := f k]) = take l buf @ [f k]"
    using l by (simp add: take_Suc_conv_app_nth)
  then show ?case using Cons.IH[OF *] l
    by (simp add: bind_r_def wr_def)
qed

lemma write_word_eq:
  "l + HG_WORD_SIZE \<le> length buf \<Longrightarrow>
   write_word w (buf, l) = Inr (take l buf @ map (haplotype_char w) [0..<HG_WORD_SIZE] @ drop (l + HG_WORD_SIZE) buf, l + HG_WORD_SIZE)"
  unfolding write_word_def
  using fold_write[of l "[0..<HG_WORD_SIZE]" buf "haplotype_char w"] by simp

lemma fold_rows:
  "\<forall>j\<in>set js. base + j < length m \<Longrightarrow> l + HG_WORD_SIZE * length js \<le> length buf \<Longrightarrow>
   fold_r (\<lambda>j (buf, l). bind_r (rd m (base + j)) (\<lambda>word. write_word word (buf, l))) js (buf, l)
   = Inr (take l buf @ concat (map (\<lambda>j. map (haplotype_char (m ! (base + j))) [0..<HG_WORD_SIZE]) js)
            @ drop (l + HG_WORD_SIZE * length js) buf, l + HG_WORD_SIZE * length js)"
proof (induction js arbitrary: buf l)
  case Nil
  then show ?case by simp
next
  case (Cons j js)
  let ?b = "take l buf @ map (haplotype_char (m ! (base + j))) [0..<HG_WORD_SIZE] @ drop (l + HG_WORD_SIZE) buf"
  have l: "l + HG_WORD_SIZE \<le> length buf" using Cons.prems by simp
  have len: "length ?b = length buf" using l by simp
  have 1: "\<forall>j\<in>set js. base + j < length m" using Cons.prems by simp
  have 2: "(l + HG_WORD_SIZE) + HG_WORD_SIZE * length js \<le> length ?b" using Cons.prems len by simp
  have t: "take (l + HG_WORD_SIZE) ?b = take l buf @ map (haplotype_char (m ! (base + j))) [0..<HG_WORD_SIZE]"
    using l by simp
  have e: "l + HG_WORD_SIZE + HG_WORD_SIZE * length js = l + HG_WORD_SIZE * length (j # js)" by simp
  have d: "drop (l + HG_WORD_SIZE + HG_WORD_SIZE * length js) ?b = drop (l + HG_WORD_SIZE * length (j # js)) buf"
    unfolding e using Cons.prems(2) by (simp add: ac_simps)
  show ?case using Cons.IH[OF 1 2] Cons.prems l
    by (simp add: bind_r_def rd_def write_word_eq t d ac_simps del: upt_Suc)
qed


lemma concat_blocks_nth:
  "s < n * length js \<Longrightarrow> 0 < n \<Longrightarrow>
   concat (map (\<lambda>j. map (g j) [0..<n]) js) ! s = g (js ! (s div n)) (s mod n)"
proof (induction js arbitrary: s)
  case Nil
  then show ?case by simp
next
  case (Cons j js)
  show ?case
  proof (cases "s < n")
    case True
    then show ?thesis by (simp add: nth_append)
  next
    case False
    then have "s - n < n * length js" using Cons.prems by simp
    moreover have "s div n = Suc ((s - n) div n)" "s mod n = (s - n) mod n"
      using False Cons.prems(2) by (simp_all add: le_div_geq le_mod_geq)
    ultimately show ?thesis using Cons.IH[of "s - n"] Cons.prems(2) False
      by (simp add: nth_append)
  qed
qed

lemma haplotype_char_bit:
  "(haplotype_char w k = CHR ''1'') = (w AND push_bit k 1 \<noteq> 0)"
proof -
  have a: "(drop_bit k w AND 1 \<noteq> 0) = bit w k"
    by (simp add: and_one_eq bit_iff_odd_drop_bit odd_iff_mod_2_eq_one)
  have b: "(w AND push_bit k 1 \<noteq> 0) = bit w k"
    by (simp add: bit_iff_and_push_bit_not_eq_0)
  show ?thesis unfolding haplotype_char_def using a b by simp
qed

lemma haplotype_char_cases: "haplotype_char w k = CHR ''1'' \<or> haplotype_char w k = CHR ''0''"
  by (simp add: haplotype_char_def)

lemma get_haplotype_ok:
  assumes "hapgen_sized self"
  shows "(hapgen_get_haplotype self sample_id = Inl (Error MSP_ERR_OUT_OF_BOUNDS))
           = (sample_id = 0 \<or> sample_id > hg_sample_size self)"
    and "sample_id \<noteq> 0 \<Longrightarrow> sample_id \<le> hg_sample_size self \<Longrightarrow>
         (\<exists>self' str. hapgen_get_haplotype self sample_id = Inr (self', str) \<and>
            haplotype self' ! hg_num_mutations self = CHR 0x00 \<and>
            str = take (hg_num_mutations self) (haplotype self') \<and>
            length str = hg_num_mutations self \<and>
            (\<forall>s < hg_num_mutations self.
               str ! s = (if hapgen_bit self (unat (sample_id - 1)) s then CHR ''1'' else CHR ''0'')))"
proof -
  let ?w = "hg_words_per_row self" and ?n = "hg_num_mutations self"
  let ?base = "unat (sample_id - 1) * ?w"
  let ?m = "haplotype_matrix self"
  let ?body = "concat (map (\<lambda>j. map (haplotype_char (?m ! (?base + j))) [0..<HG_WORD_SIZE]) [0..<?w])"
  have w: "?w = ?n div HG_WORD_SIZE + 1" and lm: "length ?m = ?w * unat (hg_sample_size self)"
    and lb: "length (haplotype self) = ?w * HG_WORD_SIZE + 1"
    using assms by (simp_all add: hapgen_sized_def)
  have pos: "0 < HG_WORD_SIZE" by (simp add: HG_WORD_SIZE_def)
  have nlt: "?n < HG_WORD_SIZE * ?w" unfolding w using pos dividend_less_times_div[of HG_WORD_SIZE ?n]
    by (simp add: ac_simps)
  have ok: "\<exists>self' str. hapgen_get_haplotype self sample_id = Inr (self', str) \<and>
            haplotype self' ! hg_num_mutations self = CHR 0x00 \<and>
            str = take (hg_num_mutations self) (haplotype self') \<and>
            length str = hg_num_mutations self \<and>
            (\<forall>s < hg_num_mutations self.
               str ! s = (if hapgen_bit self (unat (sample_id - 1)) s then CHR ''1'' else CHR ''0''))"
    if nz: "sample_id \<noteq> 0" and le: "sample_id \<le> hg_sample_size self"
  proof -
    have "unat sample_id \<le> unat (hg_sample_size self)" using le by (simp add: word_le_nat_alt)
    moreover have "unat (sample_id - 1) = unat sample_id - 1" using nz
      by (simp add: unat_minus_one)
    moreover have "unat sample_id \<noteq> 0" using nz by (simp add: unat_eq_zero)
    ultimately have row: "unat (sample_id - 1) < unat (hg_sample_size self)" by simp
    have "?base + ?w \<le> ?w * unat (hg_sample_size self)"
    proof -
      have "Suc (unat (sample_id - 1)) * ?w \<le> unat (hg_sample_size self) * ?w"
        using row by (intro mult_le_mono1) simp
      then show ?thesis by (simp add: ac_simps)
    qed
    then have inr: "\<forall>j\<in>set [0..<?w]. ?base + j < length ?m" using lm by auto
    have fit: "0 + HG_WORD_SIZE * length [0..<?w] \<le> length (haplotype self)" using lb by simp
    have loop: "fold_r (\<lambda>j (buf, l). bind_r (rd ?m (?base + j)) (\<lambda>word. write_word word (buf, l)))
                  [0..<?w] (haplotype self, 0)
                = Inr (?body @ drop (HG_WORD_SIZE * ?w) (haplotype self), HG_WORD_SIZE * ?w)"
      using fold_rows[OF inr fit] by simp
    have lbody: "length ?body = HG_WORD_SIZE * ?w"
      by (simp add: length_concat comp_def sum_list_triv del: upt_Suc)
    define buf where "buf = ?body @ drop (HG_WORD_SIZE * ?w) (haplotype self)"
    have lbuf: "?n < length buf" using nlt lbody by (simp add: buf_def)
    have body_nth: "?body ! s = haplotype_char (?m ! (?base + s div HG_WORD_SIZE)) (s mod HG_WORD_SIZE)"
      if "s < HG_WORD_SIZE * ?w" for s
    proof -
      have "s div HG_WORD_SIZE < ?w" using that by (simp add: less_mult_imp_div_less mult.commute)
      moreover note pos
      ultimately show ?thesis
        using concat_blocks_nth[of s HG_WORD_SIZE "[0..<?w]" "\<lambda>j. haplotype_char (?m ! (?base + j))"] that
        by simp
    qed
    have buf_nth: "buf ! s = haplotype_char (?m ! (?base + s div HG_WORD_SIZE)) (s mod HG_WORD_SIZE)"
      if "s < ?n" for s
      using that nlt lbody body_nth[of s] by (simp add: nth_append buf_def)
    have nonnul: "\<forall>c \<in> set (take ?n buf). c \<noteq> CHR 0x00"
    proof
      fix c assume "c \<in> set (take ?n buf)"
      then obtain i where i: "i < length (take ?n buf)" "take ?n buf ! i = c"
        unfolding in_set_conv_nth by blast
      then have "i < ?n" by simp
      then have "c = haplotype_char (?m ! (?base + i div HG_WORD_SIZE)) (i mod HG_WORD_SIZE)"
        using i(2) buf_nth[of i] by (simp only: nth_take)
      then show "c \<noteq> CHR 0x00"
        using haplotype_char_cases[of "?m ! (?base + i div HG_WORD_SIZE)" "i mod HG_WORD_SIZE"] by auto
    qed
    have tw: "takeWhile (\<lambda>c. c \<noteq> CHR 0x00) (buf[?n := CHR 0x00]) = take ?n buf"
    proof -
      have "buf[?n := CHR 0x00] = take ?n buf @ CHR 0x00 # drop (Suc ?n) buf"
        using lbuf by (rule upd_conv_take_nth_drop)
      then show ?thesis using nonnul by (simp add: takeWhile_append2)
    qed
    have res: "hapgen_get_haplotype self sample_id
               = Inr (self\<lparr>haplotype := buf[?n := CHR 0x00]\<rparr>, take ?n buf)"
    proof -
      have g: "\<not> (sample_id < 1 \<or> sample_id > hg_sample_size self)"
        using nz le by (simp add: word_less_1 not_less)
      have "wr buf ?n (CHR 0x00) = Inr (buf[?n := CHR 0x00])"
        using lbuf unfolding wr_def by (rule if_P)
      then show ?thesis
        unfolding hapgen_get_haplotype_def if_not_P[OF g] loop buf_def[symmetric]
        by (simp only: bind_r_Inr prod.case tw)
    qed
    have bits: "take ?n buf ! s = (if hapgen_bit self (unat (sample_id - 1)) s then CHR ''1'' else CHR ''0'')"
      if "s < ?n" for s
      using that buf_nth[of s] haplotype_char_bit[of "?m ! (?base + s div HG_WORD_SIZE)" "s mod HG_WORD_SIZE"]
        haplotype_char_cases[of "?m ! (?base + s div HG_WORD_SIZE)" "s mod HG_WORD_SIZE"]
      by (auto simp: hapgen_bit_def)
    have lt: "length (take ?n buf) = ?n" using lbuf by simp
    have z: "(buf[?n := CHR 0x00]) ! ?n = CHR 0x00" using lbuf by (rule nth_list_update_eq)
    show ?thesis
      apply (rule exI[of _ "self\<lparr>haplotype := buf[?n := CHR 0x00]\<rparr>"])
      apply (rule exI[of _ "take ?n buf"])
      using res lt z bits by simp
  qed
  then show "sample_id \<noteq> 0 \<Longrightarrow> sample_id \<le> hg_sample_size self \<Longrightarrow>
         (\<exists>self' str. hapgen_get_haplotype self sample_id = Inr (self', str) \<and>
            haplotype self' ! hg_num_mutations self = CHR 0x00 \<and>
            str = take (hg_num_mutations self) (haplotype self') \<and>
            length str = hg_num_mutations self \<and>
            (\<forall>s < hg_num_mutations self.
               str ! s = (if hapgen_bit self (unat (sample_id - 1)) s then CHR ''1'' else CHR ''0'')))" .
  show "(hapgen_get_haplotype self sample_id = Inl (Error MSP_ERR_OUT_OF_BOUNDS))
           = (sample_id = 0 \<or> sample_id > hg_sample_size self)"
  proof (cases "sample_id = 0 \<or> sample_id > hg_sample_size self")
    case True
    then show ?thesis by (auto simp: hapgen_get_haplotype_def word_less_1)
  next
    case False
    then have "sample_id \<noteq> 0" "sample_id \<le> hg_sample_size self" by auto
    from ok[OF this] False show ?thesis by auto
  qed
qed


lemma hapgen_set_bit_sized:
  "hapgen_set_bit self row column = Inr self' \<Longrightarrow> hapgen_sized self \<Longrightarrow> hapgen_sized self'"
  by (auto simp: hapgen_set_bit_def hapgen_sized_def Let_def rd_def wr_def bind_r_def
           split: if_splits)

lemma hapgen_set_bit_sets:
  assumes "hapgen_set_bit self row column = Inr self'"
  shows "hapgen_bit self' row column"
proof -
  let ?i = "row * hg_words_per_row self + column div HG_WORD_SIZE"
  have i: "?i < length (haplotype_matrix self)"
    and m: "haplotype_matrix self'
            = (haplotype_matrix self)[?i := haplotype_matrix self ! ?i OR push_bit (column mod HG_WORD_SIZE) 1]"
    and w: "hg_words_per_row self' = hg_words_per_row self"
    using assms
    by (auto simp: hapgen_set_bit_def Let_def rd_def wr_def bind_r_def split: if_splits)
  have "(push_bit (column mod HG_WORD_SIZE) 1 :: 64 word) \<noteq> 0"
    by (simp add: HG_WORD_SIZE_def push_bit_eq_mult exp_eq_zero_iff not_le)
  then have "(haplotype_matrix self ! ?i OR push_bit (column mod HG_WORD_SIZE) 1)
               AND push_bit (column mod HG_WORD_SIZE) 1 \<noteq> (0 :: 64 word)"
    by (simp add: bit.conj_disj_distrib2)
  then show ?thesis
    unfolding hapgen_bit_def m w using i by simp
qed

text \<open>
  \<^bold>\<open>C10.\<close> For a generator whose storage has the sizes \<^verbatim>\<open>hapgen_alloc\<close> gives it,
  \<^verbatim>\<open>hapgen_get_haplotype\<close> returns \<^verbatim>\<open>MSP_ERR_OUT_OF_BOUNDS\<close> exactly when \<open>sample_id\<close> is 0
  or greater than the sample size. Otherwise it returns normally; the buffer holds a NUL
  at index \<open>num_mutations\<close>, the string read from it has exactly \<open>num_mutations\<close>
  characters, and its character at position \<open>s\<close> is \<^verbatim>\<open>'1'\<close> if bit
  \<open>(sample_id - 1, s)\<close> of the matrix is set and \<^verbatim>\<open>'0'\<close> if not.
\<close>

theorem hapgen_get_haplotype_correct:
  assumes "hapgen_sized self"
  shows "((hapgen_get_haplotype self sample_id = Inl (Error MSP_ERR_OUT_OF_BOUNDS))
            = (sample_id = 0 \<or> sample_id > hg_sample_size self)) \<and>
         (sample_id \<noteq> 0 \<and> sample_id \<le> hg_sample_size self \<longrightarrow>
           (\<exists>self' str. hapgen_get_haplotype self sample_id = Inr (self', str) \<and>
              haplotype self' ! hg_num_mutations self = CHR 0x00 \<and>
              str = takeWhile (\<lambda>c. c \<noteq> CHR 0x00) (haplotype self') \<and>
              length str = hg_num_mutations self \<and>
              (\<forall>s < hg_num_mutations self.
                 str ! s = (if hapgen_bit self (unat (sample_id - 1)) s then CHR ''1'' else CHR ''0''))))"
proof (intro conjI impI)
  show "(hapgen_get_haplotype self sample_id = Inl (Error MSP_ERR_OUT_OF_BOUNDS))
            = (sample_id = 0 \<or> sample_id > hg_sample_size self)"
    by (rule get_haplotype_ok(1)[OF assms])
next
  assume a: "sample_id \<noteq> 0 \<and> sample_id \<le> hg_sample_size self"
  then obtain self' str where r: "hapgen_get_haplotype self sample_id = Inr (self', str)"
    and z: "haplotype self' ! hg_num_mutations self = CHR 0x00"
    and l: "length str = hg_num_mutations self"
    and b: "\<forall>s < hg_num_mutations self.
                 str ! s = (if hapgen_bit self (unat (sample_id - 1)) s then CHR ''1'' else CHR ''0'')"
    using get_haplotype_ok(2)[OF assms, of sample_id] by blast
  have "str = takeWhile (\<lambda>c. c \<noteq> CHR 0x00) (haplotype self')"
    using r a
    by (auto simp: hapgen_get_haplotype_def bind_r_def word_less_1 split: sum.splits prod.splits if_splits)
  with r z l b show "\<exists>self' str. hapgen_get_haplotype self sample_id = Inr (self', str) \<and>
              haplotype self' ! hg_num_mutations self = CHR 0x00 \<and>
              str = takeWhile (\<lambda>c. c \<noteq> CHR 0x00) (haplotype self') \<and>
              length str = hg_num_mutations self \<and>
              (\<forall>s < hg_num_mutations self.
                 str ! s = (if hapgen_bit self (unat (sample_id - 1)) s then CHR ''1'' else CHR ''0''))"
    by blast
qed

theorem hapgen_get_haplotype_correct_witness:
  "hapgen_sized \<lparr>hg_sample_size = 2, hg_num_mutations = 3, hg_words_per_row = 1,
      haplotype_matrix = [5, 2], haplotype = replicate 65 (CHR ''x'')\<rparr> \<and>
   hapgen_get_haplotype \<lparr>hg_sample_size = 2, hg_num_mutations = 3, hg_words_per_row = 1,
      haplotype_matrix = [5, 2], haplotype = replicate 65 (CHR ''x'')\<rparr> 3
     = Inl (Error MSP_ERR_OUT_OF_BOUNDS) \<and>
   (\<exists>self'. hapgen_get_haplotype \<lparr>hg_sample_size = 2, hg_num_mutations = 3, hg_words_per_row = 1,
      haplotype_matrix = [5, 2], haplotype = replicate 65 (CHR ''x'')\<rparr> 1 = Inr (self', ''101''))"
proof -
  let ?h = "\<lparr>hg_sample_size = 2, hg_num_mutations = 3, hg_words_per_row = 1,
      haplotype_matrix = [5, 2 :: 64 word], haplotype = replicate 65 (CHR ''x'')\<rparr>"
  have s: "hapgen_sized ?h" by (simp add: hapgen_sized_def HG_WORD_SIZE_def)
  have e: "hapgen_get_haplotype ?h 3 = Inl (Error MSP_ERR_OUT_OF_BOUNDS)"
    using hapgen_get_haplotype_correct[OF s, of 3] by simp
  obtain self' str where r: "hapgen_get_haplotype ?h 1 = Inr (self', str)"
    and l: "length str = 3"
    and b: "\<forall>s < 3. str ! s = (if hapgen_bit ?h 0 s then CHR ''1'' else CHR ''0'')"
    using hapgen_get_haplotype_correct[OF s, of 1] by auto
  have "str ! 0 = CHR ''1''" "str ! 1 = CHR ''0''" "str ! 2 = CHR ''1''"
    using b by (simp_all add: hapgen_bit_def HG_WORD_SIZE_def)
  then have "str = ''101''" using l
    by (cases str; cases "tl str"; cases "tl (tl str)"; cases "tl (tl (tl str))") auto
  with s e r show ?thesis by blast
qed
subsection \<open>Legacy tree file header\<close>

lemma fread_header32:
  "20 \<le> length bs \<Longrightarrow> fread 20 \<lparr>bytes = bs, pos = 0\<rparr> = (Some (take 20 bs), \<lparr>bytes = bs, pos = 20\<rparr>)"
  by (simp add: fread_def)

lemma fread_header64:
  "28 \<le> length bs \<Longrightarrow> fread 8 \<lparr>bytes = bs, pos = 20\<rparr> = (Some (take 8 (drop 20 bs)), \<lparr>bytes = bs, pos = 28\<rparr>)"
  by (simp add: fread_def)

lemma take_drop_take20:
  "i < 5 \<Longrightarrow> take 4 (drop (4 * i) (take 20 bs)) = take 4 (drop (4 * i) bs)"
  by (simp add: drop_take min_def)

lemma read_info_header:
  assumes "28 \<le> length bs"
      and "tree_file_read_info p \<lparr>bytes = bs, pos = 0\<rparr> self = (st, self')"
  shows "(header_u32 (byte_order p) bs 0 \<noteq> MSP_TREE_FILE_MAGIC \<longrightarrow> st = Some MSP_ERR_FILE_FORMAT) \<and>
         (header_u32 (byte_order p) bs 0 = MSP_TREE_FILE_MAGIC \<and>
          header_u32 (byte_order p) bs 1 \<noteq> MSP_TREE_FILE_VERSION \<longrightarrow> st = Some MSP_ERR_FILE_VERSION) \<and>
         (header_u32 (byte_order p) bs 0 = MSP_TREE_FILE_MAGIC \<and>
          header_u32 (byte_order p) bs 1 = MSP_TREE_FILE_VERSION \<longrightarrow>
            tf_sample_size self' = header_u32 (byte_order p) bs 2 \<and>
            tf_num_loci self' = header_u32 (byte_order p) bs 3 \<and>
            tf_flags self' = header_u32 (byte_order p) bs 4 \<and>
            tf_metadata_offset self' = header_u64 (byte_order p) bs \<and>
            tf_coalescence_record_offset self' = 28)"
proof -
  have a: "fread 20 \<lparr>bytes = bs, pos = 0\<rparr> = (Some (take 20 bs), \<lparr>bytes = bs, pos = 20\<rparr>)"
    using assms(1) by (simp add: fread_header32)
  have b: "fread 8 \<lparr>bytes = bs, pos = 20\<rparr> = (Some (take 8 (drop 20 bs)), \<lparr>bytes = bs, pos = 28\<rparr>)"
    using assms(1) by (simp add: fread_header64)
  have h: "\<And>i. i < 5 \<Longrightarrow> uint_of_bytes (byte_order p) (take 4 (drop (4 * i) (take 20 bs))) = header_u32 (byte_order p) bs i"
    by (simp add: header_u32_def take_drop_take20)
  show ?thesis
    using assms(2) h[of 0] h[of 1] h[of 2] h[of 3] h[of 4]
    unfolding tree_file_read_info_def
    by (auto simp: a b Let_def header_u64_def ftell_def split: if_splits option.splits prod.splits)
qed


lemma open_modes_status:
  assumes "tree_file_read_info p \<lparr>bytes = bs, pos = 0\<rparr> self = (st0, self0)"
      and "files p filename = Some bs"
  shows "(st0 \<noteq> None \<longrightarrow> tree_file_open_read_mode p filename self = (st0, self0)) \<and>
         (st0 = None \<longrightarrow> (\<exists>st f. tree_file_open_read_mode p filename self = (st, self0\<lparr>tf_file := f\<rparr>)
                                  \<or> tree_file_open_read_mode p filename self = (st, self0))) \<and>
         tree_file_open_update_mode p filename self = (st0, self0)"
  using assms
  by (auto simp: tree_file_open_read_mode_def tree_file_open_update_mode_def
           split: option.splits)

text \<open>
  \<^bold>\<open>C8\<close>, as the code has it. A file opened in mode \<^verbatim>\<open>'r'\<close> or \<^verbatim>\<open>'u'\<close> that holds at
  least the 28 bytes of a header is decoded as five 32-bit words (magic, version,
  sample size, number of loci, flags) and one 64-bit word (metadata offset), in the byte
  order of the machine. The magic word is checked first: a magic word other than
  \<^verbatim>\<open>0xa52cd4a4\<close> gives \<^verbatim>\<open>MSP_ERR_FILE_FORMAT\<close>; with the right magic word, a version
  other than 1 gives \<^verbatim>\<open>MSP_ERR_FILE_VERSION\<close>; with both right, the four fields of the
  structure are the decoded words and the records start at offset 28.
\<close>

theorem tree_file_open_header:
  assumes "mode = CHR ''r'' \<or> mode = CHR ''u''"
      and "malloc_ok p (1 + length filename)"
      and "files p filename = Some bs"
      and "28 \<le> length bs"
      and "tree_file_open p filename mode = (st, self')"
  shows "(header_u32 (byte_order p) bs 0 \<noteq> MSP_TREE_FILE_MAGIC \<longrightarrow> st = Some MSP_ERR_FILE_FORMAT) \<and>
         (header_u32 (byte_order p) bs 0 = MSP_TREE_FILE_MAGIC \<and>
          header_u32 (byte_order p) bs 1 \<noteq> MSP_TREE_FILE_VERSION \<longrightarrow> st = Some MSP_ERR_FILE_VERSION) \<and>
         (header_u32 (byte_order p) bs 0 = MSP_TREE_FILE_MAGIC \<and>
          header_u32 (byte_order p) bs 1 = MSP_TREE_FILE_VERSION \<longrightarrow>
            tf_sample_size self' = header_u32 (byte_order p) bs 2 \<and>
            tf_num_loci self' = header_u32 (byte_order p) bs 3 \<and>
            tf_flags self' = header_u32 (byte_order p) bs 4 \<and>
            tf_metadata_offset self' = header_u64 (byte_order p) bs \<and>
            tf_coalescence_record_offset self' = 28)"
proof -
  let ?self = "tree_file_zero\<lparr>tf_filename := Some filename, tf_mode := mode\<rparr>"
  obtain st0 self0 where r: "tree_file_read_info p \<lparr>bytes = bs, pos = 0\<rparr> ?self = (st0, self0)"
    by (cases "tree_file_read_info p \<lparr>bytes = bs, pos = 0\<rparr> ?self") blast
  note h = read_info_header[OF assms(4) r]
  note m = open_modes_status[OF r assms(3)]
  have o: "tree_file_open p filename mode =
             (if mode = CHR ''r'' then tree_file_open_read_mode p filename ?self
              else tree_file_open_update_mode p filename ?self)"
    using assms(1,2) by (auto simp: tree_file_open_def Let_def)
  show ?thesis
  proof (cases "mode = CHR ''r''")
    case False
    then have "st = st0" "self' = self0" using o m assms(5) by auto
    then show ?thesis using h by simp
  next
    case True
    show ?thesis
    proof (cases st0)
      case (Some e)
      then have "st = st0" "self' = self0" using o m True assms(5) by auto
      then show ?thesis using h by simp
    next
      case None
      then have ok: "header_u32 (byte_order p) bs 0 = MSP_TREE_FILE_MAGIC"
        "header_u32 (byte_order p) bs 1 = MSP_TREE_FILE_VERSION"
        using h by auto
      from None m o True assms(5)
      have "(\<exists>f. self' = self0\<lparr>tf_file := f\<rparr>) \<or> self' = self0" by auto
      then show ?thesis using h ok by auto
    qed
  qed
qed

theorem tree_file_open_header_witness:
  "malloc_ok \<lparr>byte_order = Little, malloc_ok = (\<lambda>n. True),
       files = (\<lambda>n. if n = ''t'' then Some [0xa4, 0xd4, 0x2c, 0xa5, 1, 0, 0, 0, 3, 0, 0, 0, 7, 0, 0, 0,
                                              3, 0, 0, 0, 28, 0, 0, 0, 0, 0, 0, 0, 0x7b, 0x7d] else None),
       writable = (\<lambda>n. False),
       h5_files = (\<lambda>n. None), MSP_FILE_FORMAT_VERSION_MAJOR = 1, MSP_FILE_FORMAT_VERSION_MINOR = 0\<rparr> (1 + length ''t'') \<and>
   tf_sample_size (snd (tree_file_open \<lparr>byte_order = Little, malloc_ok = (\<lambda>n. True),
       files = (\<lambda>n. if n = ''t'' then Some [0xa4, 0xd4, 0x2c, 0xa5, 1, 0, 0, 0, 3, 0, 0, 0, 7, 0, 0, 0,
                                              3, 0, 0, 0, 28, 0, 0, 0, 0, 0, 0, 0, 0x7b, 0x7d] else None),
       writable = (\<lambda>n. False),
       h5_files = (\<lambda>n. None), MSP_FILE_FORMAT_VERSION_MAJOR = 1, MSP_FILE_FORMAT_VERSION_MINOR = 0\<rparr> ''t'' (CHR ''r''))) = 3 \<and>
   tf_num_loci (snd (tree_file_open \<lparr>byte_order = Little, malloc_ok = (\<lambda>n. True),
       files = (\<lambda>n. if n = ''t'' then Some [0xa4, 0xd4, 0x2c, 0xa5, 1, 0, 0, 0, 3, 0, 0, 0, 7, 0, 0, 0,
                                              3, 0, 0, 0, 28, 0, 0, 0, 0, 0, 0, 0, 0x7b, 0x7d] else None),
       writable = (\<lambda>n. False),
       h5_files = (\<lambda>n. None), MSP_FILE_FORMAT_VERSION_MAJOR = 1, MSP_FILE_FORMAT_VERSION_MINOR = 0\<rparr> ''t'' (CHR ''r''))) = 7 \<and>
   tf_metadata_offset (snd (tree_file_open \<lparr>byte_order = Little, malloc_ok = (\<lambda>n. True),
       files = (\<lambda>n. if n = ''t'' then Some [0xa4, 0xd4, 0x2c, 0xa5, 1, 0, 0, 0, 3, 0, 0, 0, 7, 0, 0, 0,
                                              3, 0, 0, 0, 28, 0, 0, 0, 0, 0, 0, 0, 0x7b, 0x7d] else None),
       writable = (\<lambda>n. False),
       h5_files = (\<lambda>n. None), MSP_FILE_FORMAT_VERSION_MAJOR = 1, MSP_FILE_FORMAT_VERSION_MINOR = 0\<rparr> ''t'' (CHR ''r''))) = 28"
proof -
  let ?bs = "[0xa4, 0xd4, 0x2c, 0xa5, 1, 0, 0, 0, 3, 0, 0, 0, 7, 0, 0, 0,
           3, 0, 0, 0, 28, 0, 0, 0, 0, 0, 0, 0, 0x7b, 0x7d] :: 8 word list"
  let ?p = "\<lparr>byte_order = Little, malloc_ok = (\<lambda>n::nat. True),
          files = (\<lambda>n. if n = ''t'' then Some ?bs else None), writable = (\<lambda>n::string. False),
       h5_files = (\<lambda>n. None), MSP_FILE_FORMAT_VERSION_MAJOR = 1, MSP_FILE_FORMAT_VERSION_MINOR = 0\<rparr>"
  have 1: "CHR ''r'' = CHR ''r'' \<or> CHR ''r'' = CHR ''u''" by simp
  have 2: "malloc_ok ?p (1 + length ''t'')" by simp
  have 3: "files ?p ''t'' = Some ?bs" by simp
  have 4: "28 \<le> length ?bs" by simp
  have 5: "tree_file_open ?p ''t'' (CHR ''r'')
           = (fst (tree_file_open ?p ''t'' (CHR ''r'')), snd (tree_file_open ?p ''t'' (CHR ''r'')))"
    by simp
  have e: "byte_order ?p = Little" by simp
  have h: "header_u32 Little ?bs 0 = MSP_TREE_FILE_MAGIC" "header_u32 Little ?bs 1 = MSP_TREE_FILE_VERSION"
    "header_u32 Little ?bs 2 = 3" "header_u32 Little ?bs 3 = 7" "header_u64 Little ?bs = 28"
    by (simp_all add: header_u32_def header_u64_def uint_of_bytes_def word_rcat_def
          MSP_TREE_FILE_MAGIC_def MSP_TREE_FILE_VERSION_def)
  from tree_file_open_header[OF 1 2 3 4 5]
  have "tf_sample_size (snd (tree_file_open ?p ''t'' (CHR ''r''))) = 3 \<and>
        tf_num_loci (snd (tree_file_open ?p ''t'' (CHR ''r''))) = 7 \<and>
        tf_metadata_offset (snd (tree_file_open ?p ''t'' (CHR ''r''))) = 28"
    unfolding e using h by simp
  with 2 show ?thesis by blast
qed

text \<open>
  The claim as it is written fails for a header whose magic word and version are both
  wrong: the version differs from 1, and the error is \<^verbatim>\<open>MSP_ERR_FILE_FORMAT\<close>.
\<close>

theorem tree_file_open_version_counterexample:
  "header_u32 Little 
      [0, 0, 0, 0, 0, 0, 0, 0, 0, 0, 0, 0, 0, 0, 0, 0, 0, 0, 0, 0, 0, 0, 0, 0, 0, 0, 0, 0] 1 \<noteq> MSP_TREE_FILE_VERSION \<and>
   fst (tree_file_open \<lparr>byte_order = Little, malloc_ok = (\<lambda>n. True),
          files = (\<lambda>n. if n = ''t'' then Some 
      [0, 0, 0, 0, 0, 0, 0, 0, 0, 0, 0, 0, 0, 0, 0, 0, 0, 0, 0, 0, 0, 0, 0, 0, 0, 0, 0, 0] else None),
          writable = (\<lambda>n. False),
       h5_files = (\<lambda>n. None), MSP_FILE_FORMAT_VERSION_MAJOR = 1, MSP_FILE_FORMAT_VERSION_MINOR = 0\<rparr> ''t'' (CHR ''r'')) = Some MSP_ERR_FILE_FORMAT \<and>
   fst (tree_file_open \<lparr>byte_order = Little, malloc_ok = (\<lambda>n. True),
          files = (\<lambda>n. if n = ''t'' then Some 
      [0, 0, 0, 0, 0, 0, 0, 0, 0, 0, 0, 0, 0, 0, 0, 0, 0, 0, 0, 0, 0, 0, 0, 0, 0, 0, 0, 0] else None),
          writable = (\<lambda>n. False),
       h5_files = (\<lambda>n. None), MSP_FILE_FORMAT_VERSION_MAJOR = 1, MSP_FILE_FORMAT_VERSION_MINOR = 0\<rparr> ''t'' (CHR ''r'')) \<noteq> Some MSP_ERR_FILE_VERSION"
  by (simp add: tree_file_open_def tree_file_open_read_mode_def tree_file_read_info_def
        fread_def header_u32_def uint_of_bytes_def word_rcat_def Let_def tree_file_zero_def
        MSP_TREE_FILE_MAGIC_def MSP_TREE_FILE_VERSION_def)
subsection \<open>Setting mutations\<close>

lemma mutation_bad_cleared:
  "mutation_bad (self\<lparr>num_mutations := a, mutations_position := b, mutations_node := c,
                       mutations_parameters := d, mutations_environment := e\<rparr>)
   = mutation_bad self"
  by (rule ext) (simp add: mutation_bad_def)

lemma set_mutations_cases:
  assumes "malloc_ok p (length mutations * 8)" "malloc_ok p (length mutations * 4)"
  shows "tree_sequence_set_mutations p self mutations =
           (let self0 = self\<lparr>num_mutations := 0, mutations_position := [], mutations_node := [],
                        mutations_parameters := None, mutations_environment := None\<rparr>
            in if list_ex (mutation_bad self) mutations then (Some MSP_ERR_BAD_MUTATION, self0)
               else (None, self0\<lparr>num_mutations := length mutations,
                               mutations_node := map mut_node (qsort cmp_mutation mutations),
                               mutations_position := map mut_position (qsort cmp_mutation mutations)\<rparr>))"
  using assms
  by (cases mutations) (simp_all add: tree_sequence_set_mutations_def Let_def mutation_bad_cleared qsort_def)

text \<open>
  \<^bold>\<open>C6.\<close> When the allocations of the call succeed, \<^verbatim>\<open>tree_sequence_set_mutations\<close>
  returns \<^verbatim>\<open>MSP_ERR_BAD_MUTATION\<close> if and only if some supplied mutation has
  \<open>position < 0\<close>, \<open>position > num_loci\<close>, \<open>node = 0\<close> or \<open>node > num_nodes\<close>. When every
  mutation is valid it returns 0, and the stored columns hold the supplied mutations
  (each position with its node, as many times as it was supplied) in ascending order of
  position.
\<close>

theorem tree_sequence_set_mutations_checks:
  assumes "malloc_ok p (length mutations * 8)" and "malloc_ok p (length mutations * 4)"
      and "tree_sequence_set_mutations p self mutations = (st, self')"
  shows "((st = Some MSP_ERR_BAD_MUTATION) =
            (\<exists>m \<in> set mutations.
                mut_position m < 0 \<or> mut_position m > real (unat (num_loci self)) \<or>
                mut_node m = 0 \<or> mut_node m > num_nodes self)) \<and>
         ((\<forall>m \<in> set mutations.
              \<not> (mut_position m < 0 \<or> mut_position m > real (unat (num_loci self)) \<or>
                 mut_node m = 0 \<or> mut_node m > num_nodes self)) \<longrightarrow>
            st = None \<and>
            num_mutations self' = length mutations \<and>
            length (mutations_position self') = length mutations \<and>
            length (mutations_node self') = length mutations \<and>
            sorted (mutations_position self') \<and>
            mset (zip (mutations_position self') (mutations_node self'))
              = mset (map (\<lambda>m. (mut_position m, mut_node m)) mutations))"
proof -
  let ?bad = "\<exists>m \<in> set mutations.
                mut_position m < 0 \<or> mut_position m > real (unat (num_loci self)) \<or>
                mut_node m = 0 \<or> mut_node m > num_nodes self"
  have b: "list_ex (mutation_bad self) mutations = ?bad"
    by (simp add: list_ex_iff mutation_bad_def)
  note c = set_mutations_cases[OF assms(1,2), of self]
  show ?thesis
  proof (cases ?bad)
    case True
    then have "st = Some MSP_ERR_BAD_MUTATION"
      using c b assms(3) by (simp add: Let_def)
    then show ?thesis using True by blast
  next
    case False
    let ?s = "qsort cmp_mutation mutations"
    have r: "st = None" "num_mutations self' = length mutations"
      "mutations_node self' = map mut_node ?s" "mutations_position self' = map mut_position ?s"
      using c b False assms(3) by (auto simp: Let_def)
    have "sorted_wrt (\<lambda>a b. mut_position a \<le> mut_position b) ?s"
      using sorted_qsort[OF cmp_mutation_total, of mutations] by (simp add: cmp_mutation_le)
    then have s: "sorted (map mut_position ?s)" by (simp add: sorted_map)
    have "zip (map mut_position ?s) (map mut_node ?s) = map (\<lambda>m. (mut_position m, mut_node m)) ?s"
      by (simp add: zip_map_map zip_same_conv_map)
    then have m: "mset (zip (map mut_position ?s) (map mut_node ?s))
                  = mset (map (\<lambda>m. (mut_position m, mut_node m)) mutations)"
      by simp
    show ?thesis using False r s m by simp
  qed
qed

theorem tree_sequence_set_mutations_checks_witness:
  "malloc_ok example_platform (length [\<lparr>mut_position = 7, mut_node = 2\<rparr>, \<lparr>mut_position = 3, mut_node = 5\<rparr>] * 8) \<and>
   malloc_ok example_platform (length [\<lparr>mut_position = 7, mut_node = 2\<rparr>, \<lparr>mut_position = 3, mut_node = 5\<rparr>] * 4) \<and>
   fst (tree_sequence_set_mutations example_platform example_ts
          [\<lparr>mut_position = 7, mut_node = 2\<rparr>, \<lparr>mut_position = 3, mut_node = 5\<rparr>]) = None \<and>
   sorted (mutations_position (snd (tree_sequence_set_mutations example_platform example_ts
          [\<lparr>mut_position = 7, mut_node = 2\<rparr>, \<lparr>mut_position = 3, mut_node = 5\<rparr>]))) \<and>
   fst (tree_sequence_set_mutations example_platform example_ts
          [\<lparr>mut_position = 7, mut_node = 2\<rparr>, \<lparr>mut_position = 3, mut_node = 9\<rparr>]) = Some MSP_ERR_BAD_MUTATION"
proof -
  let ?ok = "[\<lparr>mut_position = 7, mut_node = 2\<rparr>, \<lparr>mut_position = 3, mut_node = 5\<rparr>]"
  let ?ko = "[\<lparr>mut_position = 7, mut_node = 2\<rparr>, \<lparr>mut_position = 3, mut_node = 9\<rparr>]"
  have 1: "malloc_ok example_platform (length ?ok * 8)" and 2: "malloc_ok example_platform (length ?ok * 4)"
    and 3: "malloc_ok example_platform (length ?ko * 8)" and 4: "malloc_ok example_platform (length ?ko * 4)"
    by (simp_all add: example_platform_def)
  have a: "fst (tree_sequence_set_mutations example_platform example_ts ?ok) = None \<and>
           sorted (mutations_position (snd (tree_sequence_set_mutations example_platform example_ts ?ok)))"
    using tree_sequence_set_mutations_checks[OF 1 2 surjective_pairing]
    by (simp add: example_ts_def)
  have b: "fst (tree_sequence_set_mutations example_platform example_ts ?ko) = Some MSP_ERR_BAD_MUTATION"
    using tree_sequence_set_mutations_checks[OF 3 4 surjective_pairing]
    by (simp add: example_ts_def)
  from 1 2 a b show ?thesis by blast
qed

text \<open>
  \<^bold>\<open>C9.\<close> \<^verbatim>\<open>tree_sequence_set_mutations\<close> clears the stored mutations before it looks at
  the new ones: after a call that returns \<^verbatim>\<open>MSP_ERR_BAD_MUTATION\<close> the tree sequence holds
  no mutation (count 0, no column cell, no parameters or environment text), whatever it
  held before.
\<close>

theorem tree_sequence_set_mutations_not_atomic:
  assumes "tree_sequence_set_mutations p self mutations = (Some MSP_ERR_BAD_MUTATION, self')"
  shows "num_mutations self' = 0 \<and> mutations_node self' = [] \<and> mutations_position self' = [] \<and>
         mutations_parameters self' = None \<and> mutations_environment self' = None"
  using assms
  by (auto simp: tree_sequence_set_mutations_def Let_def split: if_splits)

theorem tree_sequence_set_mutations_not_atomic_witness:
  "num_mutations (example_ts\<lparr>num_mutations := 1, mutations_node := [2], mutations_position := [3]\<rparr>) = 1 \<and>
   fst (tree_sequence_set_mutations example_platform
          (example_ts\<lparr>num_mutations := 1, mutations_node := [2], mutations_position := [3]\<rparr>)
          [\<lparr>mut_position = - 1, mut_node = 2\<rparr>]) = Some MSP_ERR_BAD_MUTATION \<and>
   num_mutations (snd (tree_sequence_set_mutations example_platform
          (example_ts\<lparr>num_mutations := 1, mutations_node := [2], mutations_position := [3]\<rparr>)
          [\<lparr>mut_position = - 1, mut_node = 2\<rparr>])) = 0 \<and>
   mutations_node (snd (tree_sequence_set_mutations example_platform
          (example_ts\<lparr>num_mutations := 1, mutations_node := [2], mutations_position := [3]\<rparr>)
          [\<lparr>mut_position = - 1, mut_node = 2\<rparr>])) = []"
proof -
  let ?ts = "example_ts\<lparr>num_mutations := 1, mutations_node := [2], mutations_position := [3]\<rparr>"
  let ?ms = "[\<lparr>mut_position = - 1, mut_node = 2\<rparr>]"
  have e: "fst (tree_sequence_set_mutations example_platform ?ts ?ms) = Some MSP_ERR_BAD_MUTATION"
    by (simp add: tree_sequence_set_mutations_def example_platform_def mutation_bad_def Let_def)
  then have "tree_sequence_set_mutations example_platform ?ts ?ms
             = (Some MSP_ERR_BAD_MUTATION, snd (tree_sequence_set_mutations example_platform ?ts ?ms))"
    by (metis surjective_pairing)
  from tree_sequence_set_mutations_not_atomic[OF this] e show ?thesis
    by (simp add: example_ts_def)
qed

subsection \<open>Index permutations\<close>

lemma map_r_Inr:
  "map_r f xs = Inr ys \<Longrightarrow> list_all2 (\<lambda>x y. f x = Inr y) xs ys"
proof (induction xs arbitrary: ys)
  case Nil
  then show ?case by simp
next
  case (Cons x xs)
  then show ?case
    by (auto simp: bind_r_def split: sum.splits)
qed

lemma map_r_total:
  "\<forall>x \<in> set xs. f x = Inr (g x) \<Longrightarrow> map_r f xs = Inr (map g xs)"
  by (induction xs) simp_all

lemma sort_buff_Inr:
  assumes "map_r (\<lambda>j. bind_r (rd vals j) (\<lambda>v. bind_r (rd tms j) (\<lambda>t.
              Inr \<lparr>is_value = v, is_index = word_of_nat j, is_time = g t\<rparr>))) [0..<n] = Inr buff"
  shows "n \<le> length vals \<and> n \<le> length tms \<and> buff = map (sort_entry vals (map g tms)) [0..<n]"
proof -
  let ?f = "\<lambda>j. bind_r (rd vals j) (\<lambda>v. bind_r (rd tms j) (\<lambda>t.
              Inr \<lparr>is_value = v, is_index = word_of_nat j, is_time = g t\<rparr>))"
  have a: "list_all2 (\<lambda>x y. ?f x = Inr y) [0..<n] buff" using map_r_Inr[OF assms] .
  then have len: "length buff = n" by (auto dest: list_all2_lengthD)
  have each: "j < length vals \<and> j < length tms \<and> buff ! j = sort_entry vals (map g tms) j"
    if "j < n" for j
  proof -
    have "?f j = Inr (buff ! j)" using a that len by (auto simp: list_all2_conv_all_nth)
    then show ?thesis
      by (auto simp: rd_def bind_r_def sort_entry_def split: if_splits)
  qed
  have "n \<le> length vals" using each[of "n - 1"] by (cases n) auto
  moreover have "n \<le> length tms" using each[of "n - 1"] by (cases n) auto
  moreover have "buff = map (sort_entry vals (map g tms)) [0..<n]"
    using each len by (auto intro!: nth_equalityI)
  ultimately show ?thesis by blast
qed

lemma sorted_index_column:
  assumes n: "n < 2 ^ 32" "n \<le> length vals" "n \<le> length tms"
  defines "ord \<equiv> map (unat \<circ> is_index) (qsort cmp_index_sort (map (sort_entry vals tms) [0..<n]))"
  shows "mset ord = mset [0..<n]"
    and "sorted_wrt (\<lambda>a b. vals ! a < vals ! b \<or> (vals ! a = vals ! b \<and> tms ! a \<le> tms ! b)) ord"
proof -
  let ?buff = "map (sort_entry vals tms) [0..<n]"
  let ?s = "qsort cmp_index_sort ?buff"
  have u: "unat (word_of_nat j :: 32 word) = j" if "j < n" for j
    using that n(1) by (simp add: unat_of_nat take_bit_nat_eq_self)
  have l: "map (unat \<circ> is_index) ?buff = [0..<n]"
    by (rule nth_equalityI) (simp_all add: sort_entry_def u)
  have "mset ord = mset (map (unat \<circ> is_index) ?buff)"
    unfolding ord_def by (simp only: mset_map mset_qsort)
  then show "mset ord = mset [0..<n]" by (simp only: l)
  have ent: "is_value e = vals ! unat (is_index e) \<and> is_time e = tms ! unat (is_index e)"
    if "e \<in> set ?s" for e
  proof -
    from that obtain j where "j < n" "e = sort_entry vals tms j" by auto
    then show ?thesis using u[of j] by (simp add: sort_entry_def)
  qed
  have "sorted_wrt (\<lambda>a b. cmp_index_sort a b \<le> 0) ?s"
    by (rule sorted_qsort[OF cmp_index_sort_total])
  then have "sorted_wrt (\<lambda>a b. vals ! unat (is_index a) < vals ! unat (is_index b) \<or>
                 (vals ! unat (is_index a) = vals ! unat (is_index b) \<and>
                  tms ! unat (is_index a) \<le> tms ! unat (is_index b))) ?s"
  proof (rule sorted_wrt_mono_rel[rotated])
    fix a b assume "a \<in> set ?s" "b \<in> set ?s" "cmp_index_sort a b \<le> 0"
    then show "vals ! unat (is_index a) < vals ! unat (is_index b) \<or>
                 (vals ! unat (is_index a) = vals ! unat (is_index b) \<and>
                  tms ! unat (is_index a) \<le> tms ! unat (is_index b))"
      using ent[of a] ent[of b] by (simp add: cmp_index_sort_le)
  qed
  then show "sorted_wrt (\<lambda>a b. vals ! a < vals ! b \<or> (vals ! a = vals ! b \<and> tms ! a \<le> tms ! b)) ord"
    unfolding ord_def by (simp add: sorted_wrt_map)
qed


lemma make_indexes_Inr:
  assumes "tree_sequence_make_indexes p ts = Inr ts'"
  shows "0 < num_records ts" "num_records ts < 2 ^ 32"
    "num_records ts \<le> length (trees_left ts)" "num_records ts \<le> length (trees_right ts)"
    "num_records ts \<le> length (trees_time ts)" "num_records ts \<le> length (trees_node ts)"
    "ts' = ts\<lparr>trees_insertion_order :=
                  map is_index (qsort cmp_index_sort
                    (map (sort_entry (trees_left ts) (trees_time ts)) [0..<num_records ts])),
                trees_removal_order :=
                  map is_index (qsort cmp_index_sort
                    (map (sort_entry (trees_right ts) (map uminus (trees_time ts))) [0..<num_records ts])),
                num_nodes := trees_node ts ! (num_records ts - 1)\<rparr>"
proof -
  let ?n = "num_records ts"
  let ?f = "\<lambda>vals g j. bind_r (rd vals j) (\<lambda>v. bind_r (rd (trees_time ts) j) (\<lambda>t.
              Inr \<lparr>is_value = v, is_index = word_of_nat j, is_time = g t\<rparr>))"
  from assms have lt: "?n < 2 ^ 32"
    by (auto simp: tree_sequence_make_indexes_def split: if_splits)
  from assms obtain b1 where b1: "map_r (?f (trees_left ts) (\<lambda>t. t)) [0..<?n] = Inr b1"
    and r1: "bind_r (map_r (?f (trees_right ts) uminus) [0..<?n]) (\<lambda>sort_buff.
        let removal_order = map is_index (qsort cmp_index_sort sort_buff) in
        bind_r (if ?n = 0 then Inl Out_of_range else rd (trees_node ts) (?n - 1)) (\<lambda>n.
        Inr (ts\<lparr>trees_insertion_order := map is_index (qsort cmp_index_sort b1),
                     trees_removal_order := removal_order,
                     num_nodes := n\<rparr>))) = Inr ts'"
    by (auto simp: tree_sequence_make_indexes_def bind_r_def Let_def split: if_splits sum.splits)
  from r1 obtain b2 where b2: "map_r (?f (trees_right ts) uminus) [0..<?n] = Inr b2"
    and r2: "bind_r (if ?n = 0 then Inl Out_of_range else rd (trees_node ts) (?n - 1)) (\<lambda>n.
        Inr (ts\<lparr>trees_insertion_order := map is_index (qsort cmp_index_sort b1),
                     trees_removal_order := map is_index (qsort cmp_index_sort b2),
                     num_nodes := n\<rparr>)) = Inr ts'"
    by (auto simp: bind_r_def Let_def split: sum.splits)
  from r2 have pos: "0 < ?n" and nl: "?n \<le> length (trees_node ts)"
    and t: "ts' = ts\<lparr>trees_insertion_order := map is_index (qsort cmp_index_sort b1),
                     trees_removal_order := map is_index (qsort cmp_index_sort b2),
                     num_nodes := trees_node ts ! (?n - 1)\<rparr>"
    by (auto simp: bind_r_def rd_def split: if_splits)
  note s1 = sort_buff_Inr[OF b1] and s2 = sort_buff_Inr[OF b2]
  show "0 < ?n" "?n < 2 ^ 32" "?n \<le> length (trees_left ts)" "?n \<le> length (trees_right ts)"
    "?n \<le> length (trees_time ts)" "?n \<le> length (trees_node ts)"
    using pos lt s1 s2 nl by auto
  show "ts' = ts\<lparr>trees_insertion_order :=
                  map is_index (qsort cmp_index_sort
                    (map (sort_entry (trees_left ts) (trees_time ts)) [0..<?n])),
                trees_removal_order :=
                  map is_index (qsort cmp_index_sort
                    (map (sort_entry (trees_right ts) (map uminus (trees_time ts))) [0..<?n])),
                num_nodes := trees_node ts ! (?n - 1)\<rparr>"
    using t s1 s2 by simp
qed

lemma make_indexes_sorted:
  assumes "tree_sequence_make_indexes p ts = Inr ts'"
  shows "mset (map unat (trees_insertion_order ts')) = mset [0..<num_records ts]"
    and "sorted_wrt (\<lambda>a b. trees_left ts ! a < trees_left ts ! b \<or>
              (trees_left ts ! a = trees_left ts ! b \<and> trees_time ts ! a \<le> trees_time ts ! b))
           (map unat (trees_insertion_order ts'))"
    and "mset (map unat (trees_removal_order ts')) = mset [0..<num_records ts]"
    and "sorted_wrt (\<lambda>a b. trees_right ts ! a < trees_right ts ! b \<or>
              (trees_right ts ! a = trees_right ts ! b \<and> trees_time ts ! b \<le> trees_time ts ! a))
           (map unat (trees_removal_order ts'))"
proof -
  let ?n = "num_records ts"
  note m = make_indexes_Inr[OF assms]
  have io: "map unat (trees_insertion_order ts')
            = map (unat \<circ> is_index) (qsort cmp_index_sort
                    (map (sort_entry (trees_left ts) (trees_time ts)) [0..<?n]))"
    and ro: "map unat (trees_removal_order ts')
            = map (unat \<circ> is_index) (qsort cmp_index_sort
                    (map (sort_entry (trees_right ts) (map uminus (trees_time ts))) [0..<?n]))"
    by (simp_all add: m(7))
  show "mset (map unat (trees_insertion_order ts')) = mset [0..<?n]"
    unfolding io using sorted_index_column(1)[OF m(2) m(3) m(5)] .
  show "sorted_wrt (\<lambda>a b. trees_left ts ! a < trees_left ts ! b \<or>
              (trees_left ts ! a = trees_left ts ! b \<and> trees_time ts ! a \<le> trees_time ts ! b))
           (map unat (trees_insertion_order ts'))"
    unfolding io using sorted_index_column(2)[OF m(2) m(3) m(5)] .
  have l: "?n \<le> length (map uminus (trees_time ts))" using m(5) by simp
  show rm: "mset (map unat (trees_removal_order ts')) = mset [0..<?n]"
    unfolding ro using sorted_index_column(1)[OF m(2) m(4) l] .
  have "sorted_wrt (\<lambda>a b. trees_right ts ! a < trees_right ts ! b \<or>
              (trees_right ts ! a = trees_right ts ! b \<and>
               map uminus (trees_time ts) ! a \<le> map uminus (trees_time ts) ! b))
           (map unat (trees_removal_order ts'))"
    unfolding ro using sorted_index_column(2)[OF m(2) m(4) l] .
  then show "sorted_wrt (\<lambda>a b. trees_right ts ! a < trees_right ts ! b \<or>
              (trees_right ts ! a = trees_right ts ! b \<and> trees_time ts ! b \<le> trees_time ts ! a))
           (map unat (trees_removal_order ts'))"
  proof (rule sorted_wrt_mono_rel[rotated])
    fix a b
    assume a: "a \<in> set (map unat (trees_removal_order ts'))"
       and b: "b \<in> set (map unat (trees_removal_order ts'))"
       and h: "trees_right ts ! a < trees_right ts ! b \<or>
              (trees_right ts ! a = trees_right ts ! b \<and>
               map uminus (trees_time ts) ! a \<le> map uminus (trees_time ts) ! b)"
    have "set (map unat (trees_removal_order ts')) = set [0..<?n]"
      using rm by (metis set_mset_mset)
    then have "a < length (trees_time ts)" "b < length (trees_time ts)"
      using a b m(5) by auto
    then show "trees_right ts ! a < trees_right ts ! b \<or>
              (trees_right ts ! a = trees_right ts ! b \<and> trees_time ts ! b \<le> trees_time ts ! a)"
      using h by simp
  qed
qed

lemma make_indexes_indexes_sorted:
  assumes "tree_sequence_make_indexes p ts = Inr ts'"
  shows "indexes_sorted ts'"
proof -
  note m = make_indexes_Inr(7)[OF assms]
  have c: "trees_left ts' = trees_left ts" "trees_right ts' = trees_right ts"
    "trees_time ts' = trees_time ts" "num_records ts' = num_records ts"
    by (simp_all add: m)
  show ?thesis
    unfolding indexes_sorted_def c
    using make_indexes_sorted[OF assms] by blast
qed

lemma indexes_sorted_provenance [simp]:
  "indexes_sorted (ts\<lparr>trees_environment := e\<rparr>) = indexes_sorted ts"
  "indexes_sorted (ts\<lparr>trees_parameters := q\<rparr>) = indexes_sorted ts"
  by (simp_all add: indexes_sorted_def)

lemma create_indexes_sorted:
  assumes "malloc_ok p (msp_num_coalescence_records sim * 32)"
      and "tree_sequence_create p env sim = Inr ts"
  shows "indexes_sorted ts"
proof -
  from assms obtain ts0 ts1 e q where "tree_sequence_make_indexes p ts0 = Inr ts1"
    and "ts = ts1\<lparr>trees_environment := Some e, trees_parameters := Some q\<rparr>"
    by (auto simp: tree_sequence_create_def tree_sequence_alloc_def Let_def bind_r_def
             split: if_splits sum.splits)
  then show ?thesis using make_indexes_indexes_sorted by simp
qed

lemma load_indexes_sorted:
  assumes "tree_sequence_load p filename flags = Inr ts"
  shows "indexes_sorted ts"
proof -
  from assms obtain ts0 where "tree_sequence_make_indexes p ts0 = Inr ts"
    by (auto simp: tree_sequence_load_def Let_def bind_r_def split: option.splits sum.splits)
  then show ?thesis by (rule make_indexes_indexes_sorted)
qed

lemma upt_0_4: "[0..<4] = [0, 1, 2, Suc 2]"
  by (simp add: upt_rec numeral_eq_Suc)

lemma example_create:
  "tree_sequence_create example_platform (Inr ''{}'') example_msp = Inr example_ts"
  by (simp add: tree_sequence_create_def tree_sequence_alloc_def tree_sequence_make_indexes_def
        example_platform_def example_msp_def example_records_def example_ts_def tree_sequence_zero_def
        Let_def rd_def qsort_def cmp_index_sort_def upt_0_4)

text \<open>
  A tree sequence that \<^verbatim>\<open>tree_sequence_load\<close> returns, or that \<^verbatim>\<open>tree_sequence_create\<close>
  returns after the buffer for the simulator's records has been allocated, has both index
  columns sorted: \<^verbatim>\<open>insertion_order\<close> is a permutation of the record indices in ascending
  order of \<open>left\<close>, ties in ascending order of \<open>time\<close>; \<^verbatim>\<open>removal_order\<close> is a permutation
  of the record indices in ascending order of \<open>right\<close>, ties in descending order of \<open>time\<close>.
\<close>

lemma index_orders_sorted_allocated:
  assumes "(malloc_ok p (msp_num_coalescence_records sim * 32) \<and>
            tree_sequence_create p env sim = Inr ts) \<or>
           tree_sequence_load p filename flags = Inr ts"
  shows "mset (map unat (trees_insertion_order ts)) = mset [0..<num_records ts] \<and>
         sorted_wrt (\<lambda>a b. trees_left ts ! a < trees_left ts ! b \<or>
                      (trees_left ts ! a = trees_left ts ! b \<and> trees_time ts ! a \<le> trees_time ts ! b))
           (map unat (trees_insertion_order ts)) \<and>
         mset (map unat (trees_removal_order ts)) = mset [0..<num_records ts] \<and>
         sorted_wrt (\<lambda>a b. trees_right ts ! a < trees_right ts ! b \<or>
                      (trees_right ts ! a = trees_right ts ! b \<and> trees_time ts ! b \<le> trees_time ts ! a))
           (map unat (trees_removal_order ts))"
proof -
  have "indexes_sorted ts"
    using assms create_indexes_sorted load_indexes_sorted by blast
  then show ?thesis by (simp add: indexes_sorted_def)
qed

lemma example_index_orders:
  "malloc_ok example_platform (msp_num_coalescence_records example_msp * 32) \<and>
   tree_sequence_create example_platform (Inr ''{}'') example_msp = Inr example_ts \<and>
   map unat (trees_insertion_order example_ts) = [0, 2, 1, 3] \<and>
   map unat (trees_removal_order example_ts) = [2, 0, 3, 1] \<and>
   sorted_wrt (\<lambda>a b. trees_left example_ts ! a < trees_left example_ts ! b \<or>
                      (trees_left example_ts ! a = trees_left example_ts ! b \<and>
                       trees_time example_ts ! a \<le> trees_time example_ts ! b)) [0, 2, 1, 3] \<and>
   sorted_wrt (\<lambda>a b. trees_right example_ts ! a < trees_right example_ts ! b \<or>
                      (trees_right example_ts ! a = trees_right example_ts ! b \<and>
                       trees_time example_ts ! b \<le> trees_time example_ts ! a)) [2, 0, 3, 1]"
proof -
  have m: "malloc_ok example_platform (msp_num_coalescence_records example_msp * 32)"
    by (simp add: example_platform_def)
  have io: "map unat (trees_insertion_order example_ts) = [0, 2, 1, 3]"
    and ro: "map unat (trees_removal_order example_ts) = [2, 0, 3, 1]"
    by (simp_all add: example_ts_def)
  have h: "(malloc_ok example_platform (msp_num_coalescence_records example_msp * 32) \<and>
            tree_sequence_create example_platform (Inr ''{}'') example_msp = Inr example_ts) \<or>
           tree_sequence_load example_platform ''f'' 0 = Inr example_ts"
    using m example_create by blast
  from index_orders_sorted_allocated[OF h] m example_create io ro show ?thesis
    by (simp only: io ro)
qed

text \<open>
  \<^bold>\<open>C1.\<close> Not every tree sequence that \<^verbatim>\<open>tree_sequence_create\<close> returns has sorted index
  columns. When \<^verbatim>\<open>malloc\<close> of the buffer \<^verbatim>\<open>records\<close> fails, the function leaves through
  \<^verbatim>\<open>goto out\<close> without setting \<^verbatim>\<open>ret\<close>, which is 0 after \<^verbatim>\<open>tree_sequence_alloc\<close>: for the
  example of four records it returns 0 with \<^verbatim>\<open>num_records = 4\<close>, no column filled and no
  index built, so neither index column is a permutation of the four record indices.
\<close>

theorem tree_sequence_create_unindexed:
  "tree_sequence_create scarce_platform (Inr ''{}'') example_msp
     = Inr (tree_sequence_zero\<lparr>sample_size := 3, num_loci := 10, num_records := 4\<rparr>) \<and>
   num_records (tree_sequence_zero\<lparr>sample_size := 3, num_loci := 10, num_records := 4\<rparr>) = 4 \<and>
   trees_insertion_order (tree_sequence_zero\<lparr>sample_size := 3, num_loci := 10, num_records := 4\<rparr>) = [] \<and>
   trees_removal_order (tree_sequence_zero\<lparr>sample_size := 3, num_loci := 10, num_records := 4\<rparr>) = [] \<and>
   mset (map unat (trees_insertion_order
           (tree_sequence_zero\<lparr>sample_size := 3, num_loci := 10, num_records := 4\<rparr>)))
     \<noteq> mset [0..<num_records (tree_sequence_zero\<lparr>sample_size := 3, num_loci := 10, num_records := 4\<rparr>)] \<and>
   mset (map unat (trees_removal_order
           (tree_sequence_zero\<lparr>sample_size := 3, num_loci := 10, num_records := 4\<rparr>)))
     \<noteq> mset [0..<num_records (tree_sequence_zero\<lparr>sample_size := 3, num_loci := 10, num_records := 4\<rparr>)]"
  by (simp add: tree_sequence_create_def tree_sequence_alloc_def scarce_platform_def
        example_platform_def example_msp_def tree_sequence_zero_def Let_def upt_0_4)

subsection \<open>Loading an archive of another format version\<close>

lemma with_error_Inr [simp]: "(with_error e r = Inr x) = (r = Inr x)"
  by (auto simp: with_error_def split: sum.splits failure.splits)

lemma with_error_value [simp]: "with_error e (Inr x) = Inr x"
  by (simp add: with_error_def)

lemma with_error_Error [simp]: "with_error e (Inl (Error e')) = Inl (Error e)"
  by (simp add: with_error_def)

lemma example_dump:
  "tree_sequence_dump (example_platform\<lparr>MSP_FILE_FORMAT_VERSION_MAJOR := major\<rparr>) example_ts ''f'' 0
   = Inr (example_archive major)"
  by (simp add: tree_sequence_dump_def tree_sequence_write_hdf5_metadata_def
        tree_sequence_write_hdf5_data_def tree_sequence_write_hdf5_provenance_def
        write_metadata_field_def write_string_attribute_def write_dataset_def create_group_def
        cells_def H5Acreate_write_def H5Dcreate_write_def H5Gcreate_def H5Gopen_def
        H5Lexists_def h5_has_object_def h5_abs_def h5_parent_def h5_empty_def
        example_platform_def example_ts_def example_archive_def Let_def fun_upd_twist)

lemma example_load:
  "tree_sequence_load
     (example_platform\<lparr>h5_files := (\<lambda>n. if n = ''f'' then Some (example_archive 1) else None)\<rparr>) ''f'' 0
   = Inr example_ts"
  by (simp add: tree_sequence_load_def tree_sequence_read_hdf5_metadata_def
        tree_sequence_read_hdf5_dimensions_def tree_sequence_check_hdf5_dimensions_def
        tree_sequence_read_hdf5_data_def tree_sequence_read_hdf5_provenance_def
        read_metadata_field_def read_dimension_def check_dimension_def read_uint32_field_def
        read_double_field_def read_string_attribute_def h5_read_uint32_def h5_read_double_def
        tree_sequence_alloc_def tree_sequence_make_indexes_def
        H5Aopen_by_name_def H5Dopen_def H5Lexists_def h5_abs_def
        example_platform_def example_ts_def example_archive_def tree_sequence_zero_def
        Let_def rd_def qsort_def cmp_index_sort_def upt_0_4)

text \<open>
  Whatever the archive, an error of \<^verbatim>\<open>tree_sequence_read_hdf5_metadata\<close> reaches the caller
  of \<^verbatim>\<open>tree_sequence_load\<close> as \<^verbatim>\<open>MSP_ERR_GENERIC\<close>.
\<close>

lemma load_metadata_error:
  assumes "h5_files p filename = Some file"
      and "tree_sequence_read_hdf5_metadata p tree_sequence_zero file = Inl (Error e)"
  shows "tree_sequence_load p filename flags = Inl (Error MSP_ERR_GENERIC)"
  using assms by (simp add: tree_sequence_load_def Let_def)

text \<open>
  \<^bold>\<open>C7\<close> does not hold of the code. The archive below is the one a library of format
  version 2 writes for the example tree sequence; the library that reads it has format
  version 1. \<^verbatim>\<open>tree_sequence_read_hdf5_metadata\<close> returns
  \<^verbatim>\<open>MSP_ERR_UNSUPPORTED_FILE_VERSION\<close>, and \<^verbatim>\<open>tree_sequence_load\<close> returns \<^verbatim>\<open>MSP_ERR_GENERIC\<close>.
\<close>

theorem tree_sequence_load_version_mismatch:
  "MSP_FILE_FORMAT_VERSION_MAJOR example_platform = 1 \<and>
   tree_sequence_dump (example_platform\<lparr>MSP_FILE_FORMAT_VERSION_MAJOR := 2\<rparr>) example_ts ''f'' 0
     = Inr (example_archive 2) \<and>
   tree_sequence_read_hdf5_metadata example_platform tree_sequence_zero (example_archive 2)
     = Inl (Error MSP_ERR_UNSUPPORTED_FILE_VERSION) \<and>
   tree_sequence_load
     (example_platform\<lparr>h5_files := (\<lambda>n. if n = ''f'' then Some (example_archive 2) else None)\<rparr>) ''f'' 0
     = Inl (Error MSP_ERR_GENERIC)"
proof -
  have v: "MSP_FILE_FORMAT_VERSION_MAJOR example_platform = 1"
    by (simp add: example_platform_def)
  have m: "tree_sequence_read_hdf5_metadata example_platform tree_sequence_zero (example_archive 2)
     = Inl (Error MSP_ERR_UNSUPPORTED_FILE_VERSION)"
    by (simp add: tree_sequence_read_hdf5_metadata_def read_metadata_field_def h5_read_uint32_def
          H5Aopen_by_name_def h5_abs_def example_platform_def example_archive_def
          tree_sequence_zero_def Let_def rd_def)
  have l: "tree_sequence_load
     (example_platform\<lparr>h5_files := (\<lambda>n. if n = ''f'' then Some (example_archive 2) else None)\<rparr>) ''f'' 0
     = Inl (Error MSP_ERR_GENERIC)"
    by (simp add: tree_sequence_load_def tree_sequence_read_hdf5_metadata_def
        read_metadata_field_def h5_read_uint32_def H5Aopen_by_name_def h5_abs_def
        example_platform_def example_archive_def tree_sequence_zero_def Let_def rd_def)
  from v example_dump[of 2] m l show ?thesis by blast
qed

subsection \<open>Dump and load\<close>

lemma bind_r_eq_Inr: "(bind_r m f = Inr y) = (\<exists>x. m = Inr x \<and> f x = Inr y)"
  by (cases m) simp_all

lemma cells_Inr [simp]: "(cells n col = Inr xs) = (n \<le> length col \<and> xs = take n col)"
  by (auto simp: cells_def)

lemma write_metadata:
  "tree_sequence_write_hdf5_metadata p ts h5_empty = Inr
     (h5_empty\<lparr>h5_attributes := (\<lambda>key.
          if key = (''/'', ''format_version'') then Some \<lparr>h5_dims = [2], h5_data = H5_uint32 [MSP_FILE_FORMAT_VERSION_MAJOR p, MSP_FILE_FORMAT_VERSION_MINOR p]\<rparr>
          else if key = (''/'', ''sample_size'') then Some \<lparr>h5_dims = [], h5_data = H5_uint32 [sample_size ts]\<rparr>
          else if key = (''/'', ''num_loci'') then Some \<lparr>h5_dims = [], h5_data = H5_uint32 [num_loci ts]\<rparr>
          else None)\<rparr>)"
  by (auto simp: tree_sequence_write_hdf5_metadata_def write_metadata_field_def H5Acreate_write_def
        h5_has_object_def h5_abs_def h5_empty_def fun_eq_iff)

lemma write_data:
  assumes "tree_sequence_write_hdf5_data ts (h5_empty\<lparr>h5_attributes := A\<rparr>) flags = Inr file"
      and "0 < num_records ts"
  shows "file = \<lparr>h5_groups = h5_groups (archive_of p ts), h5_datasets = h5_datasets (archive_of p ts),
                 h5_attributes = A\<rparr>"
    and "num_records ts \<le> length (trees_left ts)" "num_records ts \<le> length (trees_right ts)"
        "num_records ts \<le> length (trees_node ts)" "2 * num_records ts \<le> length (trees_children ts)"
        "num_records ts \<le> length (trees_time ts)"
        "num_mutations ts \<le> length (mutations_node ts)"
        "num_mutations ts \<le> length (mutations_position ts)"
  using assms
  by (auto simp: tree_sequence_write_hdf5_data_def write_dataset_def create_group_def
        H5Dcreate_write_def H5Gcreate_def H5Lexists_def h5_has_object_def h5_abs_def h5_parent_def
        h5_empty_def archive_of_def Let_def bind_r_eq_Inr fun_eq_iff
        split: if_splits option.splits)


lemma write_provenance:
  assumes "tree_sequence_write_hdf5_provenance ts
             \<lparr>h5_groups = h5_groups (archive_of p ts), h5_datasets = h5_datasets (archive_of p ts),
              h5_attributes = (\<lambda>key.
          if key = (''/'', ''format_version'') then Some \<lparr>h5_dims = [2], h5_data = H5_uint32 [MSP_FILE_FORMAT_VERSION_MAJOR p, MSP_FILE_FORMAT_VERSION_MINOR p]\<rparr>
          else if key = (''/'', ''sample_size'') then Some \<lparr>h5_dims = [], h5_data = H5_uint32 [sample_size ts]\<rparr>
          else if key = (''/'', ''num_loci'') then Some \<lparr>h5_dims = [], h5_data = H5_uint32 [num_loci ts]\<rparr>
          else None)\<rparr> = Inr file"
  shows "file = archive_of p ts"
    and "trees_environment ts \<noteq> None" "trees_parameters ts \<noteq> None"
    and "0 < num_mutations ts \<Longrightarrow> mutations_environment ts \<noteq> None \<and> mutations_parameters ts \<noteq> None"
  using assms
  by (auto simp: tree_sequence_write_hdf5_provenance_def write_string_attribute_def
        H5Acreate_write_def H5Gopen_def h5_has_object_def h5_abs_def string_object_def
        archive_of_def Let_def bind_r_eq_Inr fun_eq_iff
        split: if_splits option.splits)

lemma dump_form:
  assumes "tree_sequence_dump p ts filename flags = Inr file" and "0 < num_records ts"
  shows "file = archive_of p ts"
    and "num_records ts \<le> length (trees_left ts)" "num_records ts \<le> length (trees_right ts)"
        "num_records ts \<le> length (trees_node ts)" "2 * num_records ts \<le> length (trees_children ts)"
        "num_records ts \<le> length (trees_time ts)"
        "num_mutations ts \<le> length (mutations_node ts)"
        "num_mutations ts \<le> length (mutations_position ts)"
    and "trees_environment ts \<noteq> None" "trees_parameters ts \<noteq> None"
    and "0 < num_mutations ts \<Longrightarrow> mutations_environment ts \<noteq> None \<and> mutations_parameters ts \<noteq> None"
proof -
  from assms(1) obtain F2 where
    d: "tree_sequence_write_hdf5_data ts (h5_empty\<lparr>h5_attributes := (\<lambda>key.
          if key = (''/'', ''format_version'') then Some \<lparr>h5_dims = [2], h5_data = H5_uint32 [MSP_FILE_FORMAT_VERSION_MAJOR p, MSP_FILE_FORMAT_VERSION_MINOR p]\<rparr>
          else if key = (''/'', ''sample_size'') then Some \<lparr>h5_dims = [], h5_data = H5_uint32 [sample_size ts]\<rparr>
          else if key = (''/'', ''num_loci'') then Some \<lparr>h5_dims = [], h5_data = H5_uint32 [num_loci ts]\<rparr>
          else None)\<rparr>) flags = Inr F2"
    and v: "tree_sequence_write_hdf5_provenance ts F2 = Inr file"
    by (auto simp: tree_sequence_dump_def write_metadata bind_r_eq_Inr split: if_splits)
  note w1 = write_data(1)[where p = p, OF d assms(2)]
  note w = write_data(2-8)[OF d assms(2)]
  note pr = write_provenance[OF v[unfolded w1]]
  show "file = archive_of p ts" by (rule pr(1))
  show "num_records ts \<le> length (trees_left ts)" "num_records ts \<le> length (trees_right ts)"
        "num_records ts \<le> length (trees_node ts)" "2 * num_records ts \<le> length (trees_children ts)"
        "num_records ts \<le> length (trees_time ts)"
        "num_mutations ts \<le> length (mutations_node ts)"
        "num_mutations ts \<le> length (mutations_position ts)"
    by (rule w)+
  show "trees_environment ts \<noteq> None" "trees_parameters ts \<noteq> None"
    by (rule pr(2,3))+
  show "0 < num_mutations ts \<Longrightarrow> mutations_environment ts \<noteq> None \<and> mutations_parameters ts \<noteq> None"
    by (rule pr(4))
qed


lemma archive_lookups:
  "H5Aopen_by_name (archive_of p ts) ''/'' ''format_version''
     = Some \<lparr>h5_dims = [2], h5_data = H5_uint32 [MSP_FILE_FORMAT_VERSION_MAJOR p, MSP_FILE_FORMAT_VERSION_MINOR p]\<rparr>"
  "H5Aopen_by_name (archive_of p ts) ''/'' ''sample_size''
     = Some \<lparr>h5_dims = [], h5_data = H5_uint32 [sample_size ts]\<rparr>"
  "H5Aopen_by_name (archive_of p ts) ''/'' ''num_loci''
     = Some \<lparr>h5_dims = [], h5_data = H5_uint32 [num_loci ts]\<rparr>"
  "H5Aopen_by_name (archive_of p ts) ''trees'' ''environment'' = map_option string_object (trees_environment ts)"
  "H5Aopen_by_name (archive_of p ts) ''trees'' ''parameters'' = map_option string_object (trees_parameters ts)"
  "0 < num_mutations ts \<Longrightarrow>
   H5Aopen_by_name (archive_of p ts) ''mutations'' ''environment'' = map_option string_object (mutations_environment ts)"
  "0 < num_mutations ts \<Longrightarrow>
   H5Aopen_by_name (archive_of p ts) ''mutations'' ''parameters'' = map_option string_object (mutations_parameters ts)"
  "H5Lexists (archive_of p ts) ''/mutations'' = (0 < num_mutations ts)"
  "H5Dopen (archive_of p ts) ''/trees/left''
     = Some \<lparr>h5_dims = [num_records ts], h5_data = H5_uint32 (take (num_records ts) (trees_left ts))\<rparr>"
  "H5Dopen (archive_of p ts) ''/trees/right''
     = Some \<lparr>h5_dims = [num_records ts], h5_data = H5_uint32 (take (num_records ts) (trees_right ts))\<rparr>"
  "H5Dopen (archive_of p ts) ''/trees/node''
     = Some \<lparr>h5_dims = [num_records ts], h5_data = H5_uint32 (take (num_records ts) (trees_node ts))\<rparr>"
  "H5Dopen (archive_of p ts) ''/trees/children''
     = Some \<lparr>h5_dims = [num_records ts, 2], h5_data = H5_uint32 (take (2 * num_records ts) (trees_children ts))\<rparr>"
  "H5Dopen (archive_of p ts) ''/trees/time''
     = Some \<lparr>h5_dims = [num_records ts], h5_data = H5_double (take (num_records ts) (trees_time ts))\<rparr>"
  "0 < num_mutations ts \<Longrightarrow> H5Dopen (archive_of p ts) ''/mutations/node''
     = Some \<lparr>h5_dims = [num_mutations ts], h5_data = H5_uint32 (take (num_mutations ts) (mutations_node ts))\<rparr>"
  "0 < num_mutations ts \<Longrightarrow> H5Dopen (archive_of p ts) ''/mutations/position''
     = Some \<lparr>h5_dims = [num_mutations ts], h5_data = H5_double (take (num_mutations ts) (mutations_position ts))\<rparr>"
  by (simp_all add: archive_of_def H5Aopen_by_name_def H5Dopen_def H5Lexists_def h5_abs_def Let_def)

lemma read_metadata_archive:
  "tree_sequence_read_hdf5_metadata p' self (archive_of p ts) =
     (if MSP_FILE_FORMAT_VERSION_MAJOR p \<noteq> MSP_FILE_FORMAT_VERSION_MAJOR p'
      then Inl (Error MSP_ERR_UNSUPPORTED_FILE_VERSION)
      else Inr (self\<lparr>sample_size := sample_size ts, num_loci := num_loci ts\<rparr>))"
  by (simp add: tree_sequence_read_hdf5_metadata_def read_metadata_field_def archive_lookups
        h5_read_uint32_def rd_def Let_def)

lemma read_dimensions_archive:
  "tree_sequence_read_hdf5_dimensions self (archive_of p ts) =
     Inr (self\<lparr>num_mutations := num_mutations ts, num_records := num_records ts\<rparr>)"
  by (cases "num_mutations ts = 0")
     (simp_all add: tree_sequence_read_hdf5_dimensions_def tree_sequence_check_hdf5_dimensions_def
        read_dimension_def check_dimension_def archive_lookups Let_def)

lemma read_data_archive:
  assumes "num_records self = num_records ts" "num_mutations self = num_mutations ts"
  shows "tree_sequence_read_hdf5_data self (archive_of p ts) =
     Inr (if num_mutations ts = 0
          then self\<lparr>trees_left := take (num_records ts) (trees_left ts),
                     trees_right := take (num_records ts) (trees_right ts),
                     trees_node := take (num_records ts) (trees_node ts),
                     trees_children := take (2 * num_records ts) (trees_children ts),
                     trees_time := take (num_records ts) (trees_time ts)\<rparr>
          else self\<lparr>trees_left := take (num_records ts) (trees_left ts),
                     trees_right := take (num_records ts) (trees_right ts),
                     trees_node := take (num_records ts) (trees_node ts),
                     trees_children := take (2 * num_records ts) (trees_children ts),
                     trees_time := take (num_records ts) (trees_time ts),
                     mutations_node := take (num_mutations ts) (mutations_node ts),
                     mutations_position := take (num_mutations ts) (mutations_position ts)\<rparr>)"
  using assms
  by (simp add: tree_sequence_read_hdf5_data_def read_uint32_field_def read_double_field_def
        archive_lookups h5_read_uint32_def h5_read_double_def Let_def)

lemma read_provenance_archive:
  assumes "num_mutations self = num_mutations ts"
      and "tree_sequence_read_hdf5_provenance p' self (archive_of p ts) = Inr self'"
  shows "self' = (if num_mutations ts = 0
           then self\<lparr>trees_environment := trees_environment ts, trees_parameters := trees_parameters ts\<rparr>
           else self\<lparr>trees_environment := trees_environment ts, trees_parameters := trees_parameters ts,
                      mutations_environment := mutations_environment ts,
                      mutations_parameters := mutations_parameters ts\<rparr>)"
  using assms
  by (auto simp: tree_sequence_read_hdf5_provenance_def read_string_attribute_def archive_lookups
        string_object_def Let_def bind_r_eq_Inr split: option.splits if_splits h5_data.splits)

lemma make_indexes_built:
  assumes "tree_sequence_make_indexes p ts0 = Inr ts"
      and "length (trees_left ts0) \<le> num_records ts0" "length (trees_right ts0) \<le> num_records ts0"
          "length (trees_node ts0) \<le> num_records ts0" "length (trees_children ts0) \<le> 2 * num_records ts0"
          "length (trees_time ts0) \<le> num_records ts0"
          "length (mutations_node ts0) \<le> num_mutations ts0"
          "length (mutations_position ts0) \<le> num_mutations ts0"
          "num_mutations ts0 = 0 \<longrightarrow> mutations_environment ts0 = None \<and> mutations_parameters ts0 = None"
  shows "tree_sequence_built ts"
  using make_indexes_Inr(1)[OF assms(1)] assms(2-)
  unfolding make_indexes_Inr(7)[OF assms(1)] tree_sequence_built_def
  by simp

lemma built_provenance [simp]:
  "tree_sequence_built (ts\<lparr>trees_environment := e\<rparr>) = tree_sequence_built ts"
  "tree_sequence_built (ts\<lparr>trees_parameters := q\<rparr>) = tree_sequence_built ts"
  by (simp_all add: tree_sequence_built_def)

lemma create_built:
  assumes "malloc_ok p (msp_num_coalescence_records sim * 32)"
      and "tree_sequence_create p env sim = Inr ts"
  shows "tree_sequence_built ts"
  using assms
  apply (auto simp: tree_sequence_create_def tree_sequence_alloc_def Let_def bind_r_eq_Inr
          tree_sequence_zero_def dest!: map_r_Inr list_all2_lengthD split: if_splits)
  apply (erule make_indexes_built; simp add: length_concat comp_def sum_list_triv)
  done


lemma read_uint32_field_Inr:
  "read_uint32_field file name n = Inr xs \<Longrightarrow> length xs \<le> n"
  by (auto simp: read_uint32_field_def split: option.splits if_splits)

lemma read_double_field_Inr:
  "read_double_field file name n = Inr xs \<Longrightarrow> length xs \<le> n"
  by (auto simp: read_double_field_def split: option.splits if_splits)

lemma read_metadata_Inr:
  "tree_sequence_read_hdf5_metadata p self file = Inr s \<Longrightarrow>
   s = self\<lparr>sample_size := sample_size s, num_loci := num_loci s\<rparr>"
  by (auto simp: tree_sequence_read_hdf5_metadata_def bind_r_eq_Inr split: if_splits)

lemma read_dimensions_Inr:
  "tree_sequence_read_hdf5_dimensions self file = Inr s \<Longrightarrow>
   s = self\<lparr>num_records := num_records s, num_mutations := num_mutations s\<rparr>"
  by (auto simp: tree_sequence_read_hdf5_dimensions_def Let_def bind_r_eq_Inr split: if_splits)

lemma alloc_Inr:
  "tree_sequence_alloc p self = Inr s \<Longrightarrow>
   s = self\<lparr>trees_left := [], trees_right := [], trees_children := [], trees_node := [],
             trees_time := [], trees_insertion_order := [], trees_removal_order := [],
             mutations_node := (if num_mutations self > 0 then [] else mutations_node self),
             mutations_position := (if num_mutations self > 0 then [] else mutations_position self)\<rparr>"
  by (auto simp: tree_sequence_alloc_def Let_def split: if_splits)

lemma read_provenance_form:
  assumes "tree_sequence_read_hdf5_provenance p self file = Inr s"
  shows "\<exists>e q e' q'. s = (if num_mutations self > 0
            then self\<lparr>trees_environment := Some e, trees_parameters := Some q,
                       mutations_environment := Some e', mutations_parameters := Some q'\<rparr>
            else self\<lparr>trees_environment := Some e, trees_parameters := Some q\<rparr>)"
  using assms unfolding tree_sequence_read_hdf5_provenance_def Let_def bind_r_eq_Inr
  by (cases "num_mutations self > 0") (simp_all add: bind_r_eq_Inr, blast+)

lemma read_provenance_Inr:
  assumes "tree_sequence_read_hdf5_provenance p self file = Inr s"
  shows "trees_left s = trees_left self" "trees_right s = trees_right self"
    "trees_node s = trees_node self" "trees_children s = trees_children self"
    "trees_time s = trees_time self" "mutations_node s = mutations_node self"
    "mutations_position s = mutations_position self"
    "num_records s = num_records self" "num_mutations s = num_mutations self"
    "num_mutations self = 0 \<Longrightarrow> mutations_environment s = mutations_environment self"
    "num_mutations self = 0 \<Longrightarrow> mutations_parameters s = mutations_parameters self"
proof -
  from read_provenance_form[OF assms] obtain e q e' q' where
    s: "s = (if num_mutations self > 0
            then self\<lparr>trees_environment := Some e, trees_parameters := Some q,
                       mutations_environment := Some e', mutations_parameters := Some q'\<rparr>
            else self\<lparr>trees_environment := Some e, trees_parameters := Some q\<rparr>)"
    by blast
  show "trees_left s = trees_left self" "trees_right s = trees_right self"
    "trees_node s = trees_node self" "trees_children s = trees_children self"
    "trees_time s = trees_time self" "mutations_node s = mutations_node self"
    "mutations_position s = mutations_position self"
    "num_records s = num_records self" "num_mutations s = num_mutations self"
    "num_mutations self = 0 \<Longrightarrow> mutations_environment s = mutations_environment self"
    "num_mutations self = 0 \<Longrightarrow> mutations_parameters s = mutations_parameters self"
    by (simp_all add: s)
qed

lemma read_data_form:
  assumes "tree_sequence_read_hdf5_data self file = Inr s"
  shows "\<exists>l r n c t mn mp.
           length l \<le> num_records self \<and> length r \<le> num_records self \<and>
           length n \<le> num_records self \<and> length c \<le> 2 * num_records self \<and>
           length t \<le> num_records self \<and> length mn \<le> num_mutations self \<and>
           length mp \<le> num_mutations self \<and>
           s = (if num_mutations self = 0
                then self\<lparr>trees_left := l, trees_right := r, trees_node := n,
                      trees_children := c, trees_time := t\<rparr>
                else self\<lparr>trees_left := l, trees_right := r, trees_node := n,
                      trees_children := c, trees_time := t,
                      mutations_node := mn, mutations_position := mp\<rparr>)"
proof -
  from assms obtain l r n c t where
    1: "read_uint32_field file ''/trees/left'' (num_records self) = Inr l"
    and 2: "read_uint32_field file ''/trees/right'' (num_records self) = Inr r"
    and 3: "read_uint32_field file ''/trees/node'' (num_records self) = Inr n"
    and 4: "read_uint32_field file ''/trees/children'' (2 * num_records self) = Inr c"
    and 5: "read_double_field file ''/trees/time'' (num_records self) = Inr t"
    and 6: "(let self = self\<lparr>trees_left := l, trees_right := r, trees_node := n,
                      trees_children := c, trees_time := t\<rparr>
     in if num_mutations self = 0 then Inr self
        else
          bind_r (read_uint32_field file ''/mutations/node'' (num_mutations self)) (\<lambda>mnode.
          bind_r (read_double_field file ''/mutations/position'' (num_mutations self)) (\<lambda>mposition.
          Inr (self\<lparr>mutations_node := mnode, mutations_position := mposition\<rparr>)))) = Inr s"
    unfolding tree_sequence_read_hdf5_data_def bind_r_eq_Inr by blast
  note b = read_uint32_field_Inr[OF 1] read_uint32_field_Inr[OF 2] read_uint32_field_Inr[OF 3]
    read_uint32_field_Inr[OF 4] read_double_field_Inr[OF 5]
  show ?thesis
  proof (cases "num_mutations self = 0")
    case True
    then have "s = self\<lparr>trees_left := l, trees_right := r, trees_node := n,
                      trees_children := c, trees_time := t\<rparr>"
      using 6 by (simp add: Let_def)
    then show ?thesis using b True by (intro exI[of _ l] exI[of _ r] exI[of _ n] exI[of _ c] exI[of _ t] exI[of _ "[]"]) simp
  next
    case False
    then obtain mn mp where
      7: "read_uint32_field file ''/mutations/node'' (num_mutations self) = Inr mn"
      and 8: "read_double_field file ''/mutations/position'' (num_mutations self) = Inr mp"
      and 9: "s = self\<lparr>trees_left := l, trees_right := r, trees_node := n,
                      trees_children := c, trees_time := t,
                      mutations_node := mn, mutations_position := mp\<rparr>"
      using 6 by (auto simp: Let_def bind_r_eq_Inr)
    show ?thesis using b False read_uint32_field_Inr[OF 7] read_double_field_Inr[OF 8] 9
      by (intro exI[of _ l] exI[of _ r] exI[of _ n] exI[of _ c] exI[of _ t] exI[of _ mn] exI[of _ mp]) simp
  qed
qed

lemma read_data_Inr:
  assumes "tree_sequence_read_hdf5_data self file = Inr s"
  shows "length (trees_left s) \<le> num_records self" "length (trees_right s) \<le> num_records self"
    "length (trees_node s) \<le> num_records self" "length (trees_children s) \<le> 2 * num_records self"
    "length (trees_time s) \<le> num_records self"
    "num_mutations self > 0 \<Longrightarrow> length (mutations_node s) \<le> num_mutations self"
    "num_mutations self > 0 \<Longrightarrow> length (mutations_position s) \<le> num_mutations self"
    "num_mutations self = 0 \<Longrightarrow> mutations_node s = mutations_node self"
    "num_mutations self = 0 \<Longrightarrow> mutations_position s = mutations_position self"
    "num_records s = num_records self" "num_mutations s = num_mutations self"
    "mutations_environment s = mutations_environment self"
    "mutations_parameters s = mutations_parameters self"
proof -
  from read_data_form[OF assms] obtain l r n c t mn mp where
    b: "length l \<le> num_records self" "length r \<le> num_records self"
       "length n \<le> num_records self" "length c \<le> 2 * num_records self"
       "length t \<le> num_records self" "length mn \<le> num_mutations self"
       "length mp \<le> num_mutations self"
    and s: "s = (if num_mutations self = 0
                then self\<lparr>trees_left := l, trees_right := r, trees_node := n,
                      trees_children := c, trees_time := t\<rparr>
                else self\<lparr>trees_left := l, trees_right := r, trees_node := n,
                      trees_children := c, trees_time := t,
                      mutations_node := mn, mutations_position := mp\<rparr>)"
    by blast
  show "length (trees_left s) \<le> num_records self" "length (trees_right s) \<le> num_records self"
    "length (trees_node s) \<le> num_records self" "length (trees_children s) \<le> 2 * num_records self"
    "length (trees_time s) \<le> num_records self"
    "num_mutations self > 0 \<Longrightarrow> length (mutations_node s) \<le> num_mutations self"
    "num_mutations self > 0 \<Longrightarrow> length (mutations_position s) \<le> num_mutations self"
    "num_mutations self = 0 \<Longrightarrow> mutations_node s = mutations_node self"
    "num_mutations self = 0 \<Longrightarrow> mutations_position s = mutations_position self"
    "num_records s = num_records self" "num_mutations s = num_mutations self"
    "mutations_environment s = mutations_environment self"
    "mutations_parameters s = mutations_parameters self"
    using b by (simp_all add: s)
qed

lemma load_built:
  assumes "tree_sequence_load p filename flags = Inr ts"
  shows "tree_sequence_built ts"
proof -
  from assms obtain fl s1 s2 s3 s4 s5 where
        1: "tree_sequence_read_hdf5_metadata p tree_sequence_zero fl = Inr s1"
    and 2: "tree_sequence_read_hdf5_dimensions s1 fl = Inr s2"
    and 3: "tree_sequence_alloc p s2 = Inr s3"
    and 4: "tree_sequence_read_hdf5_data s3 fl = Inr s4"
    and 5: "tree_sequence_read_hdf5_provenance p s4 fl = Inr s5"
    and 6: "tree_sequence_make_indexes p s5 = Inr ts"
    by (auto simp: tree_sequence_load_def Let_def bind_r_eq_Inr split: option.splits)
  note a = read_metadata_Inr[OF 1] and b = read_dimensions_Inr[OF 2] and c = alloc_Inr[OF 3]
  have z: "mutations_environment s3 = None" "mutations_parameters s3 = None"
    "mutations_node s3 = []" "mutations_position s3 = []"
    "num_records s3 = num_records s2" "num_mutations s3 = num_mutations s2"
    by (subst c, subst b, subst a, simp add: tree_sequence_zero_def)+
  note d = read_data_Inr[OF 4] and e = read_provenance_Inr[OF 5]
  show ?thesis
  proof (rule make_indexes_built[OF 6])
    show "length (trees_left s5) \<le> num_records s5" using d e by simp
    show "length (trees_right s5) \<le> num_records s5" using d e by simp
    show "length (trees_node s5) \<le> num_records s5" using d e by simp
    show "length (trees_children s5) \<le> 2 * num_records s5" using d e by simp
    show "length (trees_time s5) \<le> num_records s5" using d e by simp
    show "length (mutations_node s5) \<le> num_mutations s5"
      using d(6,8,11) e(6,9) z by (cases "num_mutations s3 = 0") simp_all
    show "length (mutations_position s5) \<le> num_mutations s5"
      using d(7,9,11) e(7,9) z by (cases "num_mutations s3 = 0") simp_all
    show "num_mutations s5 = 0 \<longrightarrow> mutations_environment s5 = None \<and> mutations_parameters s5 = None"
      using d(11,12,13) e(9,10,11) z by simp
  qed
qed

lemma set_mutations_built:
  assumes "tree_sequence_built ts" and "tree_sequence_set_mutations p ts mutations = (st, ts')"
  shows "tree_sequence_built ts'"
  using assms
  by (auto simp: tree_sequence_set_mutations_def tree_sequence_built_def Let_def split: if_splits)

lemma sort_entry_take:
  assumes "n \<le> length vals" "n \<le> length tms"
  shows "map (sort_entry (take n vals) (take n tms)) [0..<n] = map (sort_entry vals tms) [0..<n]"
  by (rule map_cong) (simp_all add: sort_entry_def)

lemma sort_entry_take_uminus:
  assumes "n \<le> length vals" "n \<le> length tms"
  shows "map (sort_entry (take n vals) (map uminus (take n tms))) [0..<n]
         = map (sort_entry vals (map uminus tms)) [0..<n]"
  using assms by (intro map_cong) (simp_all add: sort_entry_def)

text \<open>
  \<^bold>\<open>C2.\<close> Let \<open>ts\<close> be a tree sequence as \<^verbatim>\<open>tree_sequence_create\<close>, \<^verbatim>\<open>tree_sequence_load\<close>
  and \<^verbatim>\<open>tree_sequence_set_mutations\<close> leave it. If \<^verbatim>\<open>tree_sequence_dump\<close> succeeds and
  \<^verbatim>\<open>tree_sequence_load\<close> of the file it wrote succeeds, the loaded tree sequence equals
  \<open>ts\<close> in the sample size, the numbers of loci, records, mutations and nodes, the five
  record columns, the two index columns, the two mutation columns and the four metadata
  strings.
\<close>

theorem dump_load_round_trip:
  assumes b: "tree_sequence_built ts"
      and d: "tree_sequence_dump p ts filename flags = Inr file"
      and f: "h5_files p' filename = Some file"
      and l: "tree_sequence_load p' filename flags' = Inr ts'"
  shows "sample_size ts' = sample_size ts \<and> num_loci ts' = num_loci ts \<and>
         num_records ts' = num_records ts \<and> num_mutations ts' = num_mutations ts \<and>
         num_nodes ts' = num_nodes ts \<and>
         trees_left ts' = trees_left ts \<and> trees_right ts' = trees_right ts \<and>
         trees_node ts' = trees_node ts \<and> trees_children ts' = trees_children ts \<and>
         trees_time ts' = trees_time ts \<and>
         trees_insertion_order ts' = trees_insertion_order ts \<and>
         trees_removal_order ts' = trees_removal_order ts \<and>
         mutations_node ts' = mutations_node ts \<and>
         mutations_position ts' = mutations_position ts \<and>
         trees_parameters ts' = trees_parameters ts \<and>
         trees_environment ts' = trees_environment ts \<and>
         mutations_parameters ts' = mutations_parameters ts \<and>
         mutations_environment ts' = mutations_environment ts"
proof -
  let ?n = "num_records ts" and ?m = "num_mutations ts"
  have n: "0 < ?n" using b by (simp add: tree_sequence_built_def)
  note df = dump_form[OF d n]
  have len: "length (trees_left ts) = ?n" "length (trees_right ts) = ?n" "length (trees_node ts) = ?n"
    "length (trees_children ts) = 2 * ?n" "length (trees_time ts) = ?n"
    "length (mutations_node ts) = ?m" "length (mutations_position ts) = ?m"
    using b df(2-8) by (simp_all add: tree_sequence_built_def)
  from l f df(1) obtain s1 s2 s3 s4 s5 where
        1: "tree_sequence_read_hdf5_metadata p' tree_sequence_zero (archive_of p ts) = Inr s1"
    and 2: "tree_sequence_read_hdf5_dimensions s1 (archive_of p ts) = Inr s2"
    and 3: "tree_sequence_alloc p' s2 = Inr s3"
    and 4: "tree_sequence_read_hdf5_data s3 (archive_of p ts) = Inr s4"
    and 5: "tree_sequence_read_hdf5_provenance p' s4 (archive_of p ts) = Inr s5"
    and 6: "tree_sequence_make_indexes p' s5 = Inr ts'"
    by (auto simp: tree_sequence_load_def Let_def bind_r_eq_Inr)
  have s1: "s1 = tree_sequence_zero\<lparr>sample_size := sample_size ts, num_loci := num_loci ts\<rparr>"
    using 1 by (simp add: read_metadata_archive split: if_splits)
  have s2: "s2 = s1\<lparr>num_mutations := ?m, num_records := ?n\<rparr>"
    using 2 by (simp add: read_dimensions_archive)
  note s3 = alloc_Inr[OF 3]
  have c3: "num_records s3 = ?n" "num_mutations s3 = ?m"
    by (subst s3, simp add: s2)+
  note s4 = 4[unfolded read_data_archive[OF c3], simplified, symmetric]
  have c4: "num_mutations s4 = ?m" by (simp add: s4 c3)
  note s5 = read_provenance_archive[OF c4 5]
  note t = make_indexes_Inr(7)[OF 6]
  have z: "mutations_node s3 = []" "mutations_position s3 = []"
    "mutations_environment s3 = None" "mutations_parameters s3 = None"
    "sample_size s3 = sample_size ts" "num_loci s3 = num_loci ts"
    by (subst s3, simp add: s2 s1 tree_sequence_zero_def)+
  have cols: "trees_left s5 = trees_left ts" "trees_right s5 = trees_right ts"
    "trees_node s5 = trees_node ts" "trees_children s5 = trees_children ts"
    "trees_time s5 = trees_time ts" "num_records s5 = ?n" "num_mutations s5 = ?m"
    "sample_size s5 = sample_size ts" "num_loci s5 = num_loci ts"
    "trees_parameters s5 = trees_parameters ts" "trees_environment s5 = trees_environment ts"
    by (simp_all add: s5 s4 len c3 z)
  have mcols: "mutations_node s5 = mutations_node ts" "mutations_position s5 = mutations_position ts"
    "mutations_parameters s5 = mutations_parameters ts"
    "mutations_environment s5 = mutations_environment ts"
    using b len by (auto simp: s5 s4 z tree_sequence_built_def)
  have io: "trees_insertion_order ts' = trees_insertion_order ts"
    "trees_removal_order ts' = trees_removal_order ts" "num_nodes ts' = num_nodes ts"
    using b by (simp_all add: t cols tree_sequence_built_def)
  show ?thesis
    using io by (simp add: t cols mcols)
qed


theorem dump_load_round_trip_witness:
  "tree_sequence_built example_ts \<and>
   tree_sequence_dump example_platform example_ts ''f'' 0 = Inr (example_archive 1) \<and>
   h5_files (example_platform\<lparr>h5_files := (\<lambda>n. if n = ''f'' then Some (example_archive 1) else None)\<rparr>) ''f''
     = Some (example_archive 1) \<and>
   (\<exists>ts'. tree_sequence_load
            (example_platform\<lparr>h5_files := (\<lambda>n. if n = ''f'' then Some (example_archive 1) else None)\<rparr>) ''f'' 0
            = Inr ts' \<and>
          num_nodes ts' = 6 \<and>
          trees_children ts' = [1, 2, 2, 3, 3, 4, 1, 5] \<and>
          trees_insertion_order ts' = [0, 2, 1, 3] \<and>
          trees_removal_order ts' = [2, 0, 3, 1] \<and>
          trees_environment ts' = Some ''{}'')"
proof -
  let ?p' = "example_platform\<lparr>h5_files := (\<lambda>n. if n = ''f'' then Some (example_archive 1) else None)\<rparr>"
  have m: "malloc_ok example_platform (msp_num_coalescence_records example_msp * 32)"
    by (simp add: example_platform_def)
  have b: "tree_sequence_built example_ts"
    by (rule create_built[OF m example_create])
  have "example_platform\<lparr>MSP_FILE_FORMAT_VERSION_MAJOR := 1\<rparr> = example_platform"
    by (simp add: example_platform_def)
  then have d: "tree_sequence_dump example_platform example_ts ''f'' 0 = Inr (example_archive 1)"
    using example_dump[of 1] by simp
  have f: "h5_files ?p' ''f'' = Some (example_archive 1)" by simp
  obtain ts' where l: "tree_sequence_load ?p' ''f'' 0 = Inr ts'"
    using example_load by blast
  from dump_load_round_trip[OF b d f l]
  have "num_nodes ts' = 6 \<and> trees_children ts' = [1, 2, 2, 3, 3, 4, 1, 5] \<and>
        trees_insertion_order ts' = [0, 2, 1, 3] \<and> trees_removal_order ts' = [2, 0, 3, 1] \<and>
        trees_environment ts' = Some ''{}''"
    by (simp add: example_ts_def)
  with b d f l show ?thesis by blast
qed

subsection \<open>Most recent common ancestor\<close>

lemma path_up_functional:
  "path_up parent j p \<Longrightarrow> path_up parent j q \<Longrightarrow> p = q"
proof (induction arbitrary: q rule: path_up.induct)
  case top
  then show ?case by (auto elim: path_up.cases)
next
  case (step j p)
  from step.prems step.hyps(1) obtain q' where "q = j # q'" "path_up parent (parent ! unat j) q'"
    by (auto elim: path_up.cases)
  then show ?case using step.IH by simp
qed

lemma path_up_nonzero: "path_up parent j p \<Longrightarrow> 0 \<notin> set p"
  by (induction rule: path_up.induct) auto

lemma path_up_hd: "path_up parent j p \<Longrightarrow> p \<noteq> [] \<Longrightarrow> hd p = j"
  by (induction rule: path_up.induct) auto

lemma path_up_empty: "path_up parent j [] \<Longrightarrow> j = 0"
  by (auto elim: path_up.cases)

lemma path_up_suffix:
  "path_up parent j p \<Longrightarrow> suffix q p \<Longrightarrow> q \<noteq> [] \<Longrightarrow> path_up parent (hd q) q"
proof (induction rule: path_up.induct)
  case top
  then show ?case by simp
next
  case (step j p)
  from step.prems(1) have "q = j # p \<or> suffix q p"
    by (auto simp: suffix_Cons)
  then show ?case
  proof
    assume "q = j # p"
    then show ?thesis using step.hyps by (auto intro: path_up.step)
  next
    assume "suffix q p"
    then show ?thesis using step.IH step.prems(2) by blast
  qed
qed

lemma path_up_member:
  assumes "path_up parent j p" "a \<in> set p"
  shows "\<exists>q. suffix q p \<and> path_up parent a q"
proof -
  from assms(2) obtain xs ys where "p = xs @ a # ys" by (auto simp: in_set_conv_decomp)
  then have s: "suffix (a # ys) p" by (simp add: suffix_def)
  from path_up_suffix[OF assms(1) s] show ?thesis using s by auto
qed

lemma mrca_ascend_path:
  assumes "path_up (st_parent self) j p"
      and "int (length s + length p) \<le> sint (st_sample_size self)"
  shows "mrca_ascend self j s = Inr (s @ p)"
  using assms
proof (induction arbitrary: s rule: path_up.induct)
  case top
  then show ?case by simp
next
  case (step j p)
  have "int (length (s @ [j]) + length p) \<le> sint (st_sample_size self)"
    using step.prems by simp
  from step.IH[OF this] step.hyps(1,2) step.prems show ?case
    by (subst mrca_ascend.simps) (simp add: rd_def)
qed


lemma mrca_descend_suffix:
  assumes "t \<noteq> []"
  shows "mrca_descend (p1 @ t) (p2 @ t) (length p1) (length p2)
         = Inr (hd (rev (longest_common_prefix (rev p1) (rev p2)) @ t))"
  using assms
proof (induction p1 arbitrary: p2 t rule: rev_induct)
  case Nil
  then show ?case
    by (subst mrca_descend.simps) (simp add: rd_def hd_conv_nth)
next
  case (snoc a p1')
  have w: "rd ((p1' @ [a]) @ t) (length (p1' @ [a])) = Inr (hd t)"
    using snoc.prems by (simp add: rd_def nth_append hd_conv_nth)
  show ?case
  proof (cases p2 rule: rev_cases)
    case Nil
    then show ?thesis using w snoc.prems
      by (subst mrca_descend.simps) simp
  next
    case (snoc p2' b)
    have a: "rd ((p1' @ [a]) @ t) (length (p1' @ [a]) - 1) = Inr a"
      by (simp add: rd_def nth_append)
    have b: "rd ((p2' @ [b]) @ t) (length (p2' @ [b]) - 1) = Inr b"
      by (simp add: rd_def nth_append)
    show ?thesis
    proof (cases "a = b")
      case True
      have ih: "mrca_descend (p1' @ a # t) (p2' @ a # t) (length p1') (length p2')
                = Inr (hd (rev (longest_common_prefix (rev p1') (rev p2')) @ a # t))"
        using snoc.IH[of "a # t" p2'] by simp
      show ?thesis
        unfolding snoc
        apply (subst mrca_descend.simps)
        using w[unfolded snoc] a b[unfolded snoc] True ih
        by (simp add: snoc)
    next
      case False
      show ?thesis
        unfolding snoc
        apply (subst mrca_descend.simps)
        using w a b False
        by (simp add: snoc)
    qed
  qed
qed


lemma path_up_Nil: "path_up parent j [] \<longleftrightarrow> j = 0"
  by (auto elim: path_up.cases intro: path_up.intros)

lemma path_up_Cons:
  "path_up parent j (k # p) \<longleftrightarrow>
     j = k \<and> j \<noteq> 0 \<and> unat j < length parent \<and> path_up parent (parent ! unat j) p"
  by (auto elim: path_up.cases intro: path_up.intros)

lemma path_up_from_nonzero:
  "path_up parent j p \<Longrightarrow> j \<noteq> 0 \<Longrightarrow> p \<noteq> [] \<and> hd p = j"
  by (auto elim: path_up.cases)

lemma common_suffix_nonempty:
  assumes "p \<noteq> []" "q \<noteq> []" "last p = last q"
  shows "rev (longest_common_prefix (rev p) (rev q)) \<noteq> []"
proof -
  obtain p' where p: "p = p' @ [last p]" using assms(1) by (metis append_butlast_last_id)
  obtain q' where q: "q = q' @ [last p]" using assms(2,3) by (metis append_butlast_last_id)
  have "longest_common_prefix (rev p) (rev q) = last p # longest_common_prefix (rev p') (rev q')"
    by (subst p, subst q) simp
  then show ?thesis by simp
qed

text \<open>
  \<^bold>\<open>C4.\<close> A call of \<open>sparse_tree_get_mrca\<close> with \<open>u\<close> or \<open>v\<close> equal to 0 or larger than
  \<open>num_nodes\<close> returns the bad-parameter error. For two nodes in range whose parent links lead
  to the same root (\<open>pu\<close> and \<open>pv\<close> are the chains of nodes from \<open>u\<close> and from \<open>v\<close> up to
  the root, of at most \<open>sample_size\<close> nodes each, as in a binary tree over \<open>sample_size\<close>
  leaves) the call returns 0 and stores a node \<open>w\<close> that lies on both chains, and no common
  ancestor of \<open>u\<close> and \<open>v\<close> is deeper (has a longer chain to the root) than \<open>w\<close>.
\<close>

theorem sparse_tree_get_mrca_correct:
  "(u = 0 \<or> v = 0 \<or> st_num_nodes self < u \<or> st_num_nodes self < v \<longrightarrow>
      sparse_tree_get_mrca self u v = Inl (Error MSP_ERR_BAD_PARAM_VALUE)) \<and>
   (u \<noteq> 0 \<and> u \<le> st_num_nodes self \<and> v \<noteq> 0 \<and> v \<le> st_num_nodes self \<and>
    path_up (st_parent self) u pu \<and> path_up (st_parent self) v pv \<and> last pu = last pv \<and>
    int (length pu) \<le> sint (st_sample_size self) \<and>
    int (length pv) \<le> sint (st_sample_size self) \<longrightarrow>
      (\<exists>w pw. sparse_tree_get_mrca self u v = Inr w \<and> w \<in> set pu \<and> w \<in> set pv \<and>
              path_up (st_parent self) w pw \<and>
              (\<forall>a pa. a \<in> set pu \<and> a \<in> set pv \<and> path_up (st_parent self) a pa
                       \<longrightarrow> length pa \<le> length pw)))"
proof (intro conjI impI)
  assume "u = 0 \<or> v = 0 \<or> st_num_nodes self < u \<or> st_num_nodes self < v"
  then show "sparse_tree_get_mrca self u v = Inl (Error MSP_ERR_BAD_PARAM_VALUE)"
    by (simp add: sparse_tree_get_mrca_def)
next
  assume h: "u \<noteq> 0 \<and> u \<le> st_num_nodes self \<and> v \<noteq> 0 \<and> v \<le> st_num_nodes self \<and>
    path_up (st_parent self) u pu \<and> path_up (st_parent self) v pv \<and> last pu = last pv \<and>
    int (length pu) \<le> sint (st_sample_size self) \<and>
    int (length pv) \<le> sint (st_sample_size self)"
  let ?P = "st_parent self"
  let ?cs = "rev (longest_common_prefix (rev pu) (rev pv))"
  from h have pu: "path_up ?P u pu" and pv: "path_up ?P v pv" by simp_all
  from h have range: "\<not> (u = 0 \<or> v = 0 \<or> st_num_nodes self < u \<or> st_num_nodes self < v)"
    by (simp add: not_less)
  have ne: "pu \<noteq> []" "pv \<noteq> []"
    using path_up_from_nonzero[OF pu] path_up_from_nonzero[OF pv] h by simp_all
  have a1: "mrca_ascend self u [] = Inr pu"
    using mrca_ascend_path[OF pu, of "[]"] h by simp
  have a2: "mrca_ascend self v [] = Inr pv"
    using mrca_ascend_path[OF pv, of "[]"] h by simp
  have cs: "?cs \<noteq> []"
    using common_suffix_nonempty[OF ne] h by simp
  have res: "sparse_tree_get_mrca self u v = Inr (hd ?cs)"
    using range a1 a2 mrca_descend_suffix[of "[0]" pu pv] cs
    by (simp add: sparse_tree_get_mrca_def)
  have s1: "suffix ?cs pu"
    by (simp add: suffix_to_prefix longest_common_prefix_prefix1)
  have s2: "suffix ?cs pv"
    by (simp add: suffix_to_prefix longest_common_prefix_prefix2)
  have m1: "hd ?cs \<in> set pu"
    using s1 cs by (meson hd_in_set set_mono_suffix subsetD)
  have m2: "hd ?cs \<in> set pv"
    using s2 cs by (meson hd_in_set set_mono_suffix subsetD)
  have pw: "path_up ?P (hd ?cs) ?cs"
    using path_up_suffix[OF pu s1 cs] .
  have mx: "length pa \<le> length ?cs"
    if "a \<in> set pu \<and> a \<in> set pv \<and> path_up ?P a pa" for a pa
  proof -
    from that path_up_member[OF pu, of a] obtain q1 where q1: "suffix q1 pu" "path_up ?P a q1"
      by blast
    from that path_up_member[OF pv, of a] obtain q2 where q2: "suffix q2 pv" "path_up ?P a q2"
      by blast
    from that q1 q2 have "q1 = pa" "q2 = pa" by (auto intro: path_up_functional)
    with q1 q2 have "prefix (rev pa) (rev pu)" "prefix (rev pa) (rev pv)"
      by (simp_all add: suffix_to_prefix)
    then have "prefix (rev pa) (longest_common_prefix (rev pu) (rev pv))"
      by (rule longest_common_prefix_max_prefix)
    then have "length (rev pa) \<le> length (longest_common_prefix (rev pu) (rev pv))"
      by (rule prefix_length_le)
    then show ?thesis by simp
  qed
  from res m1 m2 pw mx show "\<exists>w pw. sparse_tree_get_mrca self u v = Inr w \<and> w \<in> set pu \<and> w \<in> set pv \<and>
              path_up (st_parent self) w pw \<and>
              (\<forall>a pa. a \<in> set pu \<and> a \<in> set pv \<and> path_up (st_parent self) a pa
                       \<longrightarrow> length pa \<le> length pw)"
    by blast
qed

theorem sparse_tree_get_mrca_correct_witness:
  "sparse_tree_get_mrca example_tree 0 2 = Inl (Error MSP_ERR_BAD_PARAM_VALUE) \<and>
   sparse_tree_get_mrca example_tree 1 7 = Inl (Error MSP_ERR_BAD_PARAM_VALUE) \<and>
   path_up (st_parent example_tree) 1 [1, 4, 6] \<and>
   path_up (st_parent example_tree) 3 [3, 6] \<and>
   (\<exists>w pw. sparse_tree_get_mrca example_tree 1 3 = Inr w \<and> w \<in> set [1, 4, 6] \<and> w \<in> set [3, 6] \<and>
       path_up (st_parent example_tree) w pw \<and>
       (\<forall>a pa. a \<in> set [1, 4, 6] \<and> a \<in> set [3, 6] \<and> path_up (st_parent example_tree) a pa
                \<longrightarrow> length pa \<le> length pw))"
proof -
  have p1: "path_up (st_parent example_tree) 1 [1, 4, 6]"
    by (simp add: example_tree_def path_up_Cons path_up_Nil)
  have p3: "path_up (st_parent example_tree) 3 [3, 6]"
    by (simp add: example_tree_def path_up_Cons path_up_Nil)
  have r: "(1::32 word) \<le> st_num_nodes example_tree" "(3::32 word) \<le> st_num_nodes example_tree"
          "int (length [1::32 word, 4, 6]) \<le> sint (st_sample_size example_tree)"
          "int (length [3::32 word, 6]) \<le> sint (st_sample_size example_tree)"
          "st_num_nodes example_tree < 7"
    by (simp_all add: example_tree_def)
  from sparse_tree_get_mrca_correct[of 0 2 example_tree "[]" "[]"]
  have a: "sparse_tree_get_mrca example_tree 0 2 = Inl (Error MSP_ERR_BAD_PARAM_VALUE)"
    by simp
  from sparse_tree_get_mrca_correct[of 1 7 example_tree "[]" "[]"] r(5)
  have b: "sparse_tree_get_mrca example_tree 1 7 = Inl (Error MSP_ERR_BAD_PARAM_VALUE)"
    by simp
  from sparse_tree_get_mrca_correct[of 1 3 example_tree "[1, 4, 6]" "[3, 6]"] p1 p3 r
  have c: "\<exists>w pw. sparse_tree_get_mrca example_tree 1 3 = Inr w \<and> w \<in> set [1, 4, 6] \<and> w \<in> set [3, 6] \<and>
       path_up (st_parent example_tree) w pw \<and>
       (\<forall>a pa. a \<in> set [1, 4, 6] \<and> a \<in> set [3, 6] \<and> path_up (st_parent example_tree) a pa
                \<longrightarrow> length pa \<le> length pw)"
    by simp
  from a b p1 p3 c show ?thesis by blast
qed

subsection \<open>Tree diff iterator\<close>

lemma fill_node_record_ok:
  assumes "unat k < n" "n < 2 ^ 31" "length (trees_time s) = n" "length (trees_node s) = n"
          "length (trees_children s) = 2 * n"
  shows "fill_node_record s k = Inr (node_record_at s k)"
proof -
  have k: "unat k < 2 ^ 31" using assms by simp
  have "unat (2 * k) = 2 * unat k"
    using k by (simp add: unat_word_ariths)
  moreover have "unat (2 * k + 1) = 2 * unat k + 1"
    using k by (simp add: unat_word_ariths)
  ultimately show ?thesis using assms
    by (simp add: fill_node_record_def node_record_at_def rd_def)
qed


lemma sorted_run_filter:
  fixes key :: "'a \<Rightarrow> 'b::linorder"
  assumes "sorted (map key ys)" "\<forall>y\<in>set ys. L \<le> key y"
  shows "filter (\<lambda>y. key y = L) ys = takeWhile (\<lambda>y. key y = L) ys"
  using assms
proof (induction ys)
  case Nil
  then show ?case by simp
next
  case (Cons y ys)
  show ?case
  proof (cases "key y = L")
    case True
    then show ?thesis using Cons by simp
  next
    case False
    then have "L < key y" using Cons.prems by (simp add: order.strict_iff_order)
    then have "\<forall>z\<in>set ys. key z \<noteq> L" using Cons.prems by auto
    then have "filter (\<lambda>y. key y = L) ys = []" by (simp add: filter_empty_conv)
    then show ?thesis using False by simp
  qed
qed

lemma sorted_run_after:
  fixes key :: "'a \<Rightarrow> 'b::linorder"
  assumes "sorted (map key ys)" "\<forall>y\<in>set ys. L \<le> key y"
  shows "\<forall>y\<in>set (dropWhile (\<lambda>y. key y = L) ys). L < key y"
  using assms
proof (induction ys)
  case Nil
  then show ?case by simp
next
  case (Cons y ys)
  show ?case
  proof (cases "key y = L")
    case True
    then show ?thesis using Cons by simp
  next
    case False
    then have "L < key y" using Cons.prems by (simp add: order.strict_iff_order)
    then show ?thesis using Cons.prems False by auto
  qed
qed

lemma takeWhile_stops:
  assumes "n < length ys" "\<not> P (ys ! n)"
  shows "length (takeWhile P ys) \<le> n"
proof (rule ccontr)
  assume "\<not> length (takeWhile P ys) \<le> n"
  then have n: "n < length (takeWhile P ys)" by simp
  then have "takeWhile P ys ! n \<in> set (takeWhile P ys)" by simp
  then have "P (takeWhile P ys ! n)" by (auto dest: set_takeWhileD)
  then show False using assms n by (simp add: takeWhile_nth)
qed

text \<open>
  In a list sorted by \<open>key\<close> whose first \<open>i\<close> entries lie below \<open>L\<close> and whose other entries do
  not, the entries with key \<open>L\<close> are the run that starts at \<open>i\<close>.
\<close>

lemma sorted_run:
  fixes key :: "'a \<Rightarrow> 'b::linorder"
  assumes s: "sorted (map key xs)"
      and lo: "\<forall>j<i. key (xs ! j) < L"
      and hi: "\<forall>j. i \<le> j \<and> j < length xs \<longrightarrow> L \<le> key (xs ! j)"
      and i: "i \<le> length xs"
  defines "m \<equiv> length (takeWhile (\<lambda>y. key y = L) (drop i xs))"
  shows "i + m \<le> length xs"
    and "filter (\<lambda>y. key y = L) xs = take m (drop i xs)"
    and "\<forall>j<m. key (xs ! (i + j)) = L"
    and "\<forall>j. i + m \<le> j \<and> j < length xs \<longrightarrow> L < key (xs ! j)"
proof -
  let ?P = "\<lambda>y. key y = L"
  let ?ys = "drop i xs"
  have sy: "sorted (map key ?ys)" using s by (simp add: sorted_wrt_drop flip: drop_map)
  have hy: "\<forall>y\<in>set ?ys. L \<le> key y"
  proof
    fix y assume "y \<in> set ?ys"
    then obtain j where "j < length ?ys" "?ys ! j = y" by (auto simp: in_set_conv_nth)
    then show "L \<le> key y" using hi[rule_format, of "i + j"] by auto
  qed
  have ml: "m \<le> length ?ys" unfolding m_def by (rule length_takeWhile_le)
  then show 1: "i + m \<le> length xs" using i by simp
  have "key y \<noteq> L" if "y \<in> set (take i xs)" for y
  proof -
    from that obtain j where "j < length (take i xs)" "take i xs ! j = y"
      by (auto simp: in_set_conv_nth)
    then have "j < i" "xs ! j = y" by simp_all
    then show ?thesis using lo by auto
  qed
  then have "filter ?P (take i xs) = []"
    by (simp add: filter_empty_conv)
  then have "filter ?P xs = filter ?P ?ys"
    by (metis append_Nil append_take_drop_id filter_append)
  also have "\<dots> = takeWhile ?P ?ys" using sorted_run_filter[OF sy hy] .
  also have "\<dots> = take m ?ys" unfolding m_def by (rule takeWhile_eq_take)
  finally show "filter ?P xs = take m ?ys" .
  show "\<forall>j<m. key (xs ! (i + j)) = L"
  proof (intro allI impI)
    fix j assume j: "j < m"
    then have "takeWhile ?P ?ys ! j \<in> set (takeWhile ?P ?ys)" unfolding m_def by simp
    then have "?P (takeWhile ?P ?ys ! j)" by (auto dest: set_takeWhileD)
    then have "?P (?ys ! j)" using j unfolding m_def by (simp add: takeWhile_nth)
    then show "key (xs ! (i + j)) = L" using j ml i by simp
  qed
  show "\<forall>j. i + m \<le> j \<and> j < length xs \<longrightarrow> L < key (xs ! j)"
  proof (intro allI impI)
    fix j assume j: "i + m \<le> j \<and> j < length xs"
    have d: "dropWhile ?P ?ys = drop m ?ys" unfolding m_def by (rule dropWhile_eq_drop)
    have "xs ! j = drop m ?ys ! (j - (i + m))" using j by simp
    moreover have "j - (i + m) < length (drop m ?ys)" using j by auto
    ultimately have "xs ! j \<in> set (dropWhile ?P ?ys)" unfolding d by (metis nth_mem)
    then show "L < key (xs ! j)" using sorted_run_after[OF sy hy] by blast
  qed
qed

lemma indexes_sorted_removal:
  assumes "indexes_sorted ts"
  shows "length (trees_removal_order ts) = num_records ts"
    and "unat ` set (trees_removal_order ts) = {0..<num_records ts}"
    and "sorted (map (\<lambda>k. trees_right ts ! unat k) (trees_removal_order ts))"
proof -
  from assms have m: "mset (map unat (trees_removal_order ts)) = mset [0..<num_records ts]"
    and s: "sorted_wrt (\<lambda>a b. trees_right ts ! a < trees_right ts ! b \<or>
                   (trees_right ts ! a = trees_right ts ! b \<and> trees_time ts ! b \<le> trees_time ts ! a))
              (map unat (trees_removal_order ts))"
    by (simp_all add: indexes_sorted_def)
  from m have "length (map unat (trees_removal_order ts)) = length [0..<num_records ts]"
    by (rule mset_eq_length)
  then show "length (trees_removal_order ts) = num_records ts" by simp
  from m have "set (map unat (trees_removal_order ts)) = set [0..<num_records ts]"
    by (rule mset_eq_setD)
  then show "unat ` set (trees_removal_order ts) = {0..<num_records ts}" by simp
  from s have "sorted_wrt (\<lambda>a b. trees_right ts ! unat a \<le> trees_right ts ! unat b) (trees_removal_order ts)"
    unfolding sorted_wrt_map by (rule sorted_wrt_mono_rel[rotated]) auto
  then show "sorted (map (\<lambda>k. trees_right ts ! unat k) (trees_removal_order ts))"
    by (simp add: sorted_map)
qed

lemma indexes_sorted_insertion:
  assumes "indexes_sorted ts"
  shows "length (trees_insertion_order ts) = num_records ts"
    and "unat ` set (trees_insertion_order ts) = {0..<num_records ts}"
    and "sorted (map (\<lambda>k. trees_left ts ! unat k) (trees_insertion_order ts))"
proof -
  from assms have m: "mset (map unat (trees_insertion_order ts)) = mset [0..<num_records ts]"
    and s: "sorted_wrt (\<lambda>a b. trees_left ts ! a < trees_left ts ! b \<or>
                   (trees_left ts ! a = trees_left ts ! b \<and> trees_time ts ! a \<le> trees_time ts ! b))
              (map unat (trees_insertion_order ts))"
    by (simp_all add: indexes_sorted_def)
  from m have "length (map unat (trees_insertion_order ts)) = length [0..<num_records ts]"
    by (rule mset_eq_length)
  then show "length (trees_insertion_order ts) = num_records ts" by simp
  from m have "set (map unat (trees_insertion_order ts)) = set [0..<num_records ts]"
    by (rule mset_eq_setD)
  then show "unat ` set (trees_insertion_order ts) = {0..<num_records ts}" by simp
  from s have "sorted_wrt (\<lambda>a b. trees_left ts ! unat a \<le> trees_left ts ! unat b) (trees_insertion_order ts)"
    unfolding sorted_wrt_map by (rule sorted_wrt_mono_rel[rotated]) auto
  then show "sorted (map (\<lambda>k. trees_left ts ! unat k) (trees_insertion_order ts))"
    by (simp add: sorted_map)
qed

text \<open>An index column lists each cell of a record column once.\<close>

lemma column_count:
  assumes "mset (map unat order) = mset [0..<n]" "length col = n"
  shows "length (filter (\<lambda>k. col ! unat k = L) order) = length (filter (\<lambda>x. x = L) col)"
proof -
  have "mset (map (\<lambda>k. col ! unat k) order) = image_mset (\<lambda>i. col ! i) (mset (map unat order))"
    by (simp add: multiset.map_comp comp_def)
  also have "\<dots> = mset (map (\<lambda>i. col ! i) [0..<n])" by (simp only: assms(1) flip: mset_map)
  also have "\<dots> = mset col" using map_nth[of col] assms(2) by (simp only:)
  finally have e: "mset (map (\<lambda>k. col ! unat k) order) = mset col" .
  have c: "length (filter P xs) = size (filter_mset P (mset xs))" for P and xs :: "'b list"
    by (metis size_mset mset_filter)
  have "length (filter (\<lambda>k. col ! unat k = L) order)
        = length (filter (\<lambda>x. x = L) (map (\<lambda>k. col ! unat k) order))"
    by (simp add: filter_map comp_def)
  also have "\<dots> = length (filter (\<lambda>x. x = L) col)"
    by (simp only: c e)
  finally show ?thesis .
qed


lemma diff_remove_run:
  assumes "di_tree_sequence self = ts"
      and "num_records ts < 2 ^ 31" "length (trees_time ts) = num_records ts"
          "length (trees_node ts) = num_records ts" "length (trees_children ts) = 2 * num_records ts"
          "length (trees_right ts) = num_records ts"
      and "\<forall>k\<in>set (trees_removal_order ts). unat k < num_records ts"
      and "di_removal_index self + m < length (trees_removal_order ts)"
      and "\<forall>j<m. trees_right ts ! unat (trees_removal_order ts ! (di_removal_index self + j))
                  = di_tree_left self"
      and "trees_right ts ! unat (trees_removal_order ts ! (di_removal_index self + m))
             \<noteq> di_tree_left self"
      and "n + m \<le> unat (2 * di_sample_size self)"
  shows "diff_remove self n out
         = Inr (self\<lparr>di_removal_index := di_removal_index self + m\<rparr>, n + m,
                out @ map (node_record_at ts)
                        (take m (drop (di_removal_index self) (trees_removal_order ts))))"
  using assms
proof (induction m arbitrary: self n out)
  case 0
  let ?k = "trees_removal_order ts ! di_removal_index self"
  have k: "unat ?k < num_records ts" using 0 by simp
  show ?case
    apply (subst diff_remove.simps)
    using 0 k by (simp add: rd_def)
next
  case (Suc m)
  let ?i = "di_removal_index self"
  let ?k = "trees_removal_order ts ! ?i"
  let ?self = "self\<lparr>di_removal_index := ?i + 1\<rparr>"
  have i: "?i < length (trees_removal_order ts)" using Suc.prems by simp
  have k: "unat ?k < num_records ts" using Suc.prems i by simp
  have r: "trees_right ts ! unat ?k = di_tree_left self" using Suc.prems(9) by force
  have f: "fill_node_record ts ?k = Inr (node_record_at ts ?k)"
    using fill_node_record_ok[OF k] Suc.prems by simp
  have ih: "diff_remove ?self (n + 1) (out @ [node_record_at ts ?k])
            = Inr (?self\<lparr>di_removal_index := di_removal_index ?self + m\<rparr>, (n + 1) + m,
                   (out @ [node_record_at ts ?k]) @ map (node_record_at ts)
                      (take m (drop (di_removal_index ?self) (trees_removal_order ts))))"
  proof (rule Suc.IH)
    show "\<forall>j<m. trees_right ts ! unat (trees_removal_order ts ! (di_removal_index ?self + j))
                  = di_tree_left ?self"
      using Suc.prems(9) by (auto dest: spec[of _ "Suc j" for j])
  qed (use Suc.prems in simp_all)
  have d: "take (Suc m) (drop ?i (trees_removal_order ts))
           = ?k # take m (drop (Suc ?i) (trees_removal_order ts))"
    using i by (simp flip: Cons_nth_drop_Suc)
  show ?case
    apply (subst diff_remove.simps)
    using Suc.prems(1,6,11) i k r f ih d by (simp add: rd_def)
qed


lemma diff_insert_run:
  assumes "di_tree_sequence self = ts" "di_num_records self = num_records ts"
      and "num_records ts < 2 ^ 31" "length (trees_time ts) = num_records ts"
          "length (trees_node ts) = num_records ts" "length (trees_children ts) = 2 * num_records ts"
          "length (trees_left ts) = num_records ts"
          "length (trees_insertion_order ts) = num_records ts"
      and "\<forall>k\<in>set (trees_insertion_order ts). unat k < num_records ts"
      and "di_insertion_index self + m \<le> num_records ts"
      and "\<forall>j<m. trees_left ts ! unat (trees_insertion_order ts ! (di_insertion_index self + j))
                  = di_tree_left self"
      and "di_insertion_index self + m < num_records ts \<longrightarrow>
           trees_left ts ! unat (trees_insertion_order ts ! (di_insertion_index self + m))
             \<noteq> di_tree_left self"
      and "n + m \<le> unat (2 * di_sample_size self)"
  shows "diff_insert self n inl
         = Inr (self\<lparr>di_insertion_index := di_insertion_index self + m\<rparr>, n + m,
                inl @ map (node_record_at ts)
                        (take m (drop (di_insertion_index self) (trees_insertion_order ts))))"
  using assms
proof (induction m arbitrary: self n inl)
  case 0
  let ?k = "trees_insertion_order ts ! di_insertion_index self"
  show ?case
  proof (cases "di_insertion_index self < num_records ts")
    case True
    then have k: "unat ?k < num_records ts" using 0 by simp
    show ?thesis
      apply (subst diff_insert.simps)
      using 0 k True by (simp add: rd_def)
  next
    case False
    show ?thesis
      apply (subst diff_insert.simps)
      using 0 False by simp
  qed
next
  case (Suc m)
  let ?i = "di_insertion_index self"
  let ?k = "trees_insertion_order ts ! ?i"
  let ?self = "self\<lparr>di_insertion_index := ?i + 1\<rparr>"
  have i: "?i < num_records ts" using Suc.prems by simp
  have k: "unat ?k < num_records ts" using Suc.prems i by simp
  have r: "trees_left ts ! unat ?k = di_tree_left self" using Suc.prems(11) by force
  have f: "fill_node_record ts ?k = Inr (node_record_at ts ?k)"
    using fill_node_record_ok[OF k] Suc.prems by simp
  have ih: "diff_insert ?self (n + 1) (inl @ [node_record_at ts ?k])
            = Inr (?self\<lparr>di_insertion_index := di_insertion_index ?self + m\<rparr>, (n + 1) + m,
                   (inl @ [node_record_at ts ?k]) @ map (node_record_at ts)
                      (take m (drop (di_insertion_index ?self) (trees_insertion_order ts))))"
  proof (rule Suc.IH)
    show "\<forall>j<m. trees_left ts ! unat (trees_insertion_order ts ! (di_insertion_index ?self + j))
                  = di_tree_left ?self"
      using Suc.prems(11) by (auto dest: spec[of _ "Suc j" for j])
  qed (use Suc.prems in simp_all)
  have d: "take (Suc m) (drop ?i (trees_insertion_order ts))
           = ?k # take m (drop (Suc ?i) (trees_insertion_order ts))"
    using i Suc.prems(8) by (simp flip: Cons_nth_drop_Suc)
  show ?case
    apply (subst diff_insert.simps)
    using Suc.prems(1,2,7,8,13) i k r f ih d by (simp add: rd_def)
qed


lemma records_contiguousD:
  assumes "records_contiguous ts"
  shows "num_records ts < 2 ^ 31"
    and "length (trees_left ts) = num_records ts"
    and "length (trees_right ts) = num_records ts"
    and "length (trees_node ts) = num_records ts"
    and "length (trees_time ts) = num_records ts"
    and "length (trees_children ts) = 2 * num_records ts"
    and "indexes_sorted ts"
    and "\<And>j. j < num_records ts \<Longrightarrow> trees_left ts ! j < trees_right ts ! j"
    and "\<And>l. l \<in> set (trees_left ts) \<Longrightarrow> l \<noteq> 0 \<Longrightarrow> l \<in> set (trees_right ts)"
    and "\<And>x. x = 0 \<or> x \<in> set (trees_right ts) \<Longrightarrow>
           length (filter (\<lambda>r. r = x) (trees_right ts)) + length (filter (\<lambda>l. l = x) (trees_left ts))
             \<le> unat (2 * sample_size ts)"
proof -
  from assms show a: "num_records ts < 2 ^ 31" "length (trees_left ts) = num_records ts"
    "length (trees_right ts) = num_records ts" "length (trees_node ts) = num_records ts"
    "length (trees_time ts) = num_records ts" "length (trees_children ts) = 2 * num_records ts"
    "indexes_sorted ts"
    by (simp_all add: records_contiguous_def)
  from assms have z: "\<forall>(l, r) \<in> set (zip (trees_left ts) (trees_right ts)). l < r"
    by (simp add: records_contiguous_def)
  show "trees_left ts ! j < trees_right ts ! j" if "j < num_records ts" for j
  proof -
    have "(trees_left ts ! j, trees_right ts ! j) \<in> set (zip (trees_left ts) (trees_right ts))"
      using that a(2,3) by (auto simp: set_zip)
    then show ?thesis using z by blast
  qed
  show "l \<in> set (trees_right ts)" if "l \<in> set (trees_left ts)" "l \<noteq> 0" for l
    using assms that by (auto simp: records_contiguous_def)
  show "length (filter (\<lambda>r. r = x) (trees_right ts)) + length (filter (\<lambda>l. l = x) (trees_left ts))
             \<le> unat (2 * sample_size ts)" if "x = 0 \<or> x \<in> set (trees_right ts)" for x
  proof -
    from assms have "\<forall>x \<in> set (0 # trees_right ts).
         length (filter (\<lambda>r. r = x) (trees_right ts)) + length (filter (\<lambda>l. l = x) (trees_left ts))
           \<le> unat (2 * sample_size ts)"
      by (simp add: records_contiguous_def)
    moreover have "x \<in> set (0 # trees_right ts)" using that by auto
    ultimately show ?thesis by blast
  qed
qed

lemma contiguous_aligned: "records_contiguous ts \<Longrightarrow> records_aligned ts"
  by (simp add: records_contiguous_def records_aligned_def)

lemma records_alignedD:
  assumes "records_aligned ts"
  shows "num_records ts < 2 ^ 31"
    and "length (trees_left ts) = num_records ts"
    and "length (trees_right ts) = num_records ts"
    and "length (trees_node ts) = num_records ts"
    and "length (trees_time ts) = num_records ts"
    and "length (trees_children ts) = 2 * num_records ts"
    and "indexes_sorted ts"
    and "\<And>j. j < num_records ts \<Longrightarrow> trees_left ts ! j < trees_right ts ! j"
    and "\<And>l. l \<in> set (trees_left ts) \<Longrightarrow> l \<noteq> 0 \<Longrightarrow> l \<in> set (trees_right ts)"
proof -
  from assms show a: "num_records ts < 2 ^ 31" "length (trees_left ts) = num_records ts"
    "length (trees_right ts) = num_records ts" "length (trees_node ts) = num_records ts"
    "length (trees_time ts) = num_records ts" "length (trees_children ts) = 2 * num_records ts"
    "indexes_sorted ts"
    by (simp_all add: records_aligned_def)
  from assms have z: "\<forall>(l, r) \<in> set (zip (trees_left ts) (trees_right ts)). l < r"
    by (simp add: records_aligned_def)
  show "trees_left ts ! j < trees_right ts ! j" if "j < num_records ts" for j
  proof -
    have "(trees_left ts ! j, trees_right ts ! j) \<in> set (zip (trees_left ts) (trees_right ts))"
      using that a(2,3) by (auto simp: set_zip)
    then show ?thesis using z by blast
  qed
  show "l \<in> set (trees_right ts)" if "l \<in> set (trees_left ts)" "l \<noteq> 0" for l
    using assms that by (auto simp: records_aligned_def)
qed

lemma order_position:
  assumes "unat ` set (order :: 32 word list) = {0..<n}" "unat (k :: 32 word) < n"
  shows "\<exists>j<length order. order ! j = k"
proof -
  from assms have "unat k \<in> unat ` set order" by simp
  then obtain k' where k': "k' \<in> set order" "unat k' = unat k" by auto
  from k'(2) have "k' = k" by (rule unsigned_word_eqI)
  with k'(1) have "k \<in> set order" by simp
  then show ?thesis by (simp add: in_set_conv_nth)
qed

lemma order_range:
  assumes "unat ` set order = {0..<n}" "k \<in> set order"
  shows "unat (k :: 32 word) < n"
  using assms by auto


lemma removal_facts:
  assumes wf: "records_aligned ts" and inv: "diff_state ts it"
      and lt: "di_insertion_index it < num_records ts"
  defines "m \<equiv> length (takeWhile (\<lambda>k. trees_right ts ! unat k = di_tree_left it)
                        (drop (di_removal_index it) (trees_removal_order ts)))"
  shows "di_removal_index it + m < num_records ts"
    and "filter (\<lambda>k. trees_right ts ! unat k = di_tree_left it) (trees_removal_order ts)
         = take m (drop (di_removal_index it) (trees_removal_order ts))"
    and "\<forall>j<m. trees_right ts ! unat (trees_removal_order ts ! (di_removal_index it + j))
                = di_tree_left it"
    and "\<forall>j. di_removal_index it + m \<le> j \<and> j < num_records ts \<longrightarrow>
             di_tree_left it < trees_right ts ! unat (trees_removal_order ts ! j)"
    and "m = length (filter (\<lambda>r. r = di_tree_left it) (trees_right ts))"
proof -
  let ?ro = "trees_removal_order ts" and ?io = "trees_insertion_order ts"
  let ?ri = "di_removal_index it" and ?ii = "di_insertion_index it"
  let ?L = "di_tree_left it"
  let ?rt = "\<lambda>k. trees_right ts ! unat k"
  note w = records_alignedD[OF wf]
  note rem = indexes_sorted_removal[OF w(7)]
  note ins = indexes_sorted_insertion[OF w(7)]
  have lo: "\<forall>j<?ri. ?rt (?ro ! j) < ?L" using inv by (simp add: diff_state_def)
  have hi: "\<forall>j. ?ri \<le> j \<and> j < length ?ro \<longrightarrow> ?L \<le> ?rt (?ro ! j)"
    using inv rem(1) by (simp add: diff_state_def)
  have i: "?ri \<le> length ?ro" using inv rem(1) by (simp add: diff_state_def)
  note run = sorted_run[of ?rt ?ro ?ri ?L, OF rem(3) lo hi i, folded m_def]
  show 2: "filter (\<lambda>k. ?rt k = ?L) ?ro = take m (drop ?ri ?ro)" by (rule run(2))
  show "\<forall>j<m. ?rt (?ro ! (?ri + j)) = ?L" by (rule run(3))
  show "\<forall>j. ?ri + m \<le> j \<and> j < num_records ts \<longrightarrow> ?L < ?rt (?ro ! j)"
    using run(4) rem(1) by simp
  have "length (filter (\<lambda>k. ?rt k = ?L) ?ro) = m" unfolding 2 using run(1) by simp
  moreover have "length (filter (\<lambda>k. ?rt k = ?L) ?ro) = length (filter (\<lambda>r. r = ?L) (trees_right ts))"
    using w(7) w(3) by (intro column_count[where n = "num_records ts"]) (simp_all add: indexes_sorted_def)
  ultimately show "m = length (filter (\<lambda>r. r = ?L) (trees_right ts))" by simp
  show "?ri + m < num_records ts"
  proof -
    let ?k = "?io ! ?ii"
    have "?k \<in> set ?io" using lt ins(1) by simp
    then have k: "unat ?k < num_records ts" using order_range[OF ins(2)] by blast
    have "?L \<le> trees_left ts ! unat ?k" using inv lt by (simp add: diff_state_def)
    also have "\<dots> < ?rt ?k" using w(8)[OF k] .
    finally have gt: "?L < ?rt ?k" .
    from order_position[OF rem(2) k] obtain j where j: "j < length ?ro" "?ro ! j = ?k" by blast
    have "\<not> j < ?ri" using lo j(2) gt by auto
    then have ge: "?ri \<le> j" by simp
    have "m \<le> j - ?ri" unfolding m_def
    proof (rule takeWhile_stops)
      show "j - ?ri < length (drop ?ri ?ro)" using j(1) ge i by simp
      show "\<not> ?rt (drop ?ri ?ro ! (j - ?ri)) = ?L" using ge j gt by simp
    qed
    then show ?thesis using ge j(1) rem(1) by simp
  qed
qed

lemma insertion_facts:
  assumes wf: "records_aligned ts" and inv: "diff_state ts it"
  defines "m \<equiv> length (takeWhile (\<lambda>k. trees_left ts ! unat k = di_tree_left it)
                        (drop (di_insertion_index it) (trees_insertion_order ts)))"
  shows "di_insertion_index it + m \<le> num_records ts"
    and "filter (\<lambda>k. trees_left ts ! unat k = di_tree_left it) (trees_insertion_order ts)
         = take m (drop (di_insertion_index it) (trees_insertion_order ts))"
    and "\<forall>j<m. trees_left ts ! unat (trees_insertion_order ts ! (di_insertion_index it + j))
                = di_tree_left it"
    and "\<forall>j. di_insertion_index it + m \<le> j \<and> j < num_records ts \<longrightarrow>
             di_tree_left it < trees_left ts ! unat (trees_insertion_order ts ! j)"
    and "m = length (filter (\<lambda>l. l = di_tree_left it) (trees_left ts))"
proof -
  let ?io = "trees_insertion_order ts"
  let ?ii = "di_insertion_index it"
  let ?L = "di_tree_left it"
  let ?lf = "\<lambda>k. trees_left ts ! unat k"
  note w = records_alignedD[OF wf]
  note ins = indexes_sorted_insertion[OF w(7)]
  have lo: "\<forall>j<?ii. ?lf (?io ! j) < ?L" using inv by (simp add: diff_state_def)
  have hi: "\<forall>j. ?ii \<le> j \<and> j < length ?io \<longrightarrow> ?L \<le> ?lf (?io ! j)"
    using inv ins(1) by (simp add: diff_state_def)
  have i: "?ii \<le> length ?io" using inv ins(1) by (simp add: diff_state_def)
  note run = sorted_run[of ?lf ?io ?ii ?L, OF ins(3) lo hi i, folded m_def]
  show "?ii + m \<le> num_records ts" using run(1) ins(1) by simp
  show 2: "filter (\<lambda>k. ?lf k = ?L) ?io = take m (drop ?ii ?io)" by (rule run(2))
  show "\<forall>j<m. ?lf (?io ! (?ii + j)) = ?L" by (rule run(3))
  show "\<forall>j. ?ii + m \<le> j \<and> j < num_records ts \<longrightarrow> ?L < ?lf (?io ! j)"
    using run(4) ins(1) by simp
  have "length (filter (\<lambda>k. ?lf k = ?L) ?io) = m" unfolding 2 using run(1) by simp
  moreover have "length (filter (\<lambda>k. ?lf k = ?L) ?io) = length (filter (\<lambda>r. r = ?L) (trees_left ts))"
    using w(7) w(2) by (intro column_count[where n = "num_records ts"]) (simp_all add: indexes_sorted_def)
  ultimately show "m = length (filter (\<lambda>l. l = ?L) (trees_left ts))" by simp
qed


lemma diff_next_step:
  assumes wf: "records_contiguous ts" and inv: "diff_state ts it"
      and lt: "di_insertion_index it < num_records ts"
  shows "\<exists>it'. tree_diff_iterator_next it
           = Inr ((1, di_tree_left it' - di_tree_left it,
                   map (node_record_at ts)
                     (filter (\<lambda>k. trees_right ts ! unat k = di_tree_left it) (trees_removal_order ts)),
                   map (node_record_at ts)
                     (filter (\<lambda>k. trees_left ts ! unat k = di_tree_left it) (trees_insertion_order ts))),
                  it') \<and>
           diff_state ts it' \<and> di_removal_index it' < num_records ts \<and>
           di_tree_left it' = trees_right ts ! unat (trees_removal_order ts ! di_removal_index it') \<and>
           di_tree_left it < di_tree_left it'"
proof -
  let ?ro = "trees_removal_order ts" and ?io = "trees_insertion_order ts"
  let ?ri = "di_removal_index it" and ?ii = "di_insertion_index it"
  let ?L = "di_tree_left it"
  let ?rt = "\<lambda>k. trees_right ts ! unat k" and ?lf = "\<lambda>k. trees_left ts ! unat k"
  define m where "m = length (takeWhile (\<lambda>k. ?rt k = ?L) (drop ?ri ?ro))"
  define m' where "m' = length (takeWhile (\<lambda>k. ?lf k = ?L) (drop ?ii ?io))"
  note w = records_contiguousD[OF wf]
  note rem = indexes_sorted_removal[OF w(7)]
  note ins = indexes_sorted_insertion[OF w(7)]
  note rf = removal_facts[OF contiguous_aligned[OF wf] inv lt, folded m_def]
  note jf = insertion_facts[OF contiguous_aligned[OF wf] inv, folded m'_def]
  have st: "di_tree_sequence it = ts" "di_num_records it = num_records ts"
           "di_sample_size it = sample_size ts"
           "?L = 0 \<or> ?L \<in> set (trees_right ts)"
    using inv by (simp_all add: diff_state_def)
  have lo_r: "\<forall>j<?ri. ?rt (?ro ! j) < ?L" and lo_i: "\<forall>j<?ii. ?lf (?io ! j) < ?L"
    using inv by (simp_all add: diff_state_def)
  have rng_r: "\<forall>k\<in>set ?ro. unat k < num_records ts" using order_range[OF rem(2)] by blast
  have rng_i: "\<forall>k\<in>set ?io. unat k < num_records ts" using order_range[OF ins(2)] by blast
  have bound: "m + m' \<le> unat (2 * sample_size ts)"
    using w(10)[OF st(4)] rf(5) jf(5) by simp
  define L' where "L' = ?rt (?ro ! (?ri + m))"
  define it1 where "it1 = it\<lparr>di_removal_index := ?ri + m\<rparr>"
  define it2 where "it2 = it1\<lparr>di_insertion_index := ?ii + m'\<rparr>"
  define it3 where "it3 = it2\<lparr>di_tree_left := L'\<rparr>"
  have gt: "?L < L'" unfolding L'_def using rf(1,4) by simp
  have k': "unat (?ro ! (?ri + m)) < num_records ts" using rng_r rf(1) rem(1) by simp
  have r1: "diff_remove it 0 []
            = Inr (it1, m, map (node_record_at ts) (filter (\<lambda>k. ?rt k = ?L) ?ro))"
  proof -
    have "diff_remove it 0 [] = Inr (it\<lparr>di_removal_index := ?ri + m\<rparr>, 0 + m,
             [] @ map (node_record_at ts) (take m (drop ?ri ?ro)))"
    proof (rule diff_remove_run[OF st(1) w(1) w(5) w(4) w(6) w(3) rng_r])
      show "?ri + m < length ?ro" using rf(1) rem(1) by simp
      show "\<forall>j<m. ?rt (?ro ! (?ri + j)) = ?L" by (rule rf(3))
      show "?rt (?ro ! (?ri + m)) \<noteq> ?L" using gt unfolding L'_def by simp
      show "0 + m \<le> unat (2 * di_sample_size it)" using bound st(3) by simp
    qed
    then show ?thesis unfolding it1_def rf(2) by simp
  qed
  have r2: "diff_insert it1 m []
            = Inr (it2, m + m', map (node_record_at ts) (filter (\<lambda>k. ?lf k = ?L) ?io))"
  proof -
    have e: "di_tree_sequence it1 = ts" "di_num_records it1 = num_records ts"
            "di_insertion_index it1 = ?ii" "di_tree_left it1 = ?L"
            "di_sample_size it1 = sample_size ts"
      using st by (simp_all add: it1_def)
    have "diff_insert it1 m [] = Inr (it1\<lparr>di_insertion_index := di_insertion_index it1 + m'\<rparr>, m + m',
             [] @ map (node_record_at ts) (take m' (drop (di_insertion_index it1) ?io)))"
    proof (rule diff_insert_run[OF e(1) e(2) w(1) w(5) w(4) w(6) w(2) ins(1) rng_i])
      show "di_insertion_index it1 + m' \<le> num_records ts" using jf(1) e by simp
      show "\<forall>j<m'. ?lf (?io ! (di_insertion_index it1 + j)) = di_tree_left it1"
        using jf(3) e by simp
      show "di_insertion_index it1 + m' < num_records ts \<longrightarrow>
            ?lf (?io ! (di_insertion_index it1 + m')) \<noteq> di_tree_left it1"
        using jf(4) e by auto
      show "m + m' \<le> unat (2 * di_sample_size it1)" using bound e by simp
    qed
    then show ?thesis unfolding it2_def jf(2) e by simp
  qed
  have e2: "di_removal_index it2 = ?ri + m" "di_insertion_index it2 = ?ii + m'"
           "di_tree_sequence it2 = ts" "di_num_records it2 = num_records ts"
           "di_sample_size it2 = sample_size ts"
    using st by (simp_all add: it2_def it1_def)
  have e3: "di_removal_index it3 = ?ri + m" "di_insertion_index it3 = ?ii + m'"
           "di_tree_sequence it3 = ts" "di_num_records it3 = num_records ts"
           "di_sample_size it3 = sample_size ts" "di_tree_left it3 = L'"
    using e2 by (simp_all add: it3_def)
  have nx: "tree_diff_iterator_next it
            = Inr ((1, L' - ?L, map (node_record_at ts) (filter (\<lambda>k. ?rt k = ?L) ?ro),
                    map (node_record_at ts) (filter (\<lambda>k. ?lf k = ?L) ?io)), it3)"
    using lt st(1,2) r1 r2 e2(1) rf(1) rem(1) k' w(3)
    by (simp add: tree_diff_iterator_next_def Let_def rd_def L'_def it3_def)
  have mono: "?rt (?ro ! a) \<le> ?rt (?ro ! b)" if "a \<le> b" "b < num_records ts" for a b
    using sorted_nth_mono[OF rem(3), of a b] that rem(1) by simp
  have inv': "diff_state ts it3"
    unfolding diff_state_def e3
  proof (intro conjI allI impI)
    show "?ii + m' \<le> num_records ts" by (rule jf(1))
    show "?ri + m \<le> num_records ts" using rf(1) by simp
    show "L' = 0 \<or> L' \<in> set (trees_right ts)"
      unfolding L'_def using k' w(3) by simp
  next
    fix j assume j: "j < ?ri + m"
    show "?rt (?ro ! j) < L'"
    proof (cases "j < ?ri")
      case True
      then show ?thesis using lo_r gt by (meson order.strict_trans)
    next
      case False
      then have "?rt (?ro ! (?ri + (j - ?ri))) = ?L" using rf(3) j by (metis add_diff_inverse_nat nat_add_left_cancel_less)
      then show ?thesis using gt False by simp
    qed
  next
    fix j assume "?ri + m \<le> j \<and> j < num_records ts"
    then show "L' \<le> ?rt (?ro ! j)" unfolding L'_def using mono by blast
  next
    fix j assume j: "j < ?ii + m'"
    show "?lf (?io ! j) < L'"
    proof (cases "j < ?ii")
      case True
      then show ?thesis using lo_i gt by (meson order.strict_trans)
    next
      case False
      then have "?lf (?io ! (?ii + (j - ?ii))) = ?L" using jf(3) j by (metis add_diff_inverse_nat nat_add_left_cancel_less)
      then show ?thesis using gt False by simp
    qed
  next
    fix j assume j: "?ii + m' \<le> j \<and> j < num_records ts"
    let ?l = "?lf (?io ! j)"
    have l: "?L < ?l" using jf(4) j by blast
    then have "?l \<noteq> 0" by (metis word_not_simps(1))
    moreover have "unat (?io ! j) < num_records ts" using rng_i j ins(1) by simp
    then have "?l \<in> set (trees_left ts)" using w(2) by simp
    ultimately have "?l \<in> set (trees_right ts)" by (rule w(9)[rotated])
    then obtain i where i: "i < num_records ts" "trees_right ts ! i = ?l"
      using w(3) by (auto simp: in_set_conv_nth)
    have "unat (word_of_nat i :: 32 word) = i" using i(1) w(1)
      by (simp add: unat_of_nat take_bit_nat_eq_self)
    with i have "unat (word_of_nat i :: 32 word) < num_records ts" "?rt (word_of_nat i :: 32 word) = ?l" by simp_all
    with order_position[OF rem(2), of "word_of_nat i :: 32 word"] obtain a
      where a: "a < length ?ro" "?rt (?ro ! a) = ?l" by auto
    have "\<not> a < ?ri + m"
    proof
      assume c: "a < ?ri + m"
      have "?rt (?ro ! a) \<le> ?L"
      proof (cases "a < ?ri")
        case True
        then show ?thesis using lo_r by (simp add: order.strict_implies_order)
      next
        case False
        then have "?rt (?ro ! (?ri + (a - ?ri))) = ?L" using rf(3) c by (metis add_diff_inverse_nat nat_add_left_cancel_less)
        then show ?thesis using False by simp
      qed
      then show False using a(2) l by simp
    qed
    then have "L' \<le> ?rt (?ro ! a)" unfolding L'_def using mono[of "?ri + m" a] a(1) rem(1) by simp
    then show "L' \<le> ?l" using a(2) by simp
  qed (simp_all)
  show ?thesis
    using nx inv' e3 rf(1) gt unfolding L'_def[symmetric]
    by (intro exI[of _ it3]) (simp add: L'_def)
qed

lemma upt_0_3: "[0..<3] = [0, 1, 2]"
  by (simp add: upt_rec numeral_eq_Suc)

lemma overlap_create:
  "tree_sequence_create example_platform (Inr ''{}'') overlap_msp = Inr overlap_ts"
  by (simp add: tree_sequence_create_def tree_sequence_alloc_def tree_sequence_make_indexes_def
        example_platform_def overlap_msp_def overlap_ts_def tree_sequence_zero_def
        Let_def rd_def qsort_def cmp_index_sort_def upt_0_3)

lemma diff_state_alloc:
  assumes "tree_diff_iterator_alloc p ts = Inr it0"
  shows "diff_state ts it0"
  using assms
  by (auto simp: tree_diff_iterator_alloc_def diff_state_def Let_def split: if_splits)

lemma diff_next_done:
  "\<not> di_insertion_index it < di_num_records it \<Longrightarrow>
   tree_diff_iterator_next it = Inr ((0, 0, [], []), it)"
  by (simp add: tree_diff_iterator_next_def)

lemma diff_calls_state:
  assumes wf: "records_contiguous ts" and al: "tree_diff_iterator_alloc p ts = Inr it0"
  shows "\<exists>it. tree_diff_iterator_calls it0 n = Inr it \<and> diff_state ts it"
proof (induction n)
  case 0
  then show ?case using diff_state_alloc[OF al] by simp
next
  case (Suc n)
  then obtain it where it: "tree_diff_iterator_calls it0 n = Inr it" "diff_state ts it" by blast
  show ?case
  proof (cases "di_insertion_index it < num_records ts")
    case True
    from diff_next_step[OF wf it(2) True] obtain it' r
      where "tree_diff_iterator_next it = Inr (r, it')" "diff_state ts it'" by blast
    then show ?thesis using it(1) by simp
  next
    case False
    then have "\<not> di_insertion_index it < di_num_records it"
      using it(2) by (simp add: diff_state_def)
    from diff_next_done[OF this] show ?thesis using it by simp
  qed
qed

text \<open>
  \<^bold>\<open>C3.\<close> Let a tree sequence hold full record columns, sorted index columns, records
  with \<open>left < right\<close> of which each starts at 0 or where another one ends, and at no
  coordinate more records ending and starting than \<^verbatim>\<open>node_records\<close> has cells. Then any
  number of calls of \<^verbatim>\<open>tree_diff_iterator_next\<close> on a new iterator succeed, and the next
  call, if \<^verbatim>\<open>insertion_index\<close> is less than the number of records, returns 1, the records
  whose \<open>right\<close> is \<^verbatim>\<open>tree_left\<close> in the order of \<^verbatim>\<open>removal_order\<close> as \<^verbatim>\<open>nodes_out\<close>, the
  records whose \<open>left\<close> is \<^verbatim>\<open>tree_left\<close> in the order of \<^verbatim>\<open>insertion_order\<close> as \<^verbatim>\<open>nodes_in\<close>,
  and as length the difference of the new and the old \<^verbatim>\<open>tree_left\<close>, the new one being
  the \<open>right\<close> of the record at the new \<^verbatim>\<open>removal_index\<close> in \<^verbatim>\<open>removal_order\<close> and greater
  than the old one; otherwise the call returns 0 and leaves the iterator as it is.
\<close>

theorem tree_diff_iterator_next_records:
  assumes "records_contiguous ts"
      and "tree_diff_iterator_alloc p ts = Inr it0"
  shows "\<exists>it. tree_diff_iterator_calls it0 n = Inr it \<and>
           (if di_insertion_index it < num_records ts then
              \<exists>it'. tree_diff_iterator_next it
                = Inr ((1, di_tree_left it' - di_tree_left it,
                        map (node_record_at ts)
                          (filter (\<lambda>k. trees_right ts ! unat k = di_tree_left it)
                             (trees_removal_order ts)),
                        map (node_record_at ts)
                          (filter (\<lambda>k. trees_left ts ! unat k = di_tree_left it)
                             (trees_insertion_order ts))),
                       it') \<and>
                di_tree_left it'
                  = trees_right ts ! unat (trees_removal_order ts ! di_removal_index it') \<and>
                di_tree_left it < di_tree_left it'
            else tree_diff_iterator_next it = Inr ((0, 0, [], []), it))"
proof -
  from diff_calls_state[OF assms] obtain it
    where it: "tree_diff_iterator_calls it0 n = Inr it" "diff_state ts it" by blast
  show ?thesis
  proof (cases "di_insertion_index it < num_records ts")
    case True
    from diff_next_step[OF assms(1) it(2) True] show ?thesis using it(1) True by auto
  next
    case False
    then have "\<not> di_insertion_index it < di_num_records it"
      using it(2) by (simp add: diff_state_def)
    from diff_next_done[OF this] show ?thesis using it(1) False by simp
  qed
qed

lemma example_contiguous: "records_contiguous example_ts"
  by (simp add: records_contiguous_def indexes_sorted_def example_ts_def upt_0_4)

lemma example_alloc: "tree_diff_iterator_alloc example_platform example_ts = Inr example_iterator"
  by (simp add: tree_diff_iterator_alloc_def example_platform_def example_ts_def example_iterator_def)


lemma example_call_1:
  "tree_diff_iterator_calls example_iterator 1
   = Inr (example_iterator\<lparr>di_insertion_index := 2, di_tree_left := 5\<rparr>)"
  by (simp add: tree_diff_iterator_next_def example_iterator_def example_ts_def rd_def
        fill_node_record_def Let_def)

theorem tree_diff_iterator_next_records_witness:
  "records_contiguous example_ts \<and>
   tree_diff_iterator_alloc example_platform example_ts = Inr example_iterator \<and>
   tree_diff_iterator_calls example_iterator 1
     = Inr (example_iterator\<lparr>di_insertion_index := 2, di_tree_left := 5\<rparr>) \<and>
   (\<exists>it'. tree_diff_iterator_next (example_iterator\<lparr>di_insertion_index := 2, di_tree_left := 5\<rparr>)
       = Inr ((1, di_tree_left it' - 5,
               [\<lparr>nr_time = 3, nr_node = 6, nr_children = (3, 4)\<rparr>,
                \<lparr>nr_time = 1, nr_node = 4, nr_children = (1, 2)\<rparr>],
               [\<lparr>nr_time = 2, nr_node = 5, nr_children = (2, 3)\<rparr>,
                \<lparr>nr_time = 3, nr_node = 6, nr_children = (1, 5)\<rparr>]), it') \<and>
      di_tree_left it'
        = trees_right example_ts ! unat (trees_removal_order example_ts ! di_removal_index it') \<and>
      5 < di_tree_left it')"
proof -
  let ?it = "example_iterator\<lparr>di_insertion_index := 2, di_tree_left := 5\<rparr>"
  have lt: "di_insertion_index ?it < num_records example_ts"
    by (simp add: example_ts_def)
  have o: "map (node_record_at example_ts)
             (filter (\<lambda>k. trees_right example_ts ! unat k = di_tree_left ?it)
                (trees_removal_order example_ts))
           = [\<lparr>nr_time = 3, nr_node = 6, nr_children = (3, 4)\<rparr>,
              \<lparr>nr_time = 1, nr_node = 4, nr_children = (1, 2)\<rparr>]"
    by (simp add: example_ts_def node_record_at_def)
  have i: "map (node_record_at example_ts)
             (filter (\<lambda>k. trees_left example_ts ! unat k = di_tree_left ?it)
                (trees_insertion_order example_ts))
           = [\<lparr>nr_time = 2, nr_node = 5, nr_children = (2, 3)\<rparr>,
              \<lparr>nr_time = 3, nr_node = 6, nr_children = (1, 5)\<rparr>]"
    by (simp add: example_ts_def node_record_at_def)
  from tree_diff_iterator_next_records[OF example_contiguous example_alloc, of 1]
  have "\<exists>it'. tree_diff_iterator_next ?it
       = Inr ((1, di_tree_left it' - 5,
               [\<lparr>nr_time = 3, nr_node = 6, nr_children = (3, 4)\<rparr>,
                \<lparr>nr_time = 1, nr_node = 4, nr_children = (1, 2)\<rparr>],
               [\<lparr>nr_time = 2, nr_node = 5, nr_children = (2, 3)\<rparr>,
                \<lparr>nr_time = 3, nr_node = 6, nr_children = (1, 5)\<rparr>]), it') \<and>
      di_tree_left it'
        = trees_right example_ts ! unat (trees_removal_order example_ts ! di_removal_index it') \<and>
      5 < di_tree_left it'"
    unfolding example_call_1 using lt o i by simp
  with example_contiguous example_alloc example_call_1 show ?thesis by blast
qed

theorem tree_diff_iterator_next_counterexample:
  "tree_sequence_create example_platform (Inr ''{}'') overlap_msp = Inr overlap_ts \<and>
   tree_diff_iterator_alloc example_platform overlap_ts = Inr overlap_iterator \<and>
   tree_diff_iterator_calls overlap_iterator 1
     = Inr (overlap_iterator\<lparr>di_insertion_index := 1, di_tree_left := 5\<rparr>) \<and>
   di_insertion_index (overlap_iterator\<lparr>di_insertion_index := 1, di_tree_left := 5\<rparr>)
     < num_records overlap_ts \<and>
   trees_left overlap_ts ! 2 = di_tree_left (overlap_iterator\<lparr>di_insertion_index := 1, di_tree_left := 5\<rparr>) \<and>
   tree_diff_iterator_next (overlap_iterator\<lparr>di_insertion_index := 1, di_tree_left := 5\<rparr>)
     = Inr ((1, 3, [\<lparr>nr_time = 1, nr_node = 4, nr_children = (1, 2)\<rparr>], []),
            overlap_iterator\<lparr>di_insertion_index := 1, di_removal_index := 1, di_tree_left := 8\<rparr>)"
proof -
  have 1: "tree_diff_iterator_calls overlap_iterator 1
     = Inr (overlap_iterator\<lparr>di_insertion_index := 1, di_tree_left := 5\<rparr>)"
    by (simp add: tree_diff_iterator_next_def overlap_iterator_def overlap_ts_def rd_def
        fill_node_record_def Let_def)
  have 2: "tree_diff_iterator_next (overlap_iterator\<lparr>di_insertion_index := 1, di_tree_left := 5\<rparr>)
     = Inr ((1, 3, [\<lparr>nr_time = 1, nr_node = 4, nr_children = (1, 2)\<rparr>], []),
            overlap_iterator\<lparr>di_insertion_index := 1, di_removal_index := 1, di_tree_left := 8\<rparr>)"
    by (simp add: tree_diff_iterator_next_def overlap_iterator_def overlap_ts_def rd_def
        fill_node_record_def Let_def)
  have 3: "tree_diff_iterator_alloc example_platform overlap_ts = Inr overlap_iterator"
    by (simp add: tree_diff_iterator_alloc_def example_platform_def overlap_ts_def overlap_iterator_def)
  have 4: "trees_left overlap_ts ! 2 = di_tree_left (overlap_iterator\<lparr>di_insertion_index := 1, di_tree_left := 5\<rparr>)"
          "di_insertion_index (overlap_iterator\<lparr>di_insertion_index := 1, di_tree_left := 5\<rparr>)
             < num_records overlap_ts"
    by (simp_all add: overlap_ts_def)
  from overlap_create 1 2 3 4 show ?thesis by blast
qed

subsection \<open>Forests\<close>

lemma forestD:
  assumes "forest N n pa ch"
  shows "par_of pa 0 = 0"
    and "\<And>v j. v \<le> N \<Longrightarrow> j < 2 \<Longrightarrow> child_of ch v j \<noteq> 0 \<Longrightarrow>
           child_of ch v j < v \<and> par_of pa (child_of ch v j) = v"
    and "\<And>v. v \<le> N \<Longrightarrow> (child_of ch v 0 = 0) = (child_of ch v 1 = 0)"
    and "\<And>v. v \<le> N \<Longrightarrow> child_of ch v 0 \<noteq> 0 \<Longrightarrow> child_of ch v 0 \<noteq> child_of ch v 1"
    and "\<And>c. c \<le> N \<Longrightarrow> par_of pa c \<noteq> 0 \<Longrightarrow>
           par_of pa c \<le> N \<and>
           (child_of ch (par_of pa c) 0 = c \<or> child_of ch (par_of pa c) 1 = c)"
    and "\<And>v. v \<le> n \<Longrightarrow> child_of ch v 0 = 0"
  using assms unfolding forest_def by blast+

text \<open>In a forest N n pa chhe parent of a node has a greater number.\<close>

lemma forest_up:
  assumes f: "forest N n pa ch" and c: "c \<le> N" and p: "par_of pa c \<noteq> 0"
  shows "c < par_of pa c" "par_of pa c \<le> N" "c \<noteq> 0"
proof -
  note d = forestD[OF f]
  show c0: "c \<noteq> 0" using d(1) p by auto
  from d(5)[OF c p] have r: "par_of pa c \<le> N"
    and "child_of ch (par_of pa c) 0 = c \<or> child_of ch (par_of pa c) 1 = c" by simp_all
  then obtain j where j: "j < 2" "child_of ch (par_of pa c) j = c" by (metis one_less_numeral_iff pos2 semiring_norm(76))
  from d(2)[OF r j(1)] j(2) c0 show "c < par_of pa c" by simp
  show "par_of pa c \<le> N" by (rule r)
qed

lemma anc_range:
  assumes f: "forest N n pa ch" and u: "u \<le> N" and x: "x \<in> anc pa u"
  shows "u \<le> x \<and> x \<le> N"
  using x
proof (induction rule: anc.induct)
  case self
  then show ?case using u by simp
next
  case (up x)
  then show ?case using forest_up[OF f, of x] by auto
qed

lemma anc_trans: "y \<in> anc pa x \<Longrightarrow> x \<in> anc pa u \<Longrightarrow> y \<in> anc pa u"
  by (induction rule: anc.induct) (auto intro: anc.intros)

lemma anc_step:
  assumes "y \<in> anc pa x" "y \<noteq> x"
  shows "par_of pa x \<noteq> 0 \<and> y \<in> anc pa (par_of pa x)"
  using assms
proof (induction rule: anc.induct)
  case self
  then show ?case by simp
next
  case (up y)
  show ?case
  proof (cases "y = x")
    case True
    then show ?thesis using up.hyps(2) by (auto intro: anc.intros)
  next
    case False
    then show ?thesis using up by (auto intro: anc.intros)
  qed
qed

lemma anc_pred:
  assumes "y \<in> anc pa u" "y \<noteq> u"
  shows "\<exists>x \<in> anc pa u. par_of pa x \<noteq> 0 \<and> par_of pa x = y"
  using assms by (induction rule: anc.induct) auto

lemma anc_unfold:
  "anc pa u = (if par_of pa u = 0 then {u} else insert u (anc pa (par_of pa u)))"
proof (intro set_eqI iffI)
  fix y assume y: "y \<in> anc pa u"
  show "y \<in> (if par_of pa u = 0 then {u} else insert u (anc pa (par_of pa u)))"
    using anc_step[OF y] by (cases "y = u") auto
next
  fix y assume "y \<in> (if par_of pa u = 0 then {u} else insert u (anc pa (par_of pa u)))"
  then consider "y = u" | "par_of pa u \<noteq> 0" "y \<in> anc pa (par_of pa u)"
    by (auto split: if_splits)
  then show "y \<in> anc pa u"
  proof cases
    case 1
    then show ?thesis by (simp add: anc.self)
  next
    case 2
    have "par_of pa u \<in> anc pa u" using 2(1) by (auto intro: anc.intros)
    with 2(2) show ?thesis by (rule anc_trans)
  qed
qed

lemma anc_linear:
  assumes "x \<in> anc pa u" "y \<in> anc pa u"
  shows "y \<in> anc pa x \<or> x \<in> anc pa y"
  using assms
proof (induction rule: anc.induct)
  case self
  then show ?case by simp
next
  case (up x)
  from up.IH[OF up.prems] show ?case
  proof
    assume y: "y \<in> anc pa x"
    show ?thesis
    proof (cases "y = x")
      case True
      then show ?thesis using up.hyps(2) by (auto intro: anc.intros)
    next
      case False
      then show ?thesis using anc_step[OF y] by simp
    qed
  next
    assume "x \<in> anc pa y"
    then show ?thesis using up.hyps(2) by (auto intro: anc.intros)
  qed
qed

text \<open>The two children of a node do not both lie on the way up from one node.\<close>

lemma anc_one_child:
  assumes f: "forest N n pa ch" and v: "v \<le> N" and u: "u \<le> N"
      and a: "child_of ch v 0 \<noteq> 0"
      and i: "child_of ch v 0 \<in> anc pa u" and j: "child_of ch v 1 \<in> anc pa u"
  shows False
proof -
  note d = forestD[OF f]
  let ?a = "child_of ch v 0" and ?b = "child_of ch v 1"
  have b: "?b \<noteq> 0" using d(3)[OF v] a by simp
  have ne: "?a \<noteq> ?b" using d(4)[OF v a] .
  have pa: "?a < v" "par_of pa ?a = v" using d(2)[OF v _ a] by simp_all
  have pb: "?b < v" "par_of pa ?b = v" using d(2)[OF v _ b] by simp_all
  have ra: "?a \<le> N" "?b \<le> N" using pa(1) pb(1) v by simp_all
  from anc_linear[OF i j] show False
  proof
    assume "?b \<in> anc pa ?a"
    from anc_step[OF this] ne pa(2) have "?b \<in> anc pa v" by auto
    from anc_range[OF f v this] pb(1) show False by (auto dest: leD)
  next
    assume "?a \<in> anc pa ?b"
    from anc_step[OF this] ne pb(2) have "?a \<in> anc pa v" by auto
    from anc_range[OF f v this] pa(1) show False by (auto dest: leD)
  qed
qed

text \<open>A node other than \<open>u\<close> lies on the way up from \<open>u\<close> if and only if one of its children does.\<close>

lemma anc_child_iff:
  assumes f: "forest N n pa ch" and v: "v \<le> N" and u: "u \<le> N" "u \<noteq> 0"
      and ne: "v \<noteq> u"
  shows "v \<in> anc pa u \<longleftrightarrow>
         (child_of ch v 0 \<noteq> 0 \<and> (child_of ch v 0 \<in> anc pa u \<or> child_of ch v 1 \<in> anc pa u))"
proof
  note d = forestD[OF f]
  assume "v \<in> anc pa u"
  from anc_pred[OF this ne] obtain x where x: "x \<in> anc pa u" "par_of pa x \<noteq> 0" "par_of pa x = v"
    by blast
  have xr: "x \<le> N" "u \<le> x" using anc_range[OF f u(1) x(1)] by simp_all
  then have x0: "x \<noteq> 0" using u(2) by auto
  from d(5)[OF xr(1) x(2)] x(3) have c: "child_of ch v 0 = x \<or> child_of ch v 1 = x" by simp
  then have "child_of ch v 0 \<noteq> 0" using d(3)[OF v] x0 by auto
  then show "child_of ch v 0 \<noteq> 0 \<and> (child_of ch v 0 \<in> anc pa u \<or> child_of ch v 1 \<in> anc pa u)"
    using c x(1) by auto
next
  note d = forestD[OF f]
  assume h: "child_of ch v 0 \<noteq> 0 \<and> (child_of ch v 0 \<in> anc pa u \<or> child_of ch v 1 \<in> anc pa u)"
  then have b: "child_of ch v 1 \<noteq> 0" using d(3)[OF v] by simp
  from h obtain j where j: "j < 2" "child_of ch v j \<noteq> 0" "child_of ch v j \<in> anc pa u"
    using b by (metis one_less_numeral_iff pos2 semiring_norm(76))
  from d(2)[OF v j(1,2)] have "par_of pa (child_of ch v j) = v" by simp
  moreover have "v \<noteq> 0" using d(2)[OF v j(1,2)] by auto
  ultimately show "v \<in> anc pa u" using anc.up[OF j(3)] by simp
qed


subsection \<open>Leaf weights\<close>

declare subtree_weight.simps [simp del]

lemma sw_leaf: "1 \<le> v \<Longrightarrow> v \<le> n \<Longrightarrow> subtree_weight ch n w v = w v"
  by (subst subtree_weight.simps) simp

lemma sw_empty:
  "\<not> (1 \<le> v \<and> v \<le> n) \<Longrightarrow> child_of ch v 0 = 0 \<Longrightarrow> subtree_weight ch n w v = 0"
  by (subst subtree_weight.simps) auto

lemma sw_node:
  "\<not> (1 \<le> v \<and> v \<le> n) \<Longrightarrow> child_of ch v 0 \<noteq> 0 \<Longrightarrow> child_of ch v 0 < v \<Longrightarrow>
   child_of ch v 1 < v \<Longrightarrow>
   subtree_weight ch n w v = subtree_weight ch n w (child_of ch v 0) + subtree_weight ch n w (child_of ch v 1)"
  by (subst subtree_weight.simps) auto

text \<open>
  \<open>t0\<close> is \<open>t1\<close> with the two children of \<open>u\<close> taken off: the weights of the nodes on the way
  up from \<open>u\<close> differ by the weight of the two children, the others do not differ.
\<close>

lemma weight_split:
  assumes f: "forest N n pa ch1" and u: "u \<le> N" "n < u"
      and ch: "\<And>v j. v \<le> N \<Longrightarrow> j < 2 \<Longrightarrow>
                 child_of ch0 v j = (if v = u then 0 else child_of ch1 v j)"
      and cu: "child_of ch1 u 0 \<noteq> 0"
      and v: "v \<le> N"
  shows "subtree_weight ch1 n w v
         = subtree_weight ch0 n w v +
           (if v \<in> anc pa u
            then subtree_weight ch0 n w (child_of ch1 u 0) + subtree_weight ch0 n w (child_of ch1 u 1)
            else 0)"
  using v
proof (induction "unat v" arbitrary: v rule: less_induct)
  case less
  note d = forestD[OF f]
  let ?n = "n" and ?N = "N"
  let ?a = "child_of ch1 u 0" and ?b = "child_of ch1 u 1"
  let ?d = "subtree_weight ch0 n w ?a + subtree_weight ch0 n w ?b"
  have u0: "u \<noteq> 0" using u(2) by auto
  have b0: "?b \<noteq> 0" using d(3)[OF u(1)] cu by simp
  have au: "?a < u" using d(2)[OF u(1) _ cu] by simp
  have bu: "?b < u" using d(2)[OF u(1) _ b0] by simp
  have below: "x \<notin> anc pa u" if "x < u" for x
    using anc_range[OF f u(1), of x] that by (auto dest: leD)
  have ih: "subtree_weight ch1 n w x = subtree_weight ch0 n w x + (if x \<in> anc pa u then ?d else 0)"
    if "x < v" for x
  proof -
    have "unat x < unat v" using that by (simp add: word_less_nat_alt)
    moreover have "x \<le> ?N" using that less.prems by simp
    ultimately show ?thesis using less.hyps by blast
  qed
  show ?case
  proof (cases "1 \<le> v \<and> v \<le> ?n")
    case True
    then have "v < u" using u(2) by (metis order_le_less_trans)
    then have "v \<notin> anc pa u" by (rule below)
    then show ?thesis using True by (simp add: sw_leaf)
  next
    case leaf: False
    show ?thesis
    proof (cases "v = u")
      case True
      have nl: "\<not> (1 \<le> u \<and> u \<le> ?n)" using u(2) by (auto dest: leD)
      have 1: "subtree_weight ch1 n w u = subtree_weight ch1 n w ?a + subtree_weight ch1 n w ?b"
        using nl cu au bu by (rule sw_node)
      have 0: "subtree_weight ch0 n w u = 0"
        using nl ch[OF u(1), of 0] by (intro sw_empty) simp_all
      have "subtree_weight ch1 n w ?a = subtree_weight ch0 n w ?a"
        using ih[of ?a] au True below[OF au] by simp
      moreover have "subtree_weight ch1 n w ?b = subtree_weight ch0 n w ?b"
        using ih[of ?b] bu True below[OF bu] by simp
      ultimately show ?thesis using 0 1 True by (simp add: anc.self)
    next
      case False
      have c: "child_of ch0 v j = child_of ch1 v j" if "j < 2" for j
        using ch[OF less.prems that] False by simp
      show ?thesis
      proof (cases "child_of ch1 v 0 = 0")
        case True
        have "v \<notin> anc pa u"
          using anc_child_iff[OF f less.prems u(1) u0 False] True by simp
        moreover have "subtree_weight ch1 n w v = 0" using leaf True by (intro sw_empty) simp_all
        moreover have "subtree_weight ch0 n w v = 0" using leaf True c[of 0] by (intro sw_empty) simp_all
        ultimately show ?thesis by simp
      next
        case nz: False
        let ?x = "child_of ch1 v 0" and ?y = "child_of ch1 v 1"
        have y0: "?y \<noteq> 0" using d(3)[OF less.prems] nz by simp
        have xv: "?x < v" using d(2)[OF less.prems _ nz] by simp
        have yv: "?y < v" using d(2)[OF less.prems _ y0] by simp
        have 1: "subtree_weight ch1 n w v = subtree_weight ch1 n w ?x + subtree_weight ch1 n w ?y"
          using leaf nz xv yv by (rule sw_node)
        have 0: "subtree_weight ch0 n w v = subtree_weight ch0 n w ?x + subtree_weight ch0 n w ?y"
          using sw_node[of v n ch0 w] leaf nz xv yv c[of 0] c[of 1] by simp
        have both: "\<not> (?x \<in> anc pa u \<and> ?y \<in> anc pa u)"
          using anc_one_child[OF f less.prems u(1) nz] by blast
        have iff: "v \<in> anc pa u \<longleftrightarrow> (?x \<in> anc pa u \<or> ?y \<in> anc pa u)"
          using anc_child_iff[OF f less.prems u(1) u0 False] nz by simp
        show ?thesis
          unfolding 1 0 ih[OF xv] ih[OF yv] using both iff by auto
      qed
    qed
  qed
qed


subsection \<open>Attaching and detaching two children\<close>

lemma par_of_upd:
  "unat c < length pa \<Longrightarrow> par_of (pa[unat c := y]) x = (if x = c then y else par_of pa x)"
  by (auto simp: par_of_def nth_list_update word_unat_eq_iff)

lemma child_of_upd:
  "2 * unat u + i < length ch \<Longrightarrow> i < 2 \<Longrightarrow> j < 2 \<Longrightarrow> 2 * unat v + j < length ch \<Longrightarrow>
   child_of (ch[2 * unat u + i := y]) v j = (if v = u \<and> j = i then y else child_of ch v j)"
proof -
  assume a: "2 * unat u + i < length ch" "i < 2" "j < 2" "2 * unat v + j < length ch"
  have "2 * unat u + i = 2 * unat v + j \<longleftrightarrow> unat u = unat v \<and> i = j" using a(2,3) by presburger
  then show ?thesis using a by (auto simp: child_of_def nth_list_update word_unat_eq_iff)
qed

lemma in_range:
  "v \<le> N \<Longrightarrow> length ch = 2 * (unat (N :: 32 word) + 1) \<Longrightarrow> j < 2 \<Longrightarrow> 2 * unat v + j < length ch"
  by (simp add: word_le_nat_alt)

lemma par_of_attach:
  assumes "length pa = unat N + 1" "c0 \<le> N" "c1 \<le> N"
  shows "par_of (pa[unat c0 := y, unat c1 := y]) x = (if x = c0 \<or> x = c1 then y else par_of pa x)"
  using assms by (simp add: par_of_upd word_le_nat_alt)

lemma child_of_attach:
  assumes "length ch = 2 * (unat N + 1)" "u \<le> N" "v \<le> N" "j < 2"
  shows "child_of (ch[2 * unat u := a, 2 * unat u + 1 := b]) v j
         = (if v = u then (if j = 0 then a else b) else child_of ch v j)"
proof -
  have 1: "2 * unat u + 0 < length (ch[2 * unat u := a])" "2 * unat u + 1 < length (ch[2 * unat u := a])"
    "2 * unat v + j < length (ch[2 * unat u := a])" "2 * unat v + j < length ch" "2 * unat u + 0 < length ch"
    using assms by (simp_all add: word_le_nat_alt)
  have "child_of (ch[2 * unat u + 0 := a, 2 * unat u + 1 := b]) v j
        = (if v = u \<and> j = 1 then b else child_of (ch[2 * unat u + 0 := a]) v j)"
    using 1 assms(4) by (intro child_of_upd) simp_all
  also have "child_of (ch[2 * unat u + 0 := a]) v j = (if v = u \<and> j = 0 then a else child_of ch v j)"
    using 1 assms(4) by (intro child_of_upd) simp_all
  finally show ?thesis using assms(4) by auto
qed

lemma forest_attach:
  assumes f: "forest N n pa ch"
      and l: "length pa = unat N + 1" "length ch = 2 * (unat N + 1)"
      and u: "u \<le> N" "n < u"
      and c: "c0 \<noteq> 0" "c1 \<noteq> 0" "c0 < u" "c1 < u" "c0 \<noteq> c1"
      and e: "child_of ch u 0 = 0" "par_of pa c0 = 0" "par_of pa c1 = 0"
  shows "forest N n (pa[unat c0 := u, unat c1 := u]) (ch[2 * unat u := c0, 2 * unat u + 1 := c1])"
proof -
  note d = forestD[OF f]
  let ?pa = "pa[unat c0 := u, unat c1 := u]" and ?ch = "ch[2 * unat u := c0, 2 * unat u + 1 := c1]"
  have cr: "c0 \<le> N" "c1 \<le> N" using c(3,4) u(1) by simp_all
  have P: "par_of ?pa x = (if x = c0 \<or> x = c1 then u else par_of pa x)" for x
    by (rule par_of_attach[OF l(1) cr])
  have C: "child_of ?ch v j = (if v = u then (if j = 0 then c0 else c1) else child_of ch v j)"
    if "v \<le> N" "j < 2" for v j
    using child_of_attach[OF l(2) u(1) that] .
  have e1: "child_of ch u 1 = 0" using d(3)[OF u(1)] e(1) by simp
  have u0: "u \<noteq> 0" using u(2) by auto
  show ?thesis
    unfolding forest_def
  proof (intro conjI allI impI)
    show "par_of ?pa 0 = 0" using P[of 0] c(1,2) d(1) by simp
  next
    fix v j assume h: "v \<le> N \<and> j < 2 \<and> child_of ?ch v j \<noteq> 0"
    then have v: "v \<le> N" and j: "j < 2" by simp_all
    have r: "child_of ?ch v j < v \<and> par_of ?pa (child_of ?ch v j) = v"
    proof (cases "v = u")
      case True
      then show ?thesis using C[OF v j] P c by auto
    next
      case False
      then have 1: "child_of ?ch v j = child_of ch v j" using C[OF v j] by simp
      with h have nz: "child_of ch v j \<noteq> 0" by simp
      from d(2)[OF v j nz] have 2: "child_of ch v j < v" "par_of pa (child_of ch v j) = v" by simp_all
      have "v \<noteq> 0" using 2(1) by auto
      then have "child_of ch v j \<noteq> c0" "child_of ch v j \<noteq> c1" using 2(2) e(2,3) by auto
      then show ?thesis using 1 2 P by simp
    qed
    from r show "child_of ?ch v j < v" by simp
    from r show "par_of ?pa (child_of ?ch v j) = v" by simp
  next
    fix v assume v: "v \<le> N"
    show "(child_of ?ch v 0 = 0) = (child_of ?ch v 1 = 0)"
      using C[OF v, of 0] C[OF v, of 1] d(3)[OF v] c(1,2) by auto
  next
    fix v assume h: "v \<le> N \<and> child_of ?ch v 0 \<noteq> 0"
    then have v: "v \<le> N" by simp
    show "child_of ?ch v 0 \<noteq> child_of ?ch v 1"
      using C[OF v, of 0] C[OF v, of 1] d(4)[OF v] h c(5) by auto
  next
    fix x assume h: "x \<le> N \<and> par_of ?pa x \<noteq> 0"
    then have x: "x \<le> N" by simp
    show "par_of ?pa x \<le> N"
      using P[of x] h d(5)[OF x] u(1) by auto
    show "child_of ?ch (par_of ?pa x) 0 = x \<or> child_of ?ch (par_of ?pa x) 1 = x"
    proof (cases "x = c0 \<or> x = c1")
      case True
      then show ?thesis using P[of x] C[OF u(1), of 0] C[OF u(1), of 1] by auto
    next
      case False
      then have 1: "par_of ?pa x = par_of pa x" using P[of x] by simp
      with h have nz: "par_of pa x \<noteq> 0" by simp
      from d(5)[OF x nz] have r: "par_of pa x \<le> N"
        and k: "child_of ch (par_of pa x) 0 = x \<or> child_of ch (par_of pa x) 1 = x" by simp_all
      have x0: "x \<noteq> 0" using nz d(1) by auto
      have "par_of pa x \<noteq> u" using k e(1) e1 x0 by auto
      then show ?thesis using 1 k C[OF r, of 0] C[OF r, of 1] by simp
    qed
  next
    fix v assume v: "v \<le> n"
    then have "v \<noteq> u" using u(2) by (auto dest: leD)
    moreover have "v \<le> N" using v u by (meson order.strict_implies_order order_trans)
    ultimately show "child_of ?ch v 0 = 0" using C[of v 0] d(6)[OF v] by simp
  qed
qed

lemma forest_detach:
  assumes f: "forest N n pa ch"
      and l: "length pa = unat N + 1" "length ch = 2 * (unat N + 1)"
      and u: "u \<le> N"
      and c: "child_of ch u 0 = c0" "child_of ch u 1 = c1" "c0 \<noteq> 0"
  shows "forest N n (pa[unat c0 := 0, unat c1 := 0]) (ch[2 * unat u := 0, 2 * unat u + 1 := 0])"
proof -
  note d = forestD[OF f]
  let ?pa = "pa[unat c0 := 0, unat c1 := 0]" and ?ch = "ch[2 * unat u := 0, 2 * unat u + 1 := 0]"
  have c1: "c1 \<noteq> 0" using d(3)[OF u] c by auto
  have k0: "c0 < u" "par_of pa c0 = u" using d(2)[OF u, of 0] c by simp_all
  have k1: "c1 < u" "par_of pa c1 = u" using d(2)[OF u, of 1] c c1 by simp_all
  have cr: "c0 \<le> N" "c1 \<le> N" using k0(1) k1(1) u by simp_all
  have P: "par_of ?pa x = (if x = c0 \<or> x = c1 then 0 else par_of pa x)" for x
    by (rule par_of_attach[OF l(1) cr])
  have C: "child_of ?ch v j = (if v = u then 0 else child_of ch v j)"
    if "v \<le> N" "j < 2" for v j
    using child_of_attach[OF l(2) u that, of 0 0] by simp
  show ?thesis
    unfolding forest_def
  proof (intro conjI allI impI)
    show "par_of ?pa 0 = 0" using P[of 0] d(1) by simp
  next
    fix v j assume h: "v \<le> N \<and> j < 2 \<and> child_of ?ch v j \<noteq> 0"
    then have v: "v \<le> N" and j: "j < 2" by simp_all
    from h C[OF v j] have ne: "v \<noteq> u" and 1: "child_of ?ch v j = child_of ch v j"
      by (auto split: if_splits)
    with h have nz: "child_of ch v j \<noteq> 0" by simp
    from d(2)[OF v j nz] have 2: "child_of ch v j < v" "par_of pa (child_of ch v j) = v" by simp_all
    have "child_of ch v j \<noteq> c0" "child_of ch v j \<noteq> c1" using 2(2) k0(2) k1(2) ne by auto
    then have r: "child_of ?ch v j < v \<and> par_of ?pa (child_of ?ch v j) = v" using 1 2 P by simp
    from r show "child_of ?ch v j < v" by simp
    from r show "par_of ?pa (child_of ?ch v j) = v" by simp
  next
    fix v assume v: "v \<le> N"
    show "(child_of ?ch v 0 = 0) = (child_of ?ch v 1 = 0)"
      using C[OF v, of 0] C[OF v, of 1] d(3)[OF v] by auto
  next
    fix v assume h: "v \<le> N \<and> child_of ?ch v 0 \<noteq> 0"
    then have v: "v \<le> N" by simp
    show "child_of ?ch v 0 \<noteq> child_of ?ch v 1"
      using C[OF v, of 0] C[OF v, of 1] d(4)[OF v] h by (auto split: if_splits)
  next
    fix x assume h: "x \<le> N \<and> par_of ?pa x \<noteq> 0"
    then have x: "x \<le> N" by simp
    from h P[of x] have ne: "x \<noteq> c0" "x \<noteq> c1" and 1: "par_of ?pa x = par_of pa x"
      by (auto split: if_splits)
    with h have nz: "par_of pa x \<noteq> 0" by simp
    from d(5)[OF x nz] have r: "par_of pa x \<le> N"
      and k: "child_of ch (par_of pa x) 0 = x \<or> child_of ch (par_of pa x) 1 = x" by simp_all
    show "par_of ?pa x \<le> N" using 1 r by simp
    have "par_of pa x \<noteq> u" using k c ne by auto
    then show "child_of ?ch (par_of ?pa x) 0 = x \<or> child_of ?ch (par_of ?pa x) 1 = x"
      using 1 k C[OF r, of 0] C[OF r, of 1] by simp
  next
    fix v assume v: "v \<le> n"
    show "child_of ?ch v 0 = 0"
    proof (cases "v \<le> N")
      case True
      then show ?thesis using C[of v 0] d(6)[OF v] by simp
    next
      case False
      then have "v \<noteq> u" using u by auto
      have "child_of ?ch v 0 = child_of ch v 0"
        using \<open>v \<noteq> u\<close> by (auto simp: child_of_def nth_list_update word_unat_eq_iff)
      then show ?thesis using d(6)[OF v] by simp
    qed
  qed
qed

subsection \<open>Carrying a change of counts up the parent links\<close>

declare propagate_gain.simps [simp del] propagate_loss.simps [simp del]

lemma propagate_loss_gain:
  "propagate_loss t d e v turns = propagate_gain t (- d) (- e) v turns"
proof (induction t d e v turns rule: propagate_loss.induct)
  case (1 t d e v turns)
  show ?case
    apply (subst propagate_loss.simps)
    apply (subst propagate_gain.simps)
    using 1 by (auto simp: rd_def wr_def)
qed

lemma propagate_gain_result:
  assumes f: "forest N n (st_parent t) ch"
      and l: "length (st_parent t) = unat N + 1" "length (st_num_leaves t) = unat N + 1"
             "length (st_num_tracked_leaves t) = unat N + 1"
      and v: "v \<le> N" "turns \<le> unat v"
  shows "\<exists>nl ntl. propagate_gain t d e v turns
                     = Inr (t\<lparr>st_num_leaves := nl, st_num_tracked_leaves := ntl\<rparr>) \<and>
           length nl = unat N + 1 \<and> length ntl = unat N + 1 \<and>
           (\<forall>x. x \<le> N \<longrightarrow>
              nl ! unat x = st_num_leaves t ! unat x +
                            (if v \<noteq> 0 \<and> x \<in> anc (st_parent t) v then d else 0) \<and>
              ntl ! unat x = st_num_tracked_leaves t ! unat x +
                            (if v \<noteq> 0 \<and> x \<in> anc (st_parent t) v then e else 0))"
  using f l v
proof (induction "unat N + 1 - unat v" arbitrary: v t turns rule: less_induct)
  case less
  let ?pa = "st_parent t" and ?nl = "st_num_leaves t" and ?ntl = "st_num_tracked_leaves t"
  show ?case
  proof (cases "v = 0")
    case True
    then show ?thesis
      apply (subst propagate_gain.simps)
      using less.prems by (intro exI[of _ ?nl] exI[of _ ?ntl]) simp
  next
    case False
    let ?v' = "par_of ?pa v"
    let ?nl1 = "?nl[unat v := ?nl ! unat v + d]" and ?ntl1 = "?ntl[unat v := ?ntl ! unat v + e]"
    let ?t1 = "t\<lparr>st_num_leaves := ?nl1, st_num_tracked_leaves := ?ntl1\<rparr>"
    have vr: "unat v < unat N + 1" using less.prems(5) by (simp add: word_le_nat_alt)
    have tn: "turns < length ?pa" using less.prems(6) vr less.prems(2) by simp
    have step: "propagate_gain t d e v turns = propagate_gain ?t1 d e ?v' (turns + 1)"
      apply (subst propagate_gain.simps)
      using False tn vr less.prems(2,3,4) by (simp add: rd_def wr_def par_of_def)
    have upd: "?nl1 ! unat x = ?nl ! unat x + (if x = v then d else 0)"
              "?ntl1 ! unat x = ?ntl ! unat x + (if x = v then e else 0)" for x
      using vr less.prems(3,4) by (auto simp: nth_list_update word_unat_eq_iff)
    show ?thesis
    proof (cases "?v' = 0")
      case True
      have "anc ?pa v = {v}" using True by (subst anc_unfold) simp
      moreover have "propagate_gain ?t1 d e ?v' (turns + 1) = Inr ?t1"
        using True by (subst propagate_gain.simps) simp
      ultimately show ?thesis
        unfolding step using False upd less.prems(3,4)
        by (intro exI[of _ ?nl1] exI[of _ ?ntl1]) simp
    next
      case nz: False
      note up = forest_up[OF less.prems(1) less.prems(5) nz]
      have m: "unat N + 1 - unat ?v' < unat N + 1 - unat v"
        using up(1,2) by (simp add: word_less_nat_alt word_le_nat_alt)
      have t': "turns + 1 \<le> unat ?v'" using up(1) less.prems(6) by (simp add: word_less_nat_alt)
      have "\<exists>nl ntl. propagate_gain ?t1 d e ?v' (turns + 1)
                     = Inr (?t1\<lparr>st_num_leaves := nl, st_num_tracked_leaves := ntl\<rparr>) \<and>
           length nl = unat N + 1 \<and> length ntl = unat N + 1 \<and>
           (\<forall>x. x \<le> N \<longrightarrow>
              nl ! unat x = st_num_leaves ?t1 ! unat x +
                            (if ?v' \<noteq> 0 \<and> x \<in> anc (st_parent ?t1) ?v' then d else 0) \<and>
              ntl ! unat x = st_num_tracked_leaves ?t1 ! unat x +
                            (if ?v' \<noteq> 0 \<and> x \<in> anc (st_parent ?t1) ?v' then e else 0))"
        using less.prems(1,2,3,4) up(2) t' by (intro less.hyps[OF m]) simp_all
      then obtain nl ntl where r: "propagate_gain ?t1 d e ?v' (turns + 1)
                     = Inr (t\<lparr>st_num_leaves := nl, st_num_tracked_leaves := ntl\<rparr>)"
          "length nl = unat N + 1" "length ntl = unat N + 1"
          "\<And>x. x \<le> N \<Longrightarrow> nl ! unat x = ?nl1 ! unat x + (if x \<in> anc ?pa ?v' then d else 0)"
          "\<And>x. x \<le> N \<Longrightarrow> ntl ! unat x = ?ntl1 ! unat x + (if x \<in> anc ?pa ?v' then e else 0)"
        using nz by auto
      have a: "anc ?pa v = insert v (anc ?pa ?v')" using nz by (subst anc_unfold) simp
      have nv: "v \<notin> anc ?pa ?v'"
        using anc_range[OF less.prems(1) up(2), of v] up(1) by (auto dest: leD)
      show ?thesis
        unfolding step r(1)
        using r(2,3) False
        by (intro exI[of _ nl] exI[of _ ntl]) (auto simp: r(4,5) upd a nv)
    qed
  qed
qed

subsection \<open>Inserting and removing a record\<close>

lemma sw_cong:
  assumes "\<And>l. 1 \<le> l \<Longrightarrow> l \<le> n \<Longrightarrow> w l = w' l"
  shows "subtree_weight ch n w v = subtree_weight ch n w' v"
proof (induction "unat v" arbitrary: v rule: less_induct)
  case less
  have ih: "subtree_weight ch n w x = subtree_weight ch n w' x" if "x < v" for x
    using less.hyps[of x] that by (simp add: word_less_nat_alt)
  consider "1 \<le> v \<and> v \<le> n"
    | "\<not> (1 \<le> v \<and> v \<le> n)" "child_of ch v 0 \<noteq> 0 \<and> child_of ch v 0 < v \<and> child_of ch v 1 < v"
    | "\<not> (1 \<le> v \<and> v \<le> n)" "\<not> (child_of ch v 0 \<noteq> 0 \<and> child_of ch v 0 < v \<and> child_of ch v 1 < v)"
    by blast
  then show ?case
  proof cases
    case 1
    then show ?thesis using assms by (simp add: sw_leaf)
  next
    case 2
    then show ?thesis using ih by (simp add: sw_node)
  next
    case 3
    have "subtree_weight ch n w v = 0" "subtree_weight ch n w' v = 0"
      using 3 by (subst subtree_weight.simps; auto)+
    then show ?thesis by simp
  qed
qed

lemma anc_cong:
  assumes "\<And>x. x \<in> anc pa u \<Longrightarrow> par_of pa' x = par_of pa x"
  shows "anc pa' u = anc pa u"
proof (intro set_eqI iffI)
  fix y assume "y \<in> anc pa' u"
  then show "y \<in> anc pa u"
  proof (induction rule: anc.induct)
    case self
    then show ?case by (rule anc.self)
  next
    case (up x)
    then show ?case using assms[of x] by (auto intro: anc.up)
  qed
next
  fix y assume "y \<in> anc pa u"
  then show "y \<in> anc pa' u"
  proof (induction rule: anc.induct)
    case self
    then show ?case by (rule anc.self)
  next
    case (up x)
    then show ?case using assms[of x] anc.up[of x pa' u] by auto
  qed
qed

lemma unat_twice:
  assumes "unat (x :: 32 word) < 2 ^ 31"
  shows "unat (2 * x) = 2 * unat x" "unat (2 * x + 1) = 2 * unat x + 1"
  using assms by (simp_all add: unat_word_ariths)

lemma tree_okD:
  assumes "tree_ok t"
  shows "tree_shape t"
    and "forest (st_num_nodes t) (st_sample_size t) (st_parent t) (st_children t)"
    and "\<And>v. v \<le> st_num_nodes t \<Longrightarrow> st_num_leaves t ! unat v
           = subtree_weight (st_children t) (st_sample_size t) (\<lambda>l. st_num_leaves t ! unat l) v"
    and "\<And>v. v \<le> st_num_nodes t \<Longrightarrow> st_num_tracked_leaves t ! unat v
           = subtree_weight (st_children t) (st_sample_size t)
               (\<lambda>l. st_num_tracked_leaves t ! unat l) v"
  using assms unfolding tree_ok_def by blast+

lemma tree_shapeD:
  assumes "tree_shape t"
  shows "unat (st_num_nodes t) + 1 < 2 ^ 31"
    and "st_sample_size t \<le> st_num_nodes t"
    and "st_count_leaves t"
    and "st_root t \<le> st_num_nodes t"
    and "length (st_parent t) = unat (st_num_nodes t) + 1"
    and "length (st_children t) = 2 * (unat (st_num_nodes t) + 1)"
    and "length (st_time t) = unat (st_num_nodes t) + 1"
    and "length (st_num_leaves t) = unat (st_num_nodes t) + 1"
    and "length (st_num_tracked_leaves t) = unat (st_num_nodes t) + 1"
  using assms unfolding tree_shape_def by blast+


text \<open>
  Inserting a record whose node has no children and whose two children have no parent
  keeps the counts right.
\<close>

lemma insert_record_ok:
  fixes s k t
  defines "u \<equiv> rec_node s (unat k)" and "c0 \<equiv> rec_child s (unat k) 0" and "c1 \<equiv> rec_child s (unat k) 1"
  assumes ok: "tree_ok t"
      and k: "unat k < 2 ^ 31" "unat k < length (trees_node s)"
             "2 * unat k + 1 < length (trees_children s)" "unat k < length (trees_time s)"
      and u: "u \<le> st_num_nodes t" "st_sample_size t < u"
      and c: "c0 \<noteq> 0" "c1 \<noteq> 0" "c0 < u" "c1 < u" "c0 \<noteq> c1"
      and e: "child_of (st_children t) u 0 = 0" "par_of (st_parent t) c0 = 0"
             "par_of (st_parent t) c1 = 0"
  shows "\<exists>tm r nl ntl.
           insert_record s k t
             = Inr (t\<lparr>st_parent := (st_parent t)[unat c0 := u, unat c1 := u],
                       st_children := (st_children t)[2 * unat u := c0, 2 * unat u + 1 := c1],
                       st_time := tm, st_root := r, st_num_leaves := nl,
                       st_num_tracked_leaves := ntl\<rparr>) \<and>
           tree_ok (t\<lparr>st_parent := (st_parent t)[unat c0 := u, unat c1 := u],
                       st_children := (st_children t)[2 * unat u := c0, 2 * unat u + 1 := c1],
                       st_time := tm, st_root := r, st_num_leaves := nl,
                       st_num_tracked_leaves := ntl\<rparr>) \<and>
           (\<forall>l. l \<le> st_sample_size t \<longrightarrow>
              nl ! unat l = st_num_leaves t ! unat l \<and>
              ntl ! unat l = st_num_tracked_leaves t ! unat l)"
proof -
  let ?N = "st_num_nodes t" and ?n = "st_sample_size t"
  let ?pa = "st_parent t" and ?ch = "st_children t"
  let ?nl = "st_num_leaves t" and ?ntl = "st_num_tracked_leaves t"
  let ?pa' = "?pa[unat c0 := u, unat c1 := u]"
  let ?ch' = "?ch[2 * unat u := c0, 2 * unat u + 1 := c1]"
  let ?tm = "(st_time t)[unat u := trees_time s ! unat k]"
  let ?r = "if u > st_root t then u else st_root t"
  let ?t1 = "t\<lparr>st_parent := ?pa', st_children := ?ch', st_time := ?tm, st_root := ?r\<rparr>"
  let ?d = "?nl ! unat c0 + ?nl ! unat c1" and ?e = "?ntl ! unat c0 + ?ntl ! unat c1"
  note sh = tree_shapeD[OF tree_okD(1)[OF ok]]
  note f = tree_okD(2)[OF ok]
  have cr: "c0 \<le> ?N" "c1 \<le> ?N" using c(3,4) u(1) by simp_all
  have un: "unat u < unat ?N + 1" "unat c0 < unat ?N + 1" "unat c1 < unat ?N + 1"
    using u(1) cr by (simp_all add: word_le_nat_alt)
  have tw: "unat (2 * u) = 2 * unat u" "unat (2 * u + 1) = 2 * unat u + 1"
    using unat_twice[of u] un(1) sh(1) by simp_all
  have tk: "unat (2 * k) = 2 * unat k" "unat (2 * k + 1) = 2 * unat k + 1"
    using unat_twice[OF k(1)] by simp_all
  have u0: "u \<noteq> 0" using u(2) by auto
  have run: "insert_record s k t = propagate_gain ?t1 ?d ?e u 0"
    using k un tw tk sh
    unfolding insert_record_def u_def c0_def c1_def rec_node_def rec_child_def
    by (simp add: rd_def wr_def Let_def)
  have f': "forest ?N ?n ?pa' ?ch'"
    using forest_attach[OF f sh(5,6) u c e] .
  from propagate_gain_result[of ?N ?n ?t1 ?ch' u 0 ?d ?e] f' sh un
  obtain nl ntl where p: "propagate_gain ?t1 ?d ?e u 0
                     = Inr (?t1\<lparr>st_num_leaves := nl, st_num_tracked_leaves := ntl\<rparr>)"
      "length nl = unat ?N + 1" "length ntl = unat ?N + 1"
      "\<And>x. x \<le> ?N \<Longrightarrow> nl ! unat x = ?nl ! unat x + (if x \<in> anc ?pa' u then ?d else 0)"
      "\<And>x. x \<le> ?N \<Longrightarrow> ntl ! unat x = ?ntl ! unat x + (if x \<in> anc ?pa' u then ?e else 0)"
    using u(1) u0 by auto
  let ?t' = "?t1\<lparr>st_num_leaves := nl, st_num_tracked_leaves := ntl\<rparr>"
  have below: "x \<notin> anc ?pa' u" if "x < u" for x
    using anc_range[OF f' u(1), of x] that by (auto dest: leD)
  have leaves: "nl ! unat l = ?nl ! unat l \<and> ntl ! unat l = ?ntl ! unat l" if "l \<le> ?n" for l
  proof -
    have "l < u" using that u(2) by (metis order_le_less_trans)
    moreover have "l \<le> ?N" using that sh(2) by simp
    ultimately show ?thesis using p(4,5) below by simp
  qed
  have cu: "child_of ?ch' u 0 = c0" "child_of ?ch' u 1 = c1"
    using child_of_attach[OF sh(6) u(1) u(1), of 0 c0 c1]
          child_of_attach[OF sh(6) u(1) u(1), of 1 c0 c1] by simp_all
  have e1: "child_of ?ch u 1 = 0" using forestD(3)[OF f u(1)] e(1) by simp
  have chd: "child_of ?ch v j = (if v = u then 0 else child_of ?ch' v j)"
    if "v \<le> ?N" "j < 2" for v j
  proof (cases "v = u")
    case True
    have "j = 0 \<or> j = 1" using that(2) by auto
    then show ?thesis using True e(1) e1 by auto
  next
    case False
    then show ?thesis using child_of_attach[OF sh(6) u(1) that, of c0 c1] by simp
  qed
  have split: "subtree_weight ?ch' ?n w v
         = subtree_weight ?ch ?n w v +
           (if v \<in> anc ?pa' u
            then subtree_weight ?ch ?n w c0 + subtree_weight ?ch ?n w c1 else 0)"
    if "v \<le> ?N" for v w
    using weight_split[OF f' u chd _ that, of w] cu c(1) by simp
  have cnt: "nl ! unat v = subtree_weight ?ch' ?n (\<lambda>l. nl ! unat l) v \<and>
             ntl ! unat v = subtree_weight ?ch' ?n (\<lambda>l. ntl ! unat l) v" if v: "v \<le> ?N" for v
  proof -
    have "subtree_weight ?ch' ?n (\<lambda>l. nl ! unat l) v
          = subtree_weight ?ch' ?n (\<lambda>l. ?nl ! unat l) v"
      using leaves by (intro sw_cong) simp
    also have "\<dots> = ?nl ! unat v + (if v \<in> anc ?pa' u then ?d else 0)"
      unfolding split[OF v] using tree_okD(3)[OF ok] v cr by simp
    finally have 1: "nl ! unat v = subtree_weight ?ch' ?n (\<lambda>l. nl ! unat l) v"
      using p(4)[OF v] by simp
    have "subtree_weight ?ch' ?n (\<lambda>l. ntl ! unat l) v
          = subtree_weight ?ch' ?n (\<lambda>l. ?ntl ! unat l) v"
      using leaves by (intro sw_cong) simp
    also have "\<dots> = ?ntl ! unat v + (if v \<in> anc ?pa' u then ?e else 0)"
      unfolding split[OF v] using tree_okD(4)[OF ok] v cr by simp
    finally have 2: "ntl ! unat v = subtree_weight ?ch' ?n (\<lambda>l. ntl ! unat l) v"
      using p(5)[OF v] by simp
    from 1 2 show ?thesis by simp
  qed
  have shape: "tree_shape ?t'"
    unfolding tree_shape_def using sh p(2,3) u(1) by simp
  have "tree_ok ?t'"
    unfolding tree_ok_def using shape f' cnt by simp
  then show ?thesis
    using run p(1) leaves
    by (intro exI[of _ ?tm] exI[of _ ?r] exI[of _ nl] exI[of _ ntl]) simp
qed


text \<open>Removing a record whose node has the two children of the record keeps the counts right.\<close>

lemma remove_record_ok:
  fixes s k t
  defines "u \<equiv> rec_node s (unat k)" and "c0 \<equiv> rec_child s (unat k) 0" and "c1 \<equiv> rec_child s (unat k) 1"
  assumes ok: "tree_ok t"
      and k: "unat k < 2 ^ 31" "unat k < length (trees_node s)"
             "2 * unat k + 1 < length (trees_children s)"
      and u: "u \<le> st_num_nodes t" "st_sample_size t < u"
      and c: "child_of (st_children t) u 0 = c0" "child_of (st_children t) u 1 = c1" "c0 \<noteq> 0"
  shows "\<exists>tm r nl ntl.
           remove_record s k t
             = Inr (t\<lparr>st_parent := (st_parent t)[unat c0 := 0, unat c1 := 0],
                       st_children := (st_children t)[2 * unat u := 0, 2 * unat u + 1 := 0],
                       st_time := tm, st_root := r, st_num_leaves := nl,
                       st_num_tracked_leaves := ntl\<rparr>) \<and>
           tree_ok (t\<lparr>st_parent := (st_parent t)[unat c0 := 0, unat c1 := 0],
                       st_children := (st_children t)[2 * unat u := 0, 2 * unat u + 1 := 0],
                       st_time := tm, st_root := r, st_num_leaves := nl,
                       st_num_tracked_leaves := ntl\<rparr>) \<and>
           (\<forall>l. l \<le> st_sample_size t \<longrightarrow>
              nl ! unat l = st_num_leaves t ! unat l \<and>
              ntl ! unat l = st_num_tracked_leaves t ! unat l)"
proof -
  let ?N = "st_num_nodes t" and ?n = "st_sample_size t"
  let ?pa = "st_parent t" and ?ch = "st_children t"
  let ?nl = "st_num_leaves t" and ?ntl = "st_num_tracked_leaves t"
  let ?pa' = "?pa[unat c0 := 0, unat c1 := 0]"
  let ?ch' = "?ch[2 * unat u := 0, 2 * unat u + 1 := 0]"
  let ?tm = "(st_time t)[unat u := 0]"
  let ?r = "if u = st_root t then max c0 c1 else st_root t"
  let ?t1 = "t\<lparr>st_parent := ?pa', st_children := ?ch', st_time := ?tm, st_root := ?r\<rparr>"
  let ?d = "?nl ! unat u" and ?e = "?ntl ! unat u"
  note sh = tree_shapeD[OF tree_okD(1)[OF ok]]
  note f = tree_okD(2)[OF ok]
  note d = forestD[OF f]
  have c1: "c1 \<noteq> 0" using d(3)[OF u(1)] c by auto
  have lt: "c0 < u" "c1 < u" using d(2)[OF u(1), of 0] d(2)[OF u(1), of 1] c c1 by simp_all
  have cr: "c0 \<le> ?N" "c1 \<le> ?N" using lt u(1) by simp_all
  have un: "unat u < unat ?N + 1" "unat c0 < unat ?N + 1" "unat c1 < unat ?N + 1"
    using u(1) cr by (simp_all add: word_le_nat_alt)
  have tw: "unat (2 * u) = 2 * unat u" "unat (2 * u + 1) = 2 * unat u + 1"
    using unat_twice[of u] un(1) sh(1) by simp_all
  have tk: "unat (2 * k) = 2 * unat k" "unat (2 * k + 1) = 2 * unat k + 1"
    using unat_twice[OF k(1)] by simp_all
  have u0: "u \<noteq> 0" using u(2) by auto
  have run: "remove_record s k t = propagate_gain ?t1 (- ?d) (- ?e) u 0"
    using k un tw tk sh
    unfolding remove_record_def u_def c0_def c1_def rec_node_def rec_child_def propagate_loss_gain
    by (simp add: rd_def wr_def Let_def)
  have f': "forest ?N ?n ?pa' ?ch'"
    using forest_detach[OF f sh(5,6) u(1) c] .
  from propagate_gain_result[of ?N ?n ?t1 ?ch' u 0 "- ?d" "- ?e"] f' sh un
  obtain nl ntl where p: "propagate_gain ?t1 (- ?d) (- ?e) u 0
                     = Inr (?t1\<lparr>st_num_leaves := nl, st_num_tracked_leaves := ntl\<rparr>)"
      "length nl = unat ?N + 1" "length ntl = unat ?N + 1"
      "\<And>x. x \<le> ?N \<Longrightarrow> nl ! unat x = ?nl ! unat x + (if x \<in> anc ?pa' u then - ?d else 0)"
      "\<And>x. x \<le> ?N \<Longrightarrow> ntl ! unat x = ?ntl ! unat x + (if x \<in> anc ?pa' u then - ?e else 0)"
    using u(1) u0 by auto
  let ?t' = "?t1\<lparr>st_num_leaves := nl, st_num_tracked_leaves := ntl\<rparr>"
  have P: "par_of ?pa' x = (if x = c0 \<or> x = c1 then 0 else par_of ?pa x)" for x
    by (rule par_of_attach[OF sh(5) cr])
  have an: "anc ?pa' u = anc ?pa u"
  proof (rule anc_cong)
    fix x assume "x \<in> anc ?pa u"
    from anc_range[OF f u(1) this] lt have "x \<noteq> c0" "x \<noteq> c1" by (auto dest: leD)
    then show "par_of ?pa' x = par_of ?pa x" using P by simp
  qed
  have below: "x \<notin> anc ?pa u" if "x < u" for x
    using anc_range[OF f u(1), of x] that by (auto dest: leD)
  have leaves: "nl ! unat l = ?nl ! unat l \<and> ntl ! unat l = ?ntl ! unat l" if "l \<le> ?n" for l
  proof -
    have "l < u" using that u(2) by (metis order_le_less_trans)
    moreover have "l \<le> ?N" using that sh(2) by simp
    ultimately show ?thesis using p(4,5) below an by simp
  qed
  have chd: "child_of ?ch' v j = (if v = u then 0 else child_of ?ch v j)"
    if "v \<le> ?N" "j < 2" for v j
    using child_of_attach[OF sh(6) u(1) that, of 0 0] by simp
  have cu: "child_of ?ch u 0 \<noteq> 0" using c by simp
  have split: "subtree_weight ?ch ?n w v
         = subtree_weight ?ch' ?n w v +
           (if v \<in> anc ?pa u
            then subtree_weight ?ch' ?n w c0 + subtree_weight ?ch' ?n w c1 else 0)"
    if "v \<le> ?N" for v w
    using weight_split[OF f u chd cu that, of w] c by simp
  have nlf: "\<not> (1 \<le> u \<and> u \<le> ?n)" using u(2) by (auto dest: leD)
  have zero: "subtree_weight ?ch' ?n w u = 0" for w
    using nlf chd[OF u(1), of 0] by (intro sw_empty) simp_all
  have delta: "subtree_weight ?ch' ?n w c0 + subtree_weight ?ch' ?n w c1 = subtree_weight ?ch ?n w u"
    for w
    using split[OF u(1), of w] zero[of w] by (simp add: anc.self)
  have cnt: "nl ! unat v = subtree_weight ?ch' ?n (\<lambda>l. nl ! unat l) v \<and>
             ntl ! unat v = subtree_weight ?ch' ?n (\<lambda>l. ntl ! unat l) v" if v: "v \<le> ?N" for v
  proof -
    have "subtree_weight ?ch' ?n (\<lambda>l. nl ! unat l) v
          = subtree_weight ?ch' ?n (\<lambda>l. ?nl ! unat l) v"
      using leaves by (intro sw_cong) simp
    moreover have "?nl ! unat v = subtree_weight ?ch' ?n (\<lambda>l. ?nl ! unat l) v
                                  + (if v \<in> anc ?pa u then ?d else 0)"
      using split[OF v, of "\<lambda>l. ?nl ! unat l"] delta[of "\<lambda>l. ?nl ! unat l"]
            tree_okD(3)[OF ok v] tree_okD(3)[OF ok u(1)] by simp
    ultimately have 1: "nl ! unat v = subtree_weight ?ch' ?n (\<lambda>l. nl ! unat l) v"
      using p(4)[OF v] an by simp
    have "subtree_weight ?ch' ?n (\<lambda>l. ntl ! unat l) v
          = subtree_weight ?ch' ?n (\<lambda>l. ?ntl ! unat l) v"
      using leaves by (intro sw_cong) simp
    moreover have "?ntl ! unat v = subtree_weight ?ch' ?n (\<lambda>l. ?ntl ! unat l) v
                                  + (if v \<in> anc ?pa u then ?e else 0)"
      using split[OF v, of "\<lambda>l. ?ntl ! unat l"] delta[of "\<lambda>l. ?ntl ! unat l"]
            tree_okD(4)[OF ok v] tree_okD(4)[OF ok u(1)] by simp
    ultimately have 2: "ntl ! unat v = subtree_weight ?ch' ?n (\<lambda>l. ntl ! unat l) v"
      using p(5)[OF v] an by simp
    from 1 2 show ?thesis by simp
  qed
  have rt: "?r \<le> ?N" using sh(4) cr by (simp add: max_def)
  have shape: "tree_shape ?t'"
    unfolding tree_shape_def using sh p(2,3) rt by simp
  have "tree_ok ?t'"
    unfolding tree_ok_def using shape f' cnt by simp
  then show ?thesis
    using run p(1) leaves
    by (intro exI[of _ ?tm] exI[of _ ?r] exI[of _ nl] exI[of _ ntl]) simp
qed

subsection \<open>The records in the tree\<close>

lemma in_treeD:
  assumes "in_tree s S t"
  shows "tree_ok t" "st_num_nodes t = num_nodes s" "st_sample_size t = sample_size s"
    and "\<And>j. j \<in> S \<Longrightarrow> j < num_records s"
    and "\<And>j. j \<in> S \<Longrightarrow> child_of (st_children t) (rec_node s j) 0 = rec_child s j 0"
    and "\<And>j. j \<in> S \<Longrightarrow> child_of (st_children t) (rec_node s j) 1 = rec_child s j 1"
    and "\<And>v. v \<le> num_nodes s \<Longrightarrow> child_of (st_children t) v 0 \<noteq> 0 \<Longrightarrow> \<exists>j\<in>S. rec_node s j = v"
  using assms unfolding in_tree_def by blast+

lemma record_okD:
  assumes "record_ok s j"
  shows "sample_size s < rec_node s j" "rec_node s j \<le> num_nodes s"
        "rec_child s j 0 \<noteq> 0" "rec_child s j 1 \<noteq> 0"
        "rec_child s j 0 < rec_node s j" "rec_child s j 1 < rec_node s j"
        "rec_child s j 0 \<noteq> rec_child s j 1"
  using assms unfolding record_ok_def by blast+

lemma insert_in_tree:
  assumes it: "in_tree s S t"
      and al: "records_aligned s"
      and k: "unat k < num_records s"
      and rk: "record_ok s (unat k)"
      and rs: "\<And>j. j \<in> S \<Longrightarrow> record_ok s j"
      and cp: "\<And>j. j \<in> S \<Longrightarrow> compatible s (unat k) j"
  shows "\<exists>t'. insert_record s k t = Inr t' \<and> in_tree s (insert (unat k) S) t' \<and> kept t t'"
proof -
  let ?u = "rec_node s (unat k)" and ?c0 = "rec_child s (unat k) 0" and ?c1 = "rec_child s (unat k) 1"
  let ?N = "num_nodes s" and ?n = "sample_size s"
  let ?pa = "st_parent t" and ?ch = "st_children t"
  note i = in_treeD[OF it]
  note w = records_alignedD[OF al]
  note r = record_okD[OF rk]
  note sh = tree_shapeD[OF tree_okD(1)[OF i(1)]]
  have f: "forest ?N ?n ?pa ?ch" using tree_okD(2)[OF i(1)] i(2,3) by simp
  note d = forestD[OF f]
  have cr: "?c0 \<le> ?N" "?c1 \<le> ?N" using r(2,5,6) by simp_all
  have e0: "child_of ?ch ?u 0 = 0"
  proof (rule ccontr)
    assume "child_of ?ch ?u 0 \<noteq> 0"
    from i(7)[OF r(2) this] obtain j where "j \<in> S" "rec_node s j = ?u" by blast
    then show False using cp[of j] by (simp add: compatible_def)
  qed
  have noparent: "par_of ?pa c = 0" if c: "c = ?c0 \<or> c = ?c1" for c
  proof (rule ccontr)
    assume nz: "par_of ?pa c \<noteq> 0"
    have cN: "c \<le> ?N" and c0: "c \<noteq> 0" using c cr r(3,4) by auto
    from d(5)[OF cN nz] have y: "par_of ?pa c \<le> ?N"
      and ch: "child_of ?ch (par_of ?pa c) 0 = c \<or> child_of ?ch (par_of ?pa c) 1 = c" by simp_all
    have "child_of ?ch (par_of ?pa c) 0 \<noteq> 0" using ch c0 d(3)[OF y] by auto
    from i(7)[OF y this] obtain j where j: "j \<in> S" "rec_node s j = par_of ?pa c" by blast
    from ch i(5)[OF j(1)] i(6)[OF j(1)] j(2) have "rec_child s j 0 = c \<or> rec_child s j 1 = c" by simp
    then show False using cp[OF j(1)] c by (auto simp: compatible_def)
  qed
  have "\<exists>tm r nl ntl.
           insert_record s k t
             = Inr (t\<lparr>st_parent := ?pa[unat ?c0 := ?u, unat ?c1 := ?u],
                       st_children := ?ch[2 * unat ?u := ?c0, 2 * unat ?u + 1 := ?c1],
                       st_time := tm, st_root := r, st_num_leaves := nl,
                       st_num_tracked_leaves := ntl\<rparr>) \<and>
           tree_ok (t\<lparr>st_parent := ?pa[unat ?c0 := ?u, unat ?c1 := ?u],
                       st_children := ?ch[2 * unat ?u := ?c0, 2 * unat ?u + 1 := ?c1],
                       st_time := tm, st_root := r, st_num_leaves := nl,
                       st_num_tracked_leaves := ntl\<rparr>) \<and>
           (\<forall>l. l \<le> st_sample_size t \<longrightarrow>
              nl ! unat l = st_num_leaves t ! unat l \<and>
              ntl ! unat l = st_num_tracked_leaves t ! unat l)"
    using k w r e0 noparent i(2,3)
    by (intro insert_record_ok[OF i(1)]) simp_all
  then obtain tm rt nl ntl where
    run: "insert_record s k t
             = Inr (t\<lparr>st_parent := ?pa[unat ?c0 := ?u, unat ?c1 := ?u],
                       st_children := ?ch[2 * unat ?u := ?c0, 2 * unat ?u + 1 := ?c1],
                       st_time := tm, st_root := rt, st_num_leaves := nl,
                       st_num_tracked_leaves := ntl\<rparr>)"
    and ok': "tree_ok (t\<lparr>st_parent := ?pa[unat ?c0 := ?u, unat ?c1 := ?u],
                       st_children := ?ch[2 * unat ?u := ?c0, 2 * unat ?u + 1 := ?c1],
                       st_time := tm, st_root := rt, st_num_leaves := nl,
                       st_num_tracked_leaves := ntl\<rparr>)"
    and lv: "\<And>l. l \<le> st_sample_size t \<Longrightarrow>
              nl ! unat l = st_num_leaves t ! unat l \<and>
              ntl ! unat l = st_num_tracked_leaves t ! unat l"
    by blast
  let ?ch' = "?ch[2 * unat ?u := ?c0, 2 * unat ?u + 1 := ?c1]"
  let ?t' = "t\<lparr>st_parent := ?pa[unat ?c0 := ?u, unat ?c1 := ?u], st_children := ?ch',
               st_time := tm, st_root := rt, st_num_leaves := nl, st_num_tracked_leaves := ntl\<rparr>"
  have l6: "length ?ch = 2 * (unat ?N + 1)" using sh(6) i(2) by simp
  have C: "child_of ?ch' v j = (if v = ?u then (if j = 0 then ?c0 else ?c1) else child_of ?ch v j)"
    if "v \<le> ?N" "j < 2" for v j
    using child_of_attach[OF l6 r(2) that] .
  have "in_tree s (insert (unat k) S) ?t'"
    unfolding in_tree_def
  proof (intro conjI ballI allI impI)
    show "tree_ok ?t'" by (rule ok')
    show "st_num_nodes ?t' = ?N" "st_sample_size ?t' = ?n" using i(2,3) by simp_all
  next
    fix j assume j: "j \<in> insert (unat k) S"
    show "j < num_records s" using j k i(4) by auto
    have jN: "rec_node s j \<le> ?N" using j r(2) record_okD(2)[OF rs] by auto
    have both: "child_of (st_children ?t') (rec_node s j) 0 = rec_child s j 0 \<and>
                child_of (st_children ?t') (rec_node s j) 1 = rec_child s j 1"
    proof (cases "j = unat k")
      case True
      then show ?thesis using C[OF r(2), of 0] C[OF r(2), of 1] by simp
    next
      case False
      then have jS: "j \<in> S" using j by simp
      then have "rec_node s j \<noteq> ?u" using cp[OF jS] by (auto simp: compatible_def)
      then show ?thesis using C[OF jN, of 0] C[OF jN, of 1] i(5)[OF jS] i(6)[OF jS] by simp
    qed
    from both show "child_of (st_children ?t') (rec_node s j) 0 = rec_child s j 0" by simp
    from both show "child_of (st_children ?t') (rec_node s j) 1 = rec_child s j 1" by simp
  next
    fix v assume v: "v \<le> ?N \<and> child_of (st_children ?t') v 0 \<noteq> 0"
    show "\<exists>j\<in>insert (unat k) S. rec_node s j = v"
    proof (cases "v = ?u")
      case True
      then show ?thesis by simp
    next
      case False
      then have "child_of ?ch v 0 \<noteq> 0" using v C[of v 0] by simp
      then show ?thesis using i(7)[of v] v by auto
    qed
  qed
  moreover have "kept t ?t'" unfolding kept_def using lv by simp
  ultimately show ?thesis using run by blast
qed

lemma remove_in_tree:
  assumes it: "in_tree s S t"
      and al: "records_aligned s"
      and k: "unat k \<in> S"
      and rs: "\<And>j. j \<in> S \<Longrightarrow> record_ok s j"
      and cp: "\<And>j. j \<in> S \<Longrightarrow> j \<noteq> unat k \<Longrightarrow> rec_node s j \<noteq> rec_node s (unat k)"
  shows "\<exists>t'. remove_record s k t = Inr t' \<and> in_tree s (S - {unat k}) t' \<and> kept t t'"
proof -
  let ?u = "rec_node s (unat k)" and ?c0 = "rec_child s (unat k) 0" and ?c1 = "rec_child s (unat k) 1"
  let ?N = "num_nodes s" and ?n = "sample_size s"
  let ?pa = "st_parent t" and ?ch = "st_children t"
  note i = in_treeD[OF it]
  note w = records_alignedD[OF al]
  note r = record_okD[OF rs[OF k]]
  note sh = tree_shapeD[OF tree_okD(1)[OF i(1)]]
  have kR: "unat k < num_records s" using i(4)[OF k] .
  have "\<exists>tm r nl ntl.
           remove_record s k t
             = Inr (t\<lparr>st_parent := ?pa[unat ?c0 := 0, unat ?c1 := 0],
                       st_children := ?ch[2 * unat ?u := 0, 2 * unat ?u + 1 := 0],
                       st_time := tm, st_root := r, st_num_leaves := nl,
                       st_num_tracked_leaves := ntl\<rparr>) \<and>
           tree_ok (t\<lparr>st_parent := ?pa[unat ?c0 := 0, unat ?c1 := 0],
                       st_children := ?ch[2 * unat ?u := 0, 2 * unat ?u + 1 := 0],
                       st_time := tm, st_root := r, st_num_leaves := nl,
                       st_num_tracked_leaves := ntl\<rparr>) \<and>
           (\<forall>l. l \<le> st_sample_size t \<longrightarrow>
              nl ! unat l = st_num_leaves t ! unat l \<and>
              ntl ! unat l = st_num_tracked_leaves t ! unat l)"
    using kR w r i(2,3) i(5)[OF k] i(6)[OF k]
    by (intro remove_record_ok[OF i(1)]) simp_all
  then obtain tm rt nl ntl where
    run: "remove_record s k t
             = Inr (t\<lparr>st_parent := ?pa[unat ?c0 := 0, unat ?c1 := 0],
                       st_children := ?ch[2 * unat ?u := 0, 2 * unat ?u + 1 := 0],
                       st_time := tm, st_root := rt, st_num_leaves := nl,
                       st_num_tracked_leaves := ntl\<rparr>)"
    and ok': "tree_ok (t\<lparr>st_parent := ?pa[unat ?c0 := 0, unat ?c1 := 0],
                       st_children := ?ch[2 * unat ?u := 0, 2 * unat ?u + 1 := 0],
                       st_time := tm, st_root := rt, st_num_leaves := nl,
                       st_num_tracked_leaves := ntl\<rparr>)"
    and lv: "\<And>l. l \<le> st_sample_size t \<Longrightarrow>
              nl ! unat l = st_num_leaves t ! unat l \<and>
              ntl ! unat l = st_num_tracked_leaves t ! unat l"
    by blast
  let ?ch' = "?ch[2 * unat ?u := 0, 2 * unat ?u + 1 := 0]"
  let ?t' = "t\<lparr>st_parent := ?pa[unat ?c0 := 0, unat ?c1 := 0], st_children := ?ch',
               st_time := tm, st_root := rt, st_num_leaves := nl, st_num_tracked_leaves := ntl\<rparr>"
  have l6: "length ?ch = 2 * (unat ?N + 1)" using sh(6) i(2) by simp
  have C: "child_of ?ch' v j = (if v = ?u then 0 else child_of ?ch v j)"
    if "v \<le> ?N" "j < 2" for v j
    using child_of_attach[OF l6 r(2) that, of 0 0] by simp
  have "in_tree s (S - {unat k}) ?t'"
    unfolding in_tree_def
  proof (intro conjI ballI allI impI)
    show "tree_ok ?t'" by (rule ok')
    show "st_num_nodes ?t' = ?N" "st_sample_size ?t' = ?n" using i(2,3) by simp_all
  next
    fix j assume j: "j \<in> S - {unat k}"
    show "j < num_records s" using j i(4) by auto
    have jN: "rec_node s j \<le> ?N" using j record_okD(2)[OF rs] by auto
    have ne: "rec_node s j \<noteq> ?u" using cp[of j] j by auto
    show "child_of (st_children ?t') (rec_node s j) 0 = rec_child s j 0"
      using C[OF jN, of 0] j i(5) ne by auto
    show "child_of (st_children ?t') (rec_node s j) 1 = rec_child s j 1"
      using C[OF jN, of 1] j i(6) ne by auto
  next
    fix v assume v: "v \<le> ?N \<and> child_of (st_children ?t') v 0 \<noteq> 0"
    then have ne: "v \<noteq> ?u" and "child_of ?ch v 0 \<noteq> 0" using C[of v 0] by (auto split: if_splits)
    then obtain j where "j \<in> S" "rec_node s j = v" using i(7)[of v] v by auto
    then show "\<exists>j\<in>S - {unat k}. rec_node s j = v" using ne by auto
  qed
  moreover have "kept t ?t'" unfolding kept_def using lv by simp
  ultimately show ?thesis using run by blast
qed

subsection \<open>The two loops over the records\<close>

declare remove_loop.simps [simp del] insert_loop.simps [simp del]
        find_root.simps [simp del] copy_mutations.simps [simp del]

lemma kept_refl: "kept t t"
  by (simp add: kept_def)

lemma kept_trans:
  "kept t t1 \<Longrightarrow> kept t1 t2 \<Longrightarrow> st_sample_size t1 = st_sample_size t \<Longrightarrow> kept t t2"
  by (simp add: kept_def)

lemma distinct_map_nth:
  "distinct (map f xs) \<Longrightarrow> a < length xs \<Longrightarrow> b < length xs \<Longrightarrow> a \<noteq> b \<Longrightarrow> f (xs ! a) \<noteq> f (xs ! b)"
  by (metis length_map nth_map nth_eq_iff_index_eq)

lemma remove_loop_ok:
  assumes s: "it_tree_sequence self = s"
      and al: "records_aligned s"
      and rs: "\<And>j. j < num_records s \<Longrightarrow> record_ok s j"
      and cp: "\<And>j j'. j \<in> S \<Longrightarrow> j' \<in> S \<Longrightarrow> j \<noteq> j' \<Longrightarrow> rec_node s j \<noteq> rec_node s j'"
      and it: "in_tree s S (it_tree self)"
      and rng: "\<forall>k\<in>set (trees_removal_order s). unat k < num_records s"
      and dist: "distinct (map unat (trees_removal_order s))"
      and run: "it_removal_index self + m < length (trees_removal_order s)"
               "\<forall>i<m. trees_right s ! unat (trees_removal_order s ! (it_removal_index self + i))
                        = st_right (it_tree self)"
               "trees_right s ! unat (trees_removal_order s ! (it_removal_index self + m))
                  \<noteq> st_right (it_tree self)"
      and sub: "\<forall>i<m. unat (trees_removal_order s ! (it_removal_index self + i)) \<in> S"
  shows "\<exists>t'. remove_loop self
                = Inr (self\<lparr>it_tree := t', it_removal_index := it_removal_index self + m\<rparr>) \<and>
              in_tree s (S - unat ` set (take m (drop (it_removal_index self) (trees_removal_order s)))) t' \<and>
              kept (it_tree self) t'"
  using s cp it run sub
proof (induction m arbitrary: self S)
  case 0
  let ?ro = "trees_removal_order s"
  let ?k = "?ro ! it_removal_index self"
  note w = records_alignedD[OF al]
  have i: "it_removal_index self < length ?ro" using 0 by simp
  then have k: "unat ?k < length (trees_right s)" using rng w(3) by simp
  have "remove_loop self = Inr self"
    apply (subst remove_loop.simps)
    using 0 i k by (simp add: rd_def)
  then show ?case using 0(3) by (auto simp: kept_refl intro!: exI[of _ "it_tree self"])
next
  case (Suc m)
  let ?ro = "trees_removal_order s"
  let ?i = "it_removal_index self"
  let ?k = "?ro ! ?i"
  note w = records_alignedD[OF al]
  have i: "?i < length ?ro" using Suc.prems(4) by simp
  then have k: "unat ?k < length (trees_right s)" using rng w(3) by simp
  have r: "trees_right s ! unat ?k = st_right (it_tree self)" using Suc.prems(5) by force
  have kS: "unat ?k \<in> S" using Suc.prems(7) by force
  have rsS: "record_ok s j" if "j \<in> S" for j
    using rs in_treeD(4)[OF Suc.prems(3) that] by simp
  from remove_in_tree[OF Suc.prems(3) al kS rsS] Suc.prems(2) kS
  obtain t1 where t1: "remove_record s ?k (it_tree self) = Inr t1"
      "in_tree s (S - {unat ?k}) t1" "kept (it_tree self) t1"
    by blast
  let ?self = "self\<lparr>it_tree := t1, it_removal_index := ?i + 1\<rparr>"
  have sr: "st_right t1 = st_right (it_tree self)" using t1(3) by (simp add: kept_def)
  have step: "remove_loop self = remove_loop ?self"
    apply (subst remove_loop.simps)
    using Suc.prems(1) i k r t1(1) by (simp add: rd_def)
  have "\<exists>t'. remove_loop ?self
                = Inr (?self\<lparr>it_tree := t', it_removal_index := it_removal_index ?self + m\<rparr>) \<and>
              in_tree s (S - {unat ?k} - unat ` set (take m (drop (it_removal_index ?self) ?ro))) t' \<and>
              kept (it_tree ?self) t'"
  proof (rule Suc.IH)
    show "it_tree_sequence ?self = s" using Suc.prems(1) by simp
    show "in_tree s (S - {unat ?k}) (it_tree ?self)" using t1(2) by simp
    show "rec_node s j \<noteq> rec_node s j'" if "j \<in> S - {unat ?k}" "j' \<in> S - {unat ?k}" "j \<noteq> j'" for j j'
      using Suc.prems(2)[of j j'] that by simp
    show "it_removal_index ?self + m < length ?ro" using Suc.prems(4) by simp
    show "\<forall>i<m. trees_right s ! unat (?ro ! (it_removal_index ?self + i)) = st_right (it_tree ?self)"
      using Suc.prems(5) sr by (auto dest: spec[of _ "Suc j" for j])
    show "trees_right s ! unat (?ro ! (it_removal_index ?self + m)) \<noteq> st_right (it_tree ?self)"
      using Suc.prems(6) sr by simp
    show "\<forall>j<m. unat (?ro ! (it_removal_index ?self + j)) \<in> S - {unat ?k}"
    proof (intro allI impI)
      fix j assume j: "j < m"
      have a: "unat (?ro ! (?i + Suc j)) \<in> S" using Suc.prems(7)[rule_format, of "Suc j"] j by simp
      have "?i + Suc j < length ?ro" "?i < length ?ro" "?i + Suc j \<noteq> ?i"
        using Suc.prems(4) j by simp_all
      then have "unat (?ro ! (?i + Suc j)) \<noteq> unat ?k" by (rule distinct_map_nth[OF dist])
      with a show "unat (?ro ! (it_removal_index ?self + j)) \<in> S - {unat ?k}" by simp
    qed
  qed
  then obtain t' where t': "remove_loop ?self
                = Inr (self\<lparr>it_tree := t', it_removal_index := ?i + Suc m\<rparr>)"
      "in_tree s (S - {unat ?k} - unat ` set (take m (drop (Suc ?i) ?ro))) t'"
      "kept t1 t'"
    by auto
  have d: "take (Suc m) (drop ?i ?ro) = ?k # take m (drop (Suc ?i) ?ro)"
    using i by (simp flip: Cons_nth_drop_Suc)
  have e: "S - unat ` set (take (Suc m) (drop ?i ?ro))
           = S - {unat ?k} - unat ` set (take m (drop (Suc ?i) ?ro))"
    unfolding d by auto
  have "kept (it_tree self) t'"
    using kept_trans[OF t1(3) t'(3)] in_treeD(3)[OF t1(2)] in_treeD(3)[OF Suc.prems(3)] by simp
  then show ?case using step t'(1,2) e by auto
qed


lemma insert_loop_ok:
  assumes s: "it_tree_sequence self = s" "it_num_records self = num_records s"
      and al: "records_aligned s"
      and rs: "\<And>j. j < num_records s \<Longrightarrow> record_ok s j"
      and cp: "\<And>j j'. j \<in> U \<Longrightarrow> j' \<in> U \<Longrightarrow> j \<noteq> j' \<Longrightarrow> compatible s j j'"
      and it: "in_tree s S (it_tree self)"
      and rng: "\<forall>k\<in>set (trees_insertion_order s). unat k < num_records s"
               "length (trees_insertion_order s) = num_records s"
      and dist: "distinct (map unat (trees_insertion_order s))"
      and run: "it_insertion_index self + m \<le> num_records s"
               "\<forall>i<m. trees_left s ! unat (trees_insertion_order s ! (it_insertion_index self + i))
                        = st_left (it_tree self)"
               "it_insertion_index self + m < num_records s \<longrightarrow>
                trees_left s ! unat (trees_insertion_order s ! (it_insertion_index self + m))
                  \<noteq> st_left (it_tree self)"
      and sub: "S \<subseteq> U"
               "\<forall>i<m. unat (trees_insertion_order s ! (it_insertion_index self + i)) \<in> U - S"
  shows "\<exists>t'. insert_loop self
                = Inr (self\<lparr>it_tree := t', it_insertion_index := it_insertion_index self + m\<rparr>) \<and>
              in_tree s (S \<union> unat ` set (take m (drop (it_insertion_index self) (trees_insertion_order s)))) t' \<and>
              kept (it_tree self) t'"
  using s it run sub
proof (induction m arbitrary: self S)
  case 0
  let ?io = "trees_insertion_order s"
  let ?k = "?io ! it_insertion_index self"
  note w = records_alignedD[OF al]
  have "insert_loop self = Inr self"
  proof (cases "it_insertion_index self < num_records s")
    case True
    then have k: "unat ?k < length (trees_left s)" using rng w(2) by simp
    show ?thesis
      apply (subst insert_loop.simps)
      using 0 True k rng(2) by (simp add: rd_def)
  next
    case False
    show ?thesis
      apply (subst insert_loop.simps)
      using 0 False by simp
  qed
  then show ?case using 0(3) by (auto simp: kept_refl intro!: exI[of _ "it_tree self"])
next
  case (Suc m)
  let ?io = "trees_insertion_order s"
  let ?i = "it_insertion_index self"
  let ?k = "?io ! ?i"
  note w = records_alignedD[OF al]
  have i: "?i < num_records s" using Suc.prems(4) by simp
  then have kR: "unat ?k < num_records s" using rng by simp
  then have k: "unat ?k < length (trees_left s)" using w(2) by simp
  have r: "trees_left s ! unat ?k = st_left (it_tree self)" using Suc.prems(5) by force
  have kU: "unat ?k \<in> U" "unat ?k \<notin> S" using Suc.prems(8)[rule_format, of 0] by simp_all
  have rsS: "record_ok s j" if "j \<in> S" for j
    using rs in_treeD(4)[OF Suc.prems(3) that] by simp
  have cpk: "compatible s (unat ?k) j" if "j \<in> S" for j
    using cp[of "unat ?k" j] kU that Suc.prems(7) by auto
  from insert_in_tree[OF Suc.prems(3) al kR rs[OF kR] rsS cpk]
  obtain t1 where t1: "insert_record s ?k (it_tree self) = Inr t1"
      "in_tree s (insert (unat ?k) S) t1" "kept (it_tree self) t1"
    by blast
  let ?self = "self\<lparr>it_tree := t1, it_insertion_index := ?i + 1\<rparr>"
  have sr: "st_left t1 = st_left (it_tree self)" using t1(3) by (simp add: kept_def)
  have step: "insert_loop self = insert_loop ?self"
    apply (subst insert_loop.simps)
    using Suc.prems(1,2) i k r t1(1) rng(2) by (simp add: rd_def)
  have "\<exists>t'. insert_loop ?self
                = Inr (?self\<lparr>it_tree := t', it_insertion_index := it_insertion_index ?self + m\<rparr>) \<and>
              in_tree s (insert (unat ?k) S \<union> unat ` set (take m (drop (it_insertion_index ?self) ?io))) t' \<and>
              kept (it_tree ?self) t'"
  proof (rule Suc.IH)
    show "it_tree_sequence ?self = s" "it_num_records ?self = num_records s"
      using Suc.prems(1,2) by simp_all
    show "in_tree s (insert (unat ?k) S) (it_tree ?self)" using t1(2) by simp
    show "it_insertion_index ?self + m \<le> num_records s" using Suc.prems(4) by simp
    show "\<forall>i<m. trees_left s ! unat (?io ! (it_insertion_index ?self + i)) = st_left (it_tree ?self)"
      using Suc.prems(5) sr by (auto dest: spec[of _ "Suc j" for j])
    show "it_insertion_index ?self + m < num_records s \<longrightarrow>
          trees_left s ! unat (?io ! (it_insertion_index ?self + m)) \<noteq> st_left (it_tree ?self)"
      using Suc.prems(6) sr by simp
    show "insert (unat ?k) S \<subseteq> U" using kU Suc.prems(7) by simp
    show "\<forall>j<m. unat (?io ! (it_insertion_index ?self + j)) \<in> U - insert (unat ?k) S"
    proof (intro allI impI)
      fix j assume j: "j < m"
      have a: "unat (?io ! (?i + Suc j)) \<in> U - S" using Suc.prems(8)[rule_format, of "Suc j"] j by simp
      have "?i + Suc j < length ?io" "?i < length ?io" "?i + Suc j \<noteq> ?i"
        using Suc.prems(4) j rng(2) by simp_all
      then have "unat (?io ! (?i + Suc j)) \<noteq> unat ?k" by (rule distinct_map_nth[OF dist])
      with a show "unat (?io ! (it_insertion_index ?self + j)) \<in> U - insert (unat ?k) S" by simp
    qed
  qed
  then obtain t' where t': "insert_loop ?self
                = Inr (self\<lparr>it_tree := t', it_insertion_index := ?i + Suc m\<rparr>)"
      "in_tree s (insert (unat ?k) S \<union> unat ` set (take m (drop (Suc ?i) ?io))) t'"
      "kept t1 t'"
    by auto
  have d: "take (Suc m) (drop ?i ?io) = ?k # take m (drop (Suc ?i) ?io)"
    using i rng(2) by (simp flip: Cons_nth_drop_Suc)
  have e: "S \<union> unat ` set (take (Suc m) (drop ?i ?io))
           = insert (unat ?k) S \<union> unat ` set (take m (drop (Suc ?i) ?io))"
    unfolding d by auto
  have "kept (it_tree self) t'"
    using kept_trans[OF t1(3) t'(3)] in_treeD(3)[OF t1(2)] in_treeD(3)[OF Suc.prems(3)] by simp
  then show ?case using step t'(1,2) e by auto
qed

subsection \<open>The root and the mutations\<close>

lemma find_root_ok:
  assumes f: "forest N n (st_parent t) ch"
      and l: "length (st_parent t) = unat N + 1"
      and r: "st_root t \<le> N" "turns \<le> unat (st_root t)"
  shows "\<exists>r. find_root t turns = Inr (t\<lparr>st_root := r\<rparr>) \<and> r \<le> N"
  using f l r
proof (induction "unat N + 1 - unat (st_root t)" arbitrary: t turns rule: less_induct)
  case less
  let ?v = "par_of (st_parent t) (st_root t)"
  have rr: "unat (st_root t) < length (st_parent t)"
    using less.prems(2,3) by (simp add: word_le_nat_alt)
  show ?case
  proof (cases "?v = 0")
    case True
    have "find_root t turns = Inr t"
      apply (subst find_root.simps)
      using True rr by (simp add: rd_def par_of_def)
    then show ?thesis using less.prems(3) by (intro exI[of _ "st_root t"]) simp
  next
    case False
    note up = forest_up[OF less.prems(1,3) False]
    let ?t = "t\<lparr>st_root := ?v\<rparr>"
    have tn: "turns < length (st_parent t)" using less.prems(4) rr by simp
    have step: "find_root t turns = find_root ?t (turns + 1)"
      apply (subst find_root.simps)
      using False rr tn by (simp add: rd_def par_of_def)
    have m: "unat N + 1 - unat (st_root ?t) < unat N + 1 - unat (st_root t)"
      using up(1,2) by (simp add: word_less_nat_alt word_le_nat_alt)
    have "\<exists>r. find_root ?t (turns + 1) = Inr (?t\<lparr>st_root := r\<rparr>) \<and> r \<le> N"
      using less.prems(1,2,4) up by (intro less.hyps[OF m]) (simp_all add: word_less_nat_alt)
    then show ?thesis using step by auto
  qed
qed

lemma copy_mutations_ok:
  assumes "length (mutations_position (it_tree_sequence self)) = num_mutations (it_tree_sequence self)"
      and "length (mutations_node (it_tree_sequence self)) = num_mutations (it_tree_sequence self)"
      and "st_max_mutations (it_tree self) = num_mutations (it_tree_sequence self)"
      and "length (st_mutations (it_tree self)) \<le> it_mutation_index self"
  shows "\<exists>ms mi. copy_mutations self
                   = Inr (self\<lparr>it_tree := (it_tree self)\<lparr>st_mutations := ms\<rparr>,
                               it_mutation_index := mi\<rparr>)"
  using assms
proof (induction "num_mutations (it_tree_sequence self) - it_mutation_index self"
         arbitrary: self rule: less_induct)
  case less
  let ?s = "it_tree_sequence self" and ?t = "it_tree self" and ?i = "it_mutation_index self"
  show ?case
  proof (cases "?i < num_mutations ?s \<and> mutations_position ?s ! ?i < real (unat (st_right ?t))")
    case False
    have "copy_mutations self = Inr self"
      apply (subst copy_mutations.simps)
      using False less.prems(1) by (auto simp: rd_def)
    then show ?thesis
      by (intro exI[of _ "st_mutations ?t"] exI[of _ ?i]) simp
  next
    case True
    let ?self = "self\<lparr>it_tree := ?t\<lparr>st_mutations :=
                   st_mutations ?t @ [\<lparr>mut_position = mutations_position ?s ! ?i,
                                       mut_node = mutations_node ?s ! ?i\<rparr>]\<rparr>,
                      it_mutation_index := ?i + 1\<rparr>"
    have step: "copy_mutations self = copy_mutations ?self"
      apply (subst copy_mutations.simps)
      using True less.prems by (simp add: rd_def)
    have "\<exists>ms mi. copy_mutations ?self
                   = Inr (?self\<lparr>it_tree := (it_tree ?self)\<lparr>st_mutations := ms\<rparr>,
                                it_mutation_index := mi\<rparr>)"
      using True less.prems by (intro less.hyps) auto
    then show ?thesis using step by auto
  qed
qed

text \<open>What in a sparse tree is neither array nor size does not matter for the counts.\<close>

lemma tree_ok_frame [simp]:
  "tree_ok (t\<lparr>st_left := a\<rparr>) = tree_ok t"
  "tree_ok (t\<lparr>st_right := b\<rparr>) = tree_ok t"
  "tree_ok (t\<lparr>st_mutations := ms\<rparr>) = tree_ok t"
  by (auto simp: tree_ok_def tree_shape_def)

lemma tree_ok_root: "tree_ok t \<Longrightarrow> r \<le> st_num_nodes t \<Longrightarrow> tree_ok (t\<lparr>st_root := r\<rparr>)"
  by (auto simp: tree_ok_def tree_shape_def)

lemma in_tree_frame [simp]:
  "in_tree s S (t\<lparr>st_left := a\<rparr>) = in_tree s S t"
  "in_tree s S (t\<lparr>st_right := b\<rparr>) = in_tree s S t"
  "in_tree s S (t\<lparr>st_mutations := ms\<rparr>) = in_tree s S t"
  by (auto simp: in_tree_def)

lemma in_tree_root: "in_tree s S t \<Longrightarrow> r \<le> st_num_nodes t \<Longrightarrow> in_tree s S (t\<lparr>st_root := r\<rparr>)"
  using tree_ok_root[of t r] by (auto simp: in_tree_def)

lemma complete_frame [simp]:
  "complete (t\<lparr>st_left := a\<rparr>) = complete t"
  "complete (t\<lparr>st_right := b\<rparr>) = complete t"
  "complete (t\<lparr>st_mutations := ms\<rparr>) = complete t"
  "complete (t\<lparr>st_root := r\<rparr>) = complete t"
  by (simp_all add: complete_def)

subsection \<open>Places in the index columns\<close>

lemma in_take_nth: "k \<in> set (take i xs) \<longleftrightarrow> (\<exists>a. a < i \<and> a < length xs \<and> xs ! a = k)"
  by (auto simp: in_set_conv_nth)

lemma notin_take:
  assumes "distinct (map f xs)" "b < length xs" "i \<le> b"
  shows "f (xs ! b) \<notin> f ` set (take i xs)"
proof
  assume "f (xs ! b) \<in> f ` set (take i xs)"
  then obtain k where k: "k \<in> set (take i xs)" "f k = f (xs ! b)" by auto
  then obtain a where a: "a < i" "a < length xs" "xs ! a = k" by (auto simp: in_take_nth)
  then have "a \<noteq> b" using assms(3) by simp
  from distinct_map_nth[OF assms(1) a(2) assms(2) this] a(3) k(2) show False by simp
qed

lemma indexes_distinct:
  assumes "indexes_sorted s"
  shows "distinct (map unat (trees_removal_order s))" "distinct (map unat (trees_insertion_order s))"
proof -
  from assms have "mset (map unat (trees_removal_order s)) = mset [0..<num_records s]"
    "mset (map unat (trees_insertion_order s)) = mset [0..<num_records s]"
    by (simp_all add: indexes_sorted_def)
  then show "distinct (map unat (trees_removal_order s))" "distinct (map unat (trees_insertion_order s))"
    by (metis distinct_upt mset_eq_imp_distinct_iff)+
qed


end
